(* ===== verification/Prelude.thy ===== *)
theory Prelude
  imports Complex_Main "HOL-Library.Char_ord" "HOL-Library.List_Lexorder"
    "HOL-Library.Code_Target_Numeral"
begin

section \<open>Bytes, strings and streams\<close>

text \<open>
  Shared vocabulary of the development. A C++ \<^verbatim>\<open>std::string\<close> is a list of bytes, which is
  Isabelle's \<open>string\<close> (a \<open>char\<close> is eight bits). The character classes are those of the C
  locale, which the daemon never changes: \<^verbatim>\<open>std::isspace\<close>, \<^verbatim>\<open>std::isalnum\<close>, \<^verbatim>\<open>std::tolower\<close>.
  On top of them stand the string operations the sources use: \<^verbatim>\<open>trim\<close>, \<^verbatim>\<open>std::getline\<close> over a
  string stream, \<^verbatim>\<open>operator>>\<close> into a string, prefix and substring tests.
  The order on strings is the byte-wise lexicographic order of \<^verbatim>\<open>operator<\<close>.
  Numerals evaluate as binary numbers (\<open>Code_Target_Numeral\<close>), so that \<open>code_simp\<close> runs the
  model on concrete inputs inside the kernel.
\<close>

named_theorems char_simps \<open>facts about character classes\<close>
named_theorems scan_simps \<open>facts that run scanners over concatenated text\<close>

subsection \<open>Character classes of the C locale\<close>

definition isspace :: "char \<Rightarrow> bool" where
  "isspace c \<longleftrightarrow> (let n = (of_char c :: nat) in n = 32 \<or> (9 \<le> n \<and> n \<le> 13))"

definition isdigit :: "char \<Rightarrow> bool" where
  "isdigit c \<longleftrightarrow> (let n = (of_char c :: nat) in 48 \<le> n \<and> n \<le> 57)"

definition isalnum :: "char \<Rightarrow> bool" where
  "isalnum c \<longleftrightarrow> (let n = (of_char c :: nat) in
     (48 \<le> n \<and> n \<le> 57) \<or> (65 \<le> n \<and> n \<le> 90) \<or> (97 \<le> n \<and> n \<le> 122))"

definition tolower :: "char \<Rightarrow> char" where
  "tolower c = (let n = (of_char c :: nat) in if 65 \<le> n \<and> n \<le> 90 then char_of (n + 32) else c)"

definition lowerCopy :: "string \<Rightarrow> string" where
  "lowerCopy s = map tolower s"

abbreviation newline :: char where
  "newline \<equiv> CHR 0x0A"

abbreviation carriage_return :: char where
  "carriage_return \<equiv> CHR 0x0D"

abbreviation quote :: char where
  "quote \<equiv> CHR 0x22"

abbreviation nonspace :: "char \<Rightarrow> bool" where
  "nonspace c \<equiv> \<not> isspace c"

lemma isspace_literals [simp, char_simps]:
  "isspace CHR 0x20" "isspace newline" "isspace carriage_return" "isspace CHR 0x09"
  by (simp_all add: isspace_def)

lemma isalnum_not_isspace [simp, char_simps]: "isalnum c \<Longrightarrow> \<not> isspace c"
  by (auto simp: isalnum_def isspace_def Let_def)

lemma isdigit_not_isspace [simp, char_simps]: "isdigit c \<Longrightarrow> \<not> isspace c"
  by (auto simp: isdigit_def isspace_def Let_def)

lemma lowerCopy_Nil [simp]: "lowerCopy [] = []"
  by (simp add: lowerCopy_def)

subsection \<open>Trimming\<close>

definition trim :: "string \<Rightarrow> string" where
  "trim value = rev (dropWhile isspace (rev (dropWhile isspace value)))"

definition trimmed :: "string \<Rightarrow> bool" where
  "trimmed s \<longleftrightarrow> s = [] \<or> nonspace (hd s) \<and> nonspace (last s)"

lemma list_all_takeWhile [simp]: "list_all P (takeWhile P xs)"
  by (induction xs) auto

lemma dropWhile_id: "s = [] \<or> \<not> P (hd s) \<Longrightarrow> dropWhile P s = s"
  by (cases s) auto

lemma trim_trimmed [simp]: "trimmed s \<Longrightarrow> trim s = s"
  by (auto simp: trim_def trimmed_def dropWhile_id hd_rev)

lemma trim_Nil [simp]: "trim [] = []"
  by (simp add: trim_def)

lemma last_dropWhile: "dropWhile P xs \<noteq> [] \<Longrightarrow> last (dropWhile P xs) = last xs"
  by (induction xs) auto

lemma hd_dropWhile_rev:
  "dropWhile P (rev ys) \<noteq> [] \<Longrightarrow> last (dropWhile P (rev ys)) = hd ys"
  by (cases "ys = []") (auto simp: last_dropWhile last_rev)

lemma trimmed_trim [simp]: "trimmed (trim s)"
proof -
  define t where "t = dropWhile isspace s"
  define u where "u = dropWhile isspace (rev t)"
  have trim: "trim s = rev u" by (simp add: trim_def t_def u_def)
  show ?thesis
  proof (cases "u = []")
    case True
    then show ?thesis by (simp add: trim trimmed_def)
  next
    case False
    then have "nonspace (hd u)"
      using hd_dropWhile [of isspace "rev t"] by (simp add: u_def)
    moreover from False have "last u = hd t" by (simp add: u_def hd_dropWhile_rev)
    moreover from False have "t \<noteq> []" by (auto simp: u_def)
    then have "nonspace (hd t)" unfolding t_def by (rule hd_dropWhile)
    ultimately show ?thesis
      using False by (simp add: trim trimmed_def hd_rev last_rev)
  qed
qed

lemma trim_idem: "trim (trim s) = trim s"
  by simp

lemma trim_append_space [simp]:
  assumes "\<forall>c \<in> set w. isspace c"
  shows "trim (s @ w) = trim s"
proof (cases "\<forall>c \<in> set s. isspace c")
  case True
  with assms have "dropWhile isspace (s @ w) = []" "dropWhile isspace s = []"
    by (auto simp: dropWhile_eq_Nil_conv)
  then show ?thesis by (simp only: trim_def)
next
  case False
  then have "dropWhile isspace (s @ w) = dropWhile isspace s @ w"
    by (auto simp: dropWhile_append1)
  moreover have "dropWhile isspace (rev w @ t) = dropWhile isspace t" for t
    using assms by (intro dropWhile_append2) auto
  ultimately show ?thesis by (simp add: trim_def)
qed

lemma trim_space_append [simp]:
  assumes "\<forall>c \<in> set w. isspace c"
  shows "trim (w @ s) = trim s"
  using assms by (simp add: trim_def dropWhile_append2)

lemma trim_Cons_space [simp]: "isspace c \<Longrightarrow> trim (c # s) = trim s"
  by (simp add: trim_def)

lemma trimmed_nonspace: "\<forall>c \<in> set s. nonspace c \<Longrightarrow> trimmed s"
  by (cases s) (auto simp: trimmed_def)

subsection \<open>Stream extraction\<close>

text \<open>
  \<open>getlines d s\<close> is the sequence of strings a loop \<^verbatim>\<open>while (std::getline(in, line, d))\<close> sees:
  the text between delimiters, without an empty last piece.
\<close>

fun getlines :: "char \<Rightarrow> string \<Rightarrow> string list" where
  "getlines d [] = []"
| "getlines d (c # cs) =
     (if c = d then [] # getlines d cs
      else case getlines d cs of [] \<Rightarrow> [[c]] | l # ls \<Rightarrow> (c # l) # ls)"

abbreviation text_lines :: "string \<Rightarrow> string list" where
  "text_lines \<equiv> getlines newline"

text \<open>\<^verbatim>\<open>in >> token\<close>: skip white space, then take up to the next white space; \<open>None\<close> sets failbit.\<close>

definition next_token :: "string \<Rightarrow> (string \<times> string) option" where
  "next_token s =
     (let s' = dropWhile isspace s
      in if s' = [] then None else Some (takeWhile nonspace s', dropWhile nonspace s'))"

definition starts_with :: "string \<Rightarrow> string \<Rightarrow> bool" where
  "starts_with p s \<longleftrightarrow> take (length p) s = p"

fun contains :: "string \<Rightarrow> string \<Rightarrow> bool" where
  "contains p [] = (p = [])"
| "contains p (c # cs) = (starts_with p (c # cs) \<or> contains p cs)"

text \<open>\<^verbatim>\<open>s.find(c)\<close>: the text before the first \<open>c\<close> and the text after it.\<close>

fun split_at :: "char \<Rightarrow> string \<Rightarrow> (string \<times> string) option" where
  "split_at d [] = None"
| "split_at d (c # cs) =
     (if c = d then Some ([], cs)
      else case split_at d cs of None \<Rightarrow> None | Some (l, r) \<Rightarrow> Some (c # l, r))"

definition pop_cr :: "string \<Rightarrow> string" where
  "pop_cr line = (if line \<noteq> [] \<and> last line = carriage_return then butlast line else line)"

lemma getlines_no_delim: "d \<notin> set l \<Longrightarrow> getlines d l = (if l = [] then [] else [l])"
  by (induction l) auto

lemma getlines_append_delim [scan_simps]:
  "d \<notin> set l \<Longrightarrow> getlines d (l @ d # r) = l # getlines d r"
  by (induction l) auto

lemma getlines_no_delim_in: "l \<in> set (getlines d s) \<Longrightarrow> d \<notin> set l"
proof (induction s arbitrary: l)
  case Nil
  then show ?case by simp
next
  case (Cons c s)
  show ?case
  proof (cases "c = d")
    case True
    with Cons show ?thesis by auto
  next
    case False
    then have "getlines d (c # s) = (case getlines d s of [] \<Rightarrow> [[c]] | k # ks \<Rightarrow> (c # k) # ks)"
      by simp
    with Cons False show ?thesis
      by (cases "getlines d s") auto
  qed
qed

lemma getlines_concat [scan_simps]:
  "(\<forall>l \<in> set ls. d \<notin> set l) \<Longrightarrow> getlines d (concat (map (\<lambda>l. l @ [d]) ls)) = ls"
  by (induction ls) (auto simp: getlines_append_delim)

lemma getlines_append:
  "(\<forall>l \<in> set ls. d \<notin> set l) \<Longrightarrow>
   getlines d (concat (map (\<lambda>l. l @ [d]) ls) @ r) = ls @ getlines d r"
  by (induction ls) (auto simp: getlines_append_delim)

lemma next_token_word [scan_simps]:
  assumes "w \<noteq> []" "\<forall>c \<in> set w. nonspace c" "r = [] \<or> isspace (hd r)"
  shows "next_token (w @ r) = Some (w, r)"
proof -
  have "dropWhile isspace (w @ r) = w @ r"
    using assms(1,2) by (cases w) auto
  moreover have "takeWhile nonspace (w @ r) = w" "dropWhile nonspace (w @ r) = r"
    using assms(2,3)
    by (cases r; simp add: takeWhile_append2 dropWhile_append2)+
  ultimately show ?thesis using assms(1) by (simp add: next_token_def)
qed

lemma next_token_skip [simp, scan_simps]: "isspace c \<Longrightarrow> next_token (c # s) = next_token s"
  by (simp add: next_token_def)

lemma next_token_Nil [simp]: "next_token [] = None"
  by (simp add: next_token_def)

lemma next_token_SomeD:
  assumes "next_token s = Some (w, r)"
  shows "w \<noteq> []" "\<forall>c \<in> set w. nonspace c" "length r < length s" "r = [] \<or> isspace (hd r)"
proof -
  define s' where "s' = dropWhile isspace s"
  from assms have ne: "s' \<noteq> []" and w: "w = takeWhile nonspace s'" and r: "r = dropWhile nonspace s'"
    by (auto simp: next_token_def s'_def Let_def split: if_splits)
  from ne have hd: "nonspace (hd s')" unfolding s'_def by (rule hd_dropWhile)
  with ne show "w \<noteq> []" by (cases s') (auto simp: w)
  show "\<forall>c \<in> set w. nonspace c" by (auto simp: w dest: set_takeWhileD)
  have "w @ r = s'" by (simp add: w r)
  with \<open>w \<noteq> []\<close> have "length r < length s'" by (metis length_append length_greater_0_conv less_add_same_cancel2)
  also have "length s' \<le> length s" by (simp add: s'_def length_dropWhile_le)
  finally show "length r < length s" .
  show "r = [] \<or> isspace (hd r)"
    using hd_dropWhile [of nonspace s'] by (auto simp: r)
qed

lemma starts_with_append [simp]: "starts_with p (p @ s)"
  by (simp add: starts_with_def)

lemma starts_with_Nil [simp]: "starts_with [] s"
  by (simp add: starts_with_def)

lemma starts_with_iff: "starts_with p s \<longleftrightarrow> (\<exists>r. s = p @ r)"
  unfolding starts_with_def by (metis append_eq_conv_conj append_take_drop_id)

lemma starts_with_Cons [simp]:
  "starts_with (p # ps) (c # cs) \<longleftrightarrow> p = c \<and> starts_with ps cs"
  "\<not> starts_with (p # ps) []"
  by (auto simp: starts_with_def)

lemma contains_Nil [simp]: "contains [] s"
  by (cases s) auto

lemma contains_iff: "contains p s \<longleftrightarrow> (\<exists>l r. s = l @ p @ r)"
proof (induction s)
  case Nil
  then show ?case by auto
next
  case (Cons c s)
  have "(\<exists>l r. c # s = l @ p @ r) \<longleftrightarrow> (\<exists>r. c # s = p @ r) \<or> (\<exists>l r. s = l @ p @ r)"
    by (metis append_Cons append_Nil list.sel(3) tl_append2 append_self_conv2)
  with Cons show ?case by (simp add: starts_with_iff)
qed

lemma split_at_None [simp]: "split_at d s = None \<longleftrightarrow> d \<notin> set s"
  by (induction s) (auto split: option.splits)

lemma split_at_append [scan_simps]: "d \<notin> set l \<Longrightarrow> split_at d (l @ d # r) = Some (l, r)"
  by (induction l) auto

lemma split_at_SomeD:
  "split_at d s = Some (l, r) \<Longrightarrow> s = l @ d # r \<and> d \<notin> set l"
  by (induction s arbitrary: l r) (auto split: if_splits option.splits)

lemma pop_cr_id [simp]: "s = [] \<or> last s \<noteq> carriage_return \<Longrightarrow> pop_cr s = s"
  by (auto simp: pop_cr_def)

lemma trim_pop_cr [simp]: "trim (pop_cr s) = trim s"
proof (cases "s \<noteq> [] \<and> last s = carriage_return")
  case True
  then have "s = butlast s @ [carriage_return]" by (metis append_butlast_last_id)
  then have "trim s = trim (butlast s)" by (metis trim_append_space isspace_literals(3) list.set(1,2) singletonD)
  then show ?thesis using True by (simp add: pop_cr_def)
next
  case False
  then show ?thesis by auto
qed

subsection \<open>Decimal numerals\<close>

fun show_nat :: "nat \<Rightarrow> string" where
  "show_nat n = (if n < 10 then [char_of (48 + n)] else show_nat (n div 10) @ [char_of (48 + n mod 10)])"

declare show_nat.simps [simp del]

definition digit_val :: "char \<Rightarrow> nat" where
  "digit_val c = of_char c - 48"

definition digits_val :: "string \<Rightarrow> nat" where
  "digits_val s = foldl (\<lambda>n c. 10 * n + digit_val c) 0 s"

lemma isdigit_char_of [simp]: "(n::nat) < 10 \<Longrightarrow> isdigit (char_of (48 + n))"
  by (simp add: isdigit_def)

lemma digit_val_char_of [simp]: "n < 10 \<Longrightarrow> digit_val (char_of (48 + n)) = n"
  by (simp add: digit_val_def)

lemma show_nat_digits: "c \<in> set (show_nat n) \<Longrightarrow> isdigit c"
proof (induction n rule: show_nat.induct)
  case (1 n)
  then show ?case
    by (cases "n < 10") (auto simp: show_nat.simps [of n])
qed

lemma show_nat_not_Nil [simp]: "show_nat n \<noteq> []"
  by (simp add: show_nat.simps [of n])

lemma digits_val_snoc: "digits_val (s @ [c]) = 10 * digits_val s + digit_val c"
  by (simp add: digits_val_def)

lemma digits_val_show_nat [simp]: "digits_val (show_nat n) = n"
proof (induction n rule: show_nat.induct)
  case (1 n)
  show ?case
  proof (cases "n < 10")
    case True
    then show ?thesis by (simp add: show_nat.simps [of n] digits_val_def)
  next
    case False
    with 1 show ?thesis
      by (simp add: show_nat.simps [of n] digits_val_snoc)
  qed
qed

end
