(* ===== verification/Doubles.thy ===== *)
theory Doubles
  imports Prelude "HOL-Library.Log_Nat"
begin

section \<open>The C++ type double\<close>

text \<open>
  Metric values are C++ \<^verbatim>\<open>double\<close>s: IEEE 754 binary64. A finite double is its sign and its
  magnitude, an exact rational; infinities and NaNs carry a sign because the stream operators
  print it. Arithmetic is exact rational arithmetic followed by one rounding to nearest, ties
  to even, on 53 bits with the subnormal range below \<open>2\<^sup>-\<^sup>1\<^sup>0\<^sup>2\<^sup>2\<close> and overflow at \<open>2\<^sup>1\<^sup>0\<^sup>2\<^sup>4\<close>
  (the sign of a NaN produced by arithmetic is fixed arbitrarily; no code path observes it).
  The comparison operators are those of C++: every comparison with a NaN is false and the two
  zeros are equal.
  The theory holds the type, the rounding and the arithmetic; \<open>Double_Text\<close> holds reading and
  printing.
\<close>

datatype double = DNaN bool | DInf bool | DFin bool rat

fun isfinite :: "double \<Rightarrow> bool" where
  "isfinite (DFin s m) = True"
| "isfinite _ = False"

fun isnan :: "double \<Rightarrow> bool" where
  "isnan (DNaN s) = True"
| "isnan _ = False"

fun sign_of :: "double \<Rightarrow> bool" where
  "sign_of (DNaN s) = s"
| "sign_of (DInf s) = s"
| "sign_of (DFin s m) = s"

fun dval :: "double \<Rightarrow> rat" where
  "dval (DFin s m) = (if s then - m else m)"
| "dval _ = 0"

subsection \<open>Comparison\<close>

text \<open>
  A double that is not a NaN has a place on the extended rational line: its side (below,
  on or above the finite numbers) and, on it, its value.
\<close>

fun drank :: "double \<Rightarrow> int" where
  "drank (DNaN s) = 0"
| "drank (DFin s m) = 0"
| "drank (DInf s) = (if s then - 1 else 1)"

instantiation double :: ord
begin

definition less_double :: "double \<Rightarrow> double \<Rightarrow> bool" where
  "less_double x y \<longleftrightarrow> \<not> isnan x \<and> \<not> isnan y \<and>
     (drank x < drank y \<or> drank x = drank y \<and> dval x < dval y)"

definition less_eq_double :: "double \<Rightarrow> double \<Rightarrow> bool" where
  "less_eq_double x y \<longleftrightarrow> \<not> isnan x \<and> \<not> isnan y \<and>
     (drank x < drank y \<or> drank x = drank y \<and> dval x \<le> dval y)"

instance ..

end

text \<open>\<^verbatim>\<open>==\<close> on doubles, as \<^verbatim>\<open>std::unique\<close> uses it.\<close>

definition deq :: "double \<Rightarrow> double \<Rightarrow> bool" where
  "deq x y \<longleftrightarrow> x \<le> y \<and> y \<le> x"

abbreviation dzero :: double where
  "dzero \<equiv> DFin False 0"

lemma double_not_less:
  "\<not> isnan x \<Longrightarrow> \<not> isnan y \<Longrightarrow> \<not> x < y \<longleftrightarrow> y \<le> (x :: double)"
  by (auto simp: less_double_def less_eq_double_def)

lemma double_le_refl [simp]: "\<not> isnan x \<Longrightarrow> x \<le> (x :: double)"
  by (simp add: less_eq_double_def)

lemma double_le_trans [trans]: "x \<le> y \<Longrightarrow> y \<le> z \<Longrightarrow> x \<le> (z :: double)"
  by (auto simp: less_eq_double_def)

lemma double_less_imp_le: "x < y \<Longrightarrow> x \<le> (y :: double)"
  by (auto simp: less_double_def less_eq_double_def)

lemma double_le_less_trans: "x \<le> y \<Longrightarrow> y < z \<Longrightarrow> x < (z :: double)"
  by (auto simp: less_double_def less_eq_double_def)

lemma double_less_iff_le: "x < y \<longleftrightarrow> x \<le> y \<and> \<not> y \<le> (x :: double)"
  by (auto simp: less_double_def less_eq_double_def)

lemma nan_compare [simp]:
  "\<not> DNaN s < y" "\<not> y < DNaN s" "\<not> DNaN s \<le> y" "\<not> y \<le> DNaN s"
  by (auto simp: less_double_def less_eq_double_def)

lemma isfinite_not_nan [simp]: "isfinite x \<Longrightarrow> \<not> isnan x"
  by (cases x) auto

lemma isfinite_drank [simp]: "isfinite x \<Longrightarrow> drank x = 0"
  by (cases x) auto

lemma less_eq_fin [simp]: "isfinite x \<Longrightarrow> isfinite y \<Longrightarrow> x \<le> y \<longleftrightarrow> dval x \<le> dval y"
  by (simp add: less_eq_double_def)

lemma less_fin [simp]: "isfinite x \<Longrightarrow> isfinite y \<Longrightarrow> x < y \<longleftrightarrow> dval x < dval y"
  by (simp add: less_double_def)

subsection \<open>Floor of the logarithm\<close>

definition ilog :: "nat \<Rightarrow> rat \<Rightarrow> int" where
  "ilog b q =
     (let (n, d) = quotient_of q;
          e = int (floorlog b (nat n)) - int (floorlog b (nat d))
      in if q < of_nat b powi e then e - 1 else e)"

lemma powi_mono_base: "1 < (b :: rat) \<Longrightarrow> m \<le> n \<Longrightarrow> b powi m \<le> b powi n"
  by (rule power_int_increasing) auto

lemma powi_less_mono_base: "1 < (b :: rat) \<Longrightarrow> m < n \<Longrightarrow> b powi m < b powi n"
  by (rule power_int_strict_increasing) auto

lemma powi_less_cancel: "1 < (b :: rat) \<Longrightarrow> b powi m < b powi n \<Longrightarrow> m < n"
  using powi_mono_base [of b n m] by (meson leD leI)

lemma quotient_floorlog:
  assumes q: "0 < q" and b: "1 < b" and qo: "quotient_of q = (n, d)"
  defines "e \<equiv> int (floorlog b (nat n)) - int (floorlog b (nat d))"
  shows "of_nat b powi (e - 1) < q" "q < of_nat b powi (e + 1)"
proof -
  have d: "0 < d" using qo by (rule quotient_of_denom_pos)
  have qnd: "q = of_int n / of_int d" using qo by (rule quotient_of_div)
  have n: "0 < n" using q d by (simp add: qnd zero_less_divide_iff)
  define ln ld B where "ln = floorlog b (nat n)" and "ld = floorlog b (nat d)"
    and "B = (of_nat b :: rat)"
  have B: "1 < B" using b by (simp add: B_def)
  have ln: "b ^ (ln - 1) \<le> nat n" "nat n < b ^ ln" and ld: "b ^ (ld - 1) \<le> nat d" "nat d < b ^ ld"
    using floorlog_bounds [of "nat n" b] floorlog_bounds [of "nat d" b] n d b
    by (auto simp: ln_def ld_def)
  have pos: "0 < ln" "0 < ld" using n d b by (auto simp: ln_def ld_def floorlog_def)
  have of_nat_B: "of_nat (b ^ k) = B ^ k" for k by (simp add: B_def)
  have n_r: "(of_int n :: rat) = of_nat (nat n)" and d_r: "(of_int d :: rat) = of_nat (nat d)"
    using n d by simp_all
  have n1: "B ^ (ln - 1) \<le> of_int n" "of_int n < B ^ ln"
    and d1: "B ^ (ld - 1) \<le> of_int d" "of_int d < B ^ ld"
    using ln ld unfolding n_r d_r of_nat_B [symmetric] of_nat_le_iff of_nat_less_iff by auto
  have "B powi (e - 1) = B ^ (ln - 1) / B ^ ld"
  proof -
    have "e - 1 = int (ln - 1) - int ld" using pos by (simp add: e_def ln_def ld_def)
    then show ?thesis using B by (simp add: power_int_diff)
  qed
  also have "\<dots> < of_int n / of_int d"
    using n1(1) d1 d B by (intro frac_less2) auto
  finally show "of_nat b powi (e - 1) < q" by (simp add: qnd B_def)
  have "of_int n / of_int d < B ^ ln / B ^ (ld - 1)"
    using n1 d1(1) d n B by (intro frac_less) auto
  also have "\<dots> = B powi (e + 1)"
  proof -
    have "e + 1 = int ln - int (ld - 1)" using pos by (simp add: e_def ln_def ld_def)
    then show ?thesis using B by (simp add: power_int_diff)
  qed
  finally show "q < of_nat b powi (e + 1)" by (simp add: qnd B_def)
qed

lemma ilog_bounds:
  assumes "0 < q" "1 < b"
  shows "of_nat b powi ilog b q \<le> q" "q < of_nat b powi (ilog b q + 1)"
proof -
  obtain n d where qo: "quotient_of q = (n, d)" by fastforce
  note qf = quotient_floorlog [OF assms qo]
  show "of_nat b powi ilog b q \<le> q" "q < of_nat b powi (ilog b q + 1)"
    using qf by (auto simp: ilog_def qo Let_def)
qed

lemma ilog_unique:
  assumes "1 < b" "of_nat b powi e \<le> q" "q < of_nat b powi (e + 1)"
  shows "ilog b q = e"
proof -
  have b: "1 < (of_nat b :: rat)" using assms(1) by simp
  have "0 < (of_nat b :: rat) powi e" using b by simp
  with assms(2) have q: "0 < q" by linarith
  note il = ilog_bounds [OF q assms(1)]
  from il(1) assms(3) have "of_nat b powi ilog b q < (of_nat b :: rat) powi (e + 1)" by linarith
  then have 1: "ilog b q < e + 1" by (rule powi_less_cancel [OF b])
  from il(2) assms(2) have "of_nat b powi e < (of_nat b :: rat) powi (ilog b q + 1)" by linarith
  then have "e < ilog b q + 1" by (rule powi_less_cancel [OF b])
  with 1 show ?thesis by simp
qed

lemma ilog_mono:
  assumes "0 < q" "q \<le> r" "1 < b"
  shows "ilog b q \<le> ilog b r"
proof -
  have r: "0 < r" using assms by linarith
  have b: "1 < (of_nat b :: rat)" using assms(3) by simp
  from ilog_bounds(1) [OF assms(1,3)] ilog_bounds(2) [OF r assms(3)] assms(2)
  have "of_nat b powi ilog b q < (of_nat b :: rat) powi (ilog b r + 1)" by linarith
  then have "ilog b q < ilog b r + 1" by (rule powi_less_cancel [OF b])
  then show ?thesis by simp
qed

lemma ilog_less_iff:
  assumes "0 < q" "1 < b"
  shows "ilog b q < e \<longleftrightarrow> q < of_nat b powi e"
proof -
  have b: "1 < (of_nat b :: rat)" using assms(2) by simp
  note il = ilog_bounds [OF assms]
  show ?thesis
  proof
    assume "ilog b q < e"
    then have "of_nat b powi (ilog b q + 1) \<le> (of_nat b :: rat) powi e"
      by (intro powi_mono_base b) simp
    with il(2) show "q < of_nat b powi e" by linarith
  next
    assume "q < of_nat b powi e"
    with il(1) have "of_nat b powi ilog b q < (of_nat b :: rat) powi e" by linarith
    then show "ilog b q < e" by (rule powi_less_cancel [OF b])
  qed
qed

subsection \<open>Rounding\<close>

text \<open>Round to the nearest integer, ties to the even one.\<close>

definition round_half_even :: "rat \<Rightarrow> int" where
  "round_half_even q =
     (let f = \<lfloor>q\<rfloor>; r = q - of_int f
      in if r < 1/2 then f else if 1/2 < r then f + 1 else if even f then f else f + 1)"

text \<open>The unit in the last place at a magnitude, and the magnitude rounded to it.\<close>

definition dbl_ulp :: "rat \<Rightarrow> rat" where
  "dbl_ulp q = 2 powi (max (ilog 2 q) (- 1022) - 52)"

definition round_mag :: "rat \<Rightarrow> rat" where
  "round_mag q = (if q = 0 then 0 else of_int (round_half_even (q / dbl_ulp q)) * dbl_ulp q)"

definition dround :: "bool \<Rightarrow> rat \<Rightarrow> double" where
  "dround s q = (let m = round_mag q in if 2 ^ 1024 \<le> m then DInf s else DFin s m)"

text \<open>The values a double can have.\<close>

fun wf_double :: "double \<Rightarrow> bool" where
  "wf_double (DFin s m) \<longleftrightarrow> 0 \<le> m \<and> m < 2 ^ 1024 \<and> round_mag m = m"
| "wf_double _ = True"

lemma round_half_even_int [simp]: "round_half_even (of_int k) = k"
  by (simp add: round_half_even_def)

lemma round_half_even_nat [simp]: "round_half_even (of_nat k) = int k"
  using round_half_even_int [of "int k"] by simp

lemma round_half_even_numeral [simp]:
  "round_half_even (numeral w) = numeral w" "round_half_even 0 = 0" "round_half_even 1 = 1"
  using round_half_even_int [of "numeral w"] round_half_even_int [of 0] round_half_even_int [of 1]
  by simp_all

lemma round_half_even_floor: "round_half_even q = \<lfloor>q\<rfloor> \<or> round_half_even q = \<lfloor>q\<rfloor> + 1"
  by (simp add: round_half_even_def Let_def)

lemma round_half_even_error: "\<bar>of_int (round_half_even q) - q\<bar> \<le> 1/2"
proof -
  define r where "r = q - of_int \<lfloor>q\<rfloor>"
  have r: "0 \<le> r" "r < 1" and q: "q = of_int \<lfloor>q\<rfloor> + r"
    by (simp_all add: r_def) linarith
  have "round_half_even q = (if r < 1/2 then \<lfloor>q\<rfloor> else if 1/2 < r then \<lfloor>q\<rfloor> + 1
      else if even \<lfloor>q\<rfloor> then \<lfloor>q\<rfloor> else \<lfloor>q\<rfloor> + 1)"
    by (simp add: round_half_even_def r_def Let_def)
  then have "of_int (round_half_even q) - q = (if r < 1/2 then - r else if 1/2 < r then 1 - r
      else if even \<lfloor>q\<rfloor> then - r else 1 - r)"
    by (simp add: r_def)
  then show ?thesis using r by (simp add: abs_if)
qed

lemma round_half_even_mono:
  assumes "p \<le> q"
  shows "round_half_even p \<le> round_half_even q"
proof (cases "\<lfloor>p\<rfloor> = \<lfloor>q\<rfloor>")
  case True
  with assms show ?thesis by (auto simp: round_half_even_def Let_def)
next
  case False
  with assms have "\<lfloor>p\<rfloor> + 1 \<le> \<lfloor>q\<rfloor>" using floor_mono [OF assms] by linarith
  then show ?thesis using round_half_even_floor [of p] round_half_even_floor [of q] by linarith
qed

lemma round_half_even_ge_int: "of_int k \<le> q \<Longrightarrow> k \<le> round_half_even q"
  using round_half_even_mono [of "of_int k" q] by simp

lemma round_half_even_le_int: "q \<le> of_int k \<Longrightarrow> round_half_even q \<le> k"
  using round_half_even_mono [of q "of_int k"] by simp

lemma dbl_ulp_pos [simp]: "0 < dbl_ulp q"
  by (simp add: dbl_ulp_def)

lemma round_mag_0 [simp]: "round_mag 0 = 0"
  by (simp add: round_mag_def)

lemma round_mag_nonneg: "0 \<le> q \<Longrightarrow> 0 \<le> round_mag q"
  by (auto simp: round_mag_def divide_nonneg_pos
      intro!: mult_nonneg_nonneg round_half_even_ge_int order.strict_implies_order [OF dbl_ulp_pos])

lemma round_mag_error: "\<bar>round_mag q - q\<bar> \<le> dbl_ulp q / 2"
proof (cases "q = 0")
  case True
  then show ?thesis by (simp add: order.strict_implies_order)
next
  case False
  define u where "u = dbl_ulp q"
  have u: "0 < u" by (simp add: u_def)
  have "round_mag q - q = (of_int (round_half_even (q / u)) - q / u) * u"
    using False u by (simp add: round_mag_def u_def [symmetric] left_diff_distrib)
  then have "\<bar>round_mag q - q\<bar> = \<bar>of_int (round_half_even (q / u)) - q / u\<bar> * u"
    using u by (simp add: abs_mult)
  also have "\<dots> \<le> 1/2 * u"
    using u round_half_even_error [of "q / u"] by (intro mult_right_mono) auto
  finally show ?thesis by (simp add: u_def)
qed

text \<open>Magnitudes \<open>k \<sqdot> 2\<^bsup>e-52\<^esup>\<close> with at most 53 bits are doubles: rounding leaves them alone.\<close>

lemma round_mag_representable:
  assumes k: "k \<le> 2 ^ 53" and e: "- 1022 \<le> e"
  shows "round_mag (of_nat k * 2 powi (e - 52)) = of_nat k * 2 powi (e - 52)"
proof (cases "k = 0")
  case True
  then show ?thesis by simp
next
  case False
  define q :: rat where "q = of_nat k * 2 powi (e - 52)"
  have q: "0 < q" using False by (simp add: q_def)
  define E where "E = max (ilog 2 q) (- 1022)"
  obtain i :: int where i: "q = of_int i * 2 powi (E - 52)"
  proof (cases "k = 2 ^ 53")
    case True
    then have qe: "q = 2 powi (e + 1)"
      by (simp add: q_def power_int_diff power_int_add)
    then have "ilog 2 q = e + 1" by (intro ilog_unique) (simp_all add: powi_less_mono_base)
    then have "E = e + 1" using e by (simp add: E_def)
    then have "q = of_int (2 ^ 52) * 2 powi (E - 52)" by (simp add: qe power_int_diff power_int_add)
    then show ?thesis by (rule that)
  next
    case False
    with k have "k < 2 ^ 53" by simp
    then have "(of_nat k :: rat) < of_nat (2 ^ 53)" unfolding of_nat_less_iff .
    then have "q < 2 ^ 53 * 2 powi (e - 52)" by (simp add: q_def)
    also have "\<dots> = 2 powi (e + 1)" by (simp add: power_int_diff power_int_add)
    finally have "ilog 2 q < e + 1" using q ilog_less_iff [of q 2 "e + 1"] by simp
    then have E: "E \<le> e" using e by (simp add: E_def)
    have "2 powi (e - 52) = (2 :: rat) powi (int (nat (e - E)) + (E - 52))" using E by simp
    also have "\<dots> = 2 ^ nat (e - E) * 2 powi (E - 52)"
      by (subst power_int_add) (simp_all only: power_int_of_nat, simp_all)
    finally have "q = of_int (int k * 2 ^ nat (e - E)) * 2 powi (E - 52)" by (simp add: q_def)
    then show ?thesis by (rule that)
  qed
  have ulp: "dbl_ulp q = 2 powi (E - 52)" by (simp add: dbl_ulp_def E_def)
  have "q / dbl_ulp q = of_int i" unfolding ulp by (subst i) simp
  moreover have "of_int i * dbl_ulp q = q" unfolding ulp by (rule i [symmetric])
  ultimately have "round_mag q = q" using q by (simp add: round_mag_def)
  then show ?thesis by (simp add: q_def)
qed

lemma ulp_quotient_bound:
  assumes "0 < q"
  shows "q / dbl_ulp q < 2 ^ 53"
    and "- 1022 \<le> ilog 2 q \<Longrightarrow> 2 ^ 52 \<le> q / dbl_ulp q"
proof -
  define E where "E = max (ilog 2 q) (- 1022)"
  have u: "dbl_ulp q = 2 powi (E - 52)" by (simp add: dbl_ulp_def E_def)
  have "ilog 2 q < E + 1" by (simp add: E_def)
  then have "q < 2 powi (E + 1)" using assms ilog_less_iff [of q 2 "E + 1"] by simp
  also have "\<dots> = 2 ^ 53 * dbl_ulp q" by (simp add: u power_int_diff power_int_add)
  finally show "q / dbl_ulp q < 2 ^ 53" by (simp add: pos_divide_less_eq)
  assume "- 1022 \<le> ilog 2 q"
  then have E: "E = ilog 2 q" by (simp add: E_def)
  have "2 ^ 52 * dbl_ulp q = 2 powi E" by (simp add: u power_int_diff)
  also have "\<dots> \<le> q" using ilog_bounds(1) [of q 2] assms by (simp add: E)
  finally show "2 ^ 52 \<le> q / dbl_ulp q" by (simp add: pos_le_divide_eq)
qed

lemma round_mag_decompose:
  assumes "0 \<le> q"
  obtains k e where "k \<le> 2 ^ 53" "- 1022 \<le> e" "round_mag q = of_nat k * 2 powi (e - 52)"
proof (cases "q = 0")
  case True
  with that [of 0 0] show ?thesis by simp
next
  case False
  with assms have q: "0 < q" by simp
  define E where "E = max (ilog 2 q) (- 1022)"
  define k where "k = nat (round_half_even (q / dbl_ulp q))"
  have nonneg: "0 \<le> round_half_even (q / dbl_ulp q)"
    using q by (intro round_half_even_ge_int) (simp add: order.strict_implies_order)
  have "round_half_even (q / dbl_ulp q) \<le> 2 ^ 53"
    using ulp_quotient_bound(1) [OF q] by (intro round_half_even_le_int) simp
  then have "k \<le> 2 ^ 53" by (simp add: k_def)
  moreover have "- 1022 \<le> E" by (simp add: E_def)
  moreover have "round_mag q = of_nat k * 2 powi (E - 52)"
    using False nonneg by (simp add: round_mag_def k_def dbl_ulp_def E_def)
  ultimately show ?thesis by (rule that)
qed

lemma round_mag_idem [simp]: "0 \<le> q \<Longrightarrow> round_mag (round_mag q) = round_mag q"
  by (erule round_mag_decompose) (simp add: round_mag_representable)

lemma round_mag_mono:
  assumes "0 \<le> p" "p \<le> q"
  shows "round_mag p \<le> round_mag q"
proof (cases "p = 0")
  case True
  with assms show ?thesis by (simp add: round_mag_nonneg)
next
  case False
  with assms have p: "0 < p" and q: "0 < q" by simp_all
  define P Q where "P = max (ilog 2 p) (- 1022)" and "Q = max (ilog 2 q) (- 1022)"
  have up: "dbl_ulp p = 2 powi (P - 52)" and uq: "dbl_ulp q = 2 powi (Q - 52)"
    by (simp_all add: dbl_ulp_def P_def Q_def)
  have "P \<le> Q" using ilog_mono [OF p assms(2), of 2] by (simp add: P_def Q_def)
  then consider "P = Q" | "P < Q" by linarith
  then show ?thesis
  proof cases
    case 1
    then have u: "dbl_ulp p = dbl_ulp q" by (simp add: up uq)
    then have "p / dbl_ulp p \<le> q / dbl_ulp q" 
      using assms(2) by (simp add: divide_right_mono order.strict_implies_order)
    then show ?thesis
      using p q u by (simp add: round_mag_def round_half_even_mono)
  next
    case 2
    then have ilq: "- 1022 \<le> ilog 2 q" by (auto simp: P_def Q_def max_def split: if_splits)
    have "round_half_even (p / dbl_ulp p) \<le> 2 ^ 53"
      using ulp_quotient_bound(1) [OF p] by (intro round_half_even_le_int) simp
    then have "of_int (round_half_even (p / dbl_ulp p)) \<le> (of_int (2 ^ 53) :: rat)"
      unfolding of_int_le_iff .
    then have "round_mag p \<le> 2 ^ 53 * dbl_ulp p"
      using p by (simp add: round_mag_def)
    also have "\<dots> = 2 powi (P + 1)" by (simp add: up power_int_diff power_int_add)
    also have "\<dots> \<le> 2 powi Q" using 2 by (intro powi_mono_base) auto
    also have "\<dots> = 2 ^ 52 * dbl_ulp q" by (simp add: uq power_int_diff)
    also have "\<dots> \<le> of_int (round_half_even (q / dbl_ulp q)) * dbl_ulp q"
    proof -
      have "2 ^ 52 \<le> round_half_even (q / dbl_ulp q)"
        using ulp_quotient_bound(2) [OF q ilq] by (intro round_half_even_ge_int) simp
      then have "of_int (2 ^ 52) \<le> (of_int (round_half_even (q / dbl_ulp q)) :: rat)"
        unfolding of_int_le_iff .
      then show ?thesis by simp
    qed
    also have "\<dots> = round_mag q" using q by (simp add: round_mag_def)
    finally show ?thesis .
  qed
qed

lemma wf_dround: "0 \<le> q \<Longrightarrow> wf_double (dround s q)"
  by (auto simp: dround_def Let_def round_mag_nonneg)

lemma dround_wf: "wf_double (DFin s m) \<Longrightarrow> dround s m = DFin s m"
  by (simp add: dround_def)

lemma round_mag_nat: "n \<le> 2 ^ 53 \<Longrightarrow> round_mag (of_nat n) = of_nat n"
  using round_mag_representable [of n 52] by simp

lemma dround_nat:
  assumes "n \<le> 2 ^ 53"
  shows "dround s (of_nat n) = DFin s (of_nat n)"
proof -
  have "(of_nat n :: rat) \<le> of_nat (2 ^ 53)" using assms unfolding of_nat_le_iff .
  also have "\<dots> < 2 ^ 1024" by simp
  finally show ?thesis using assms by (simp add: dround_def round_mag_nat)
qed

text \<open>Whole numbers up to \<open>2 ^ 53\<close> are doubles.\<close>

lemma dround_numeral:
  "dround s 0 = DFin s 0" "dround s 1 = DFin s 1"
  "numeral n \<le> (2 ^ 53 :: nat) \<Longrightarrow> dround s (numeral n) = DFin s (numeral n)"
  using dround_nat [of 0 s] dround_nat [of 1 s] dround_nat [of "numeral n" s] by simp_all

lemma wf_double_whole: "n \<le> 2 ^ 53 \<Longrightarrow> wf_double (DFin s (of_nat n))"
  using wf_dround [of "of_nat n" s] by (simp add: dround_nat)

lemma wf_double_numeral:
  "wf_double (DFin s 0)" "wf_double (DFin s 1)"
  "numeral n \<le> (2 ^ 53 :: nat) \<Longrightarrow> wf_double (DFin s (numeral n))"
  using wf_double_whole [of 0 s] wf_double_whole [of 1 s] wf_double_whole [of "numeral n" s] by simp_all

text \<open>For evaluation, the test for overflow compares exponents.\<close>

lemma overflow_code: "(2 :: rat) ^ 1024 \<le> m \<longleftrightarrow> 0 < m \<and> 1024 \<le> ilog 2 m"
proof (cases "0 < m")
  case True
  with ilog_less_iff [of m 2 1024] show ?thesis by (auto simp: not_less [symmetric])
next
  case False
  have "(0 :: rat) < 2 ^ 1024" by simp
  with False show ?thesis by linarith
qed

lemma dround_code [code]:
  "dround s q = (let m = round_mag q in if 0 < m \<and> 1024 \<le> ilog 2 m then DInf s else DFin s m)"
  by (simp only: dround_def overflow_code)

lemma wf_double_code [code]:
  "wf_double (DFin s m) \<longleftrightarrow> 0 \<le> m \<and> \<not> (0 < m \<and> 1024 \<le> ilog 2 m) \<and> round_mag m = m"
  "wf_double (DInf s) \<longleftrightarrow> True"
  "wf_double (DNaN s) \<longleftrightarrow> True"
  by (simp_all only: wf_double.simps overflow_code [symmetric] not_le)

subsection \<open>Arithmetic\<close>

fun dneg :: "double \<Rightarrow> double" where
  "dneg (DNaN s) = DNaN (\<not> s)"
| "dneg (DInf s) = DInf (\<not> s)"
| "dneg (DFin s m) = DFin (\<not> s) m"

fun dadd :: "double \<Rightarrow> double \<Rightarrow> double" where
  "dadd (DNaN s) _ = DNaN s"
| "dadd _ (DNaN s) = DNaN s"
| "dadd (DInf s) (DInf t) = (if s = t then DInf s else DNaN True)"
| "dadd (DInf s) (DFin _ _) = DInf s"
| "dadd (DFin _ _) (DInf t) = DInf t"
| "dadd (DFin s m) (DFin t n) =
     (let v = dval (DFin s m) + dval (DFin t n)
      in if v = 0 then DFin (s \<and> t) 0 else dround (v < 0) \<bar>v\<bar>)"

definition dsub :: "double \<Rightarrow> double \<Rightarrow> double" where
  "dsub x y = dadd x (dneg y)"

fun ddiv :: "double \<Rightarrow> double \<Rightarrow> double" where
  "ddiv (DNaN s) _ = DNaN s"
| "ddiv _ (DNaN s) = DNaN s"
| "ddiv (DInf s) (DInf t) = DNaN True"
| "ddiv (DInf s) (DFin t _) = DInf (s \<noteq> t)"
| "ddiv (DFin s _) (DInf t) = DFin (s \<noteq> t) 0"
| "ddiv (DFin s m) (DFin t n) =
     (if n = 0 then (if m = 0 then DNaN True else DInf (s \<noteq> t)) else dround (s \<noteq> t) (m / n))"

text \<open>Conversion of an integer, rounding to nearest.\<close>

definition double_of_int :: "int \<Rightarrow> double" where
  "double_of_int k = dround (k < 0) (of_int \<bar>k\<bar>)"

lemma wf_dadd: "wf_double x \<Longrightarrow> wf_double y \<Longrightarrow> wf_double (dadd x y)"
  by (induction x y rule: dadd.induct) (auto simp: Let_def wf_dround)

lemma wf_dneg [simp]: "wf_double (dneg x) = wf_double x"
  by (cases x) auto

lemma wf_dsub: "wf_double x \<Longrightarrow> wf_double y \<Longrightarrow> wf_double (dsub x y)"
  by (simp add: dsub_def wf_dadd)

lemma wf_ddiv: "wf_double x \<Longrightarrow> wf_double y \<Longrightarrow> wf_double (ddiv x y)"
  by (induction x y rule: ddiv.induct) (auto simp: wf_dround)

lemma wf_double_of_int [simp]: "wf_double (double_of_int k)"
  by (simp add: double_of_int_def wf_dround)

text \<open>Adding a non-negative number never goes down, whatever the rounding does.\<close>

lemma dadd_nonneg_le:
  assumes x: "wf_double x" "isfinite x" "dzero \<le> x" and y: "dzero \<le> y" "isfinite y"
  shows "x \<le> dadd x y"
proof -
  obtain s m where xm: "x = DFin s m" using x(2) by (cases x) auto
  obtain t n where yn: "y = DFin t n" using y(2) by (cases y) auto
  define v where "v = dval x + dval y"
  have dx: "0 \<le> dval x" and dy: "0 \<le> dval y" using x(2,3) y by (simp_all add: xm yn)
  then have v: "dval x \<le> v" "0 \<le> v" by (simp_all add: v_def)
  show ?thesis
  proof (cases "v = 0")
    case True
    with dx dy x(1) show ?thesis by (simp add: xm yn v_def Let_def)
  next
    case False
    have rm: "round_mag (dval x) = dval x"
      using x(1) dx by (auto simp: xm split: if_splits)
    have "dadd x y = dround False v" using v False by (simp add: xm yn v_def Let_def)
    moreover have "dval x \<le> round_mag v" using round_mag_mono [OF dx v(1)] rm by simp
    ultimately show ?thesis
      using x(2) by (auto simp: dround_def Let_def less_eq_double_def xm)
  qed
qed

end
