(* ===== verification/Double_Text.thy ===== *)
theory Double_Text
  imports Doubles "HOL-Library.Word"
begin

section \<open>Reading and printing numbers\<close>

text \<open>
  The numeric conversions of the C++ library the sources call: \<^verbatim>\<open>std::stod\<close>, \<^verbatim>\<open>std::stoi\<close>,
  \<^verbatim>\<open>std::stoul\<close> (each may throw, so its result is a sum) and \<^verbatim>\<open>operator<<\<close> on a
  \<^verbatim>\<open>double\<close> with the default precision of six significant digits (the \<^verbatim>\<open>%g\<close> conversion).
  Reading stops at the first character that does not fit and ignores the rest. As in glibc,
  \<^verbatim>\<open>std::stod\<close> throws \<^verbatim>\<open>out_of_range\<close> on overflow and on an inexact result that is tiny.
  The main facts: what printing then reading gives (\<open>stod_show_double\<close>) and which characters
  a printed number can contain.
\<close>

datatype std_exn = Invalid_Argument | Out_Of_Range

definition c_str :: "string \<Rightarrow> string" where
  "c_str s = takeWhile (\<lambda>c. c \<noteq> CHR 0x00) s"

subsection \<open>Reading\<close>

definition scan_sign :: "string \<Rightarrow> bool \<times> string" where
  "scan_sign s = (case s of [] \<Rightarrow> (False, [])
     | c # r \<Rightarrow> if c = CHR ''-'' then (True, r) else if c = CHR ''+'' then (False, r) else (False, s))"

definition scan_mantissa :: "(char \<Rightarrow> bool) \<Rightarrow> string \<Rightarrow> string \<times> string \<times> string" where
  "scan_mantissa p s =
     (case dropWhile p s of
        c # r \<Rightarrow> if c = CHR ''.'' then (takeWhile p s, takeWhile p r, dropWhile p r)
                 else (takeWhile p s, [], c # r)
      | [] \<Rightarrow> (takeWhile p s, [], []))"

definition scan_exponent :: "char \<Rightarrow> string \<Rightarrow> int" where
  "scan_exponent e s =
     (case s of [] \<Rightarrow> 0
      | c # r \<Rightarrow> if tolower c \<noteq> e then 0
                 else let (neg, r') = scan_sign r; k = int (digits_val (takeWhile isdigit r'))
                      in if neg then - k else k)"

definition scan_decimal :: "string \<Rightarrow> rat option" where
  "scan_decimal s =
     (let (ip, fp, r) = scan_mantissa isdigit s
      in if ip = [] \<and> fp = [] then None
         else Some (of_nat (digits_val (ip @ fp)) * 10 powi (scan_exponent CHR ''e'' r - int (length fp))))"

definition isxdigit :: "char \<Rightarrow> bool" where
  "isxdigit c \<longleftrightarrow> isdigit c \<or> (let n = (of_char (tolower c) :: nat) in 97 \<le> n \<and> n \<le> 102)"

definition xdigit_val :: "char \<Rightarrow> nat" where
  "xdigit_val c = (if isdigit c then digit_val c else of_char (tolower c) - 87)"

definition scan_hex :: "string \<Rightarrow> rat option" where
  "scan_hex s =
     (let (ip, fp, r) = scan_mantissa isxdigit s
      in if ip = [] \<and> fp = [] then None
         else Some (of_nat (foldl (\<lambda>n c. 16 * n + xdigit_val c) 0 (ip @ fp)) *
                    2 powi (scan_exponent CHR ''p'' r - 4 * int (length fp))))"

definition scan_magnitude :: "string \<Rightarrow> rat option" where
  "scan_magnitude s =
     (if starts_with ''0x'' (lowerCopy s)
      then (case scan_hex (drop 2 s) of None \<Rightarrow> Some 0 | Some q \<Rightarrow> Some q)
      else scan_decimal s)"

text \<open>The result of a conversion: the rounded number, or the range error.\<close>

definition dbl_tiny :: "rat \<Rightarrow> bool" where
  "dbl_tiny q \<longleftrightarrow>
     (let u = 2 powi (ilog 2 q - 52) in of_int (round_half_even (q / u)) * u < (2 :: rat) powi (- 1022))"

definition range_checked :: "bool \<Rightarrow> rat \<Rightarrow> std_exn + double" where
  "range_checked neg q =
     (if q = 0 then Inr (DFin neg 0)
      else case dround neg q of
        DFin s m \<Rightarrow> if m \<noteq> q \<and> dbl_tiny q then Inl Out_Of_Range else Inr (DFin s m)
      | _ \<Rightarrow> Inl Out_Of_Range)"

definition stod :: "string \<Rightarrow> std_exn + double" where
  "stod str =
     (let (neg, s) = scan_sign (dropWhile isspace (c_str str)); l = lowerCopy s
      in if starts_with ''inf'' l then Inr (DInf neg)
         else if starts_with ''nan'' l then Inr (DNaN neg)
         else case scan_magnitude s of
           None \<Rightarrow> Inl Invalid_Argument
         | Some q \<Rightarrow> range_checked neg q)"

text \<open>\<^verbatim>\<open>std::stoi\<close> (32-bit \<^verbatim>\<open>int\<close>) and \<^verbatim>\<open>std::stoul\<close> (64-bit \<^verbatim>\<open>unsigned long\<close>, where a
  minus sign negates modulo \<open>2\<^sup>6\<^sup>4\<close>), base ten.\<close>

definition stoi :: "string \<Rightarrow> std_exn + int" where
  "stoi str =
     (let (neg, s) = scan_sign (dropWhile isspace (c_str str)); ds = takeWhile isdigit s;
          k = (if neg then - int (digits_val ds) else int (digits_val ds))
      in if ds = [] then Inl Invalid_Argument
         else if k < - (2 ^ 31) \<or> 2 ^ 31 \<le> k then Inl Out_Of_Range
         else Inr k)"

definition stoul :: "string \<Rightarrow> std_exn + 64 word" where
  "stoul str =
     (let (neg, s) = scan_sign (dropWhile isspace (c_str str)); ds = takeWhile isdigit s;
          k = digits_val ds
      in if ds = [] then Inl Invalid_Argument
         else if 2 ^ 64 \<le> k then Inl Out_Of_Range
         else Inr (if neg then - of_nat k else of_nat k))"

subsection \<open>Printing\<close>

text \<open>Six significant digits: the digits as a number below \<open>10\<^sup>6\<close> and the decimal exponent.\<close>

definition g6 :: "rat \<Rightarrow> int \<times> int" where
  "g6 m =
     (let e = ilog 10 m; d = round_half_even (m / 10 powi (e - 5))
      in if d = 10 ^ 6 then (10 ^ 5, e + 1) else (d, e))"

definition strip0 :: "string \<Rightarrow> string" where
  "strip0 s = rev (dropWhile (\<lambda>c. c = CHR ''0'') (rev s))"

definition fixed_str :: "string \<Rightarrow> string \<Rightarrow> string" where
  "fixed_str ip fs = ip @ (if strip0 fs = [] then [] else CHR ''.'' # strip0 fs)"

definition exponent_str :: "int \<Rightarrow> string" where
  "exponent_str x =
     CHR ''e'' # (if x < 0 then CHR ''-'' else CHR ''+'') #
     (if \<bar>x\<bar> < 10 then CHR ''0'' # show_nat (nat \<bar>x\<bar>) else show_nat (nat \<bar>x\<bar>))"

definition show_mag :: "rat \<Rightarrow> string" where
  "show_mag m =
     (let (d, x) = g6 m; ds = show_nat (nat d)
      in if x < - 4 \<or> 6 \<le> x then fixed_str (take 1 ds) (drop 1 ds) @ exponent_str x
         else if 0 \<le> x then fixed_str (take (nat (x + 1)) ds) (drop (nat (x + 1)) ds)
         else fixed_str ''0'' (replicate (nat (- x - 1)) CHR ''0'' @ ds))"

fun show_double :: "double \<Rightarrow> string" where
  "show_double (DNaN s) = (if s then ''-nan'' else ''nan'')"
| "show_double (DInf s) = (if s then ''-inf'' else ''inf'')"
| "show_double (DFin s m) = (if s then ''-'' else '''') @ (if m = 0 then ''0'' else show_mag m)"

text \<open>The number the six digits denote.\<close>

definition g6_value :: "rat \<Rightarrow> rat" where
  "g6_value m = (let (d, x) = g6 m in of_int d * 10 powi (x - 5))"

text \<open>The outcome of printing a number and reading it back.\<close>

fun reread :: "double \<Rightarrow> std_exn + double" where
  "reread (DFin s m) = (if m = 0 then Inr (DFin s 0) else range_checked s (g6_value m))"
| "reread v = Inr v"

subsection \<open>What digits denote\<close>

lemma digits_val_Nil [simp]: "digits_val [] = 0"
  by (simp add: digits_val_def)

lemma digits_val_append: "digits_val (a @ b) = digits_val a * 10 ^ length b + digits_val b"
proof (induction b rule: rev_induct)
  case Nil
  then show ?case by simp
next
  case (snoc c b)
  then show ?case
    using digits_val_snoc [of "a @ b" c] by (simp add: digits_val_snoc algebra_simps)
qed

lemma digits_val_zeros [simp]: "digits_val (replicate k CHR ''0'') = 0"
  by (induction k) (simp_all add: digits_val_append [of "[_]", simplified] digit_val_def digits_val_def)

lemma digits_val_zeros_append [simp]: "digits_val (replicate k CHR ''0'' @ s) = digits_val s"
  by (simp add: digits_val_append)

lemma digits_val_append_zeros: "digits_val (s @ replicate k CHR ''0'') = digits_val s * 10 ^ k"
  by (simp add: digits_val_append)

lemma strip0_split: obtains k where "s = strip0 s @ replicate k CHR ''0''"
proof -
  define z where "z = takeWhile (\<lambda>c. c = CHR ''0'') (rev s)"
  have "\<forall>c \<in> set z. c = CHR ''0''" by (auto simp: z_def dest: set_takeWhileD)
  then have "z = replicate (length z) CHR ''0''" by (simp add: replicate_length_same)
  moreover have "s = strip0 s @ rev z"
    unfolding strip0_def z_def rev_append [symmetric] by simp
  ultimately show ?thesis using that [of "length z"] by (metis rev_replicate)
qed

lemma length_show_nat: "10 ^ k \<le> n \<Longrightarrow> n < 10 ^ Suc k \<Longrightarrow> length (show_nat n) = Suc k"
proof (induction k arbitrary: n)
  case 0
  then show ?case by (simp add: show_nat.simps [of n])
next
  case (Suc k)
  have "10 ^ k \<le> n div 10" "n div 10 < 10 ^ Suc k"
    using Suc.prems by (simp_all add: less_eq_div_iff_mult_less_eq div_less_iff_less_mult)
  then have "length (show_nat (n div 10)) = Suc k" by (rule Suc.IH)
  moreover have "\<not> n < 10" using Suc.prems by (auto simp: not_less intro: order.trans [of 10 "10 * 10 ^ k"])
  ultimately show ?case by (simp add: show_nat.simps [of n])
qed

lemma g6_digits:
  assumes "0 < m" "g6 m = (d, x)"
  shows "10 ^ 5 \<le> d" "d < 10 ^ 6"
proof -
  define e where "e = ilog 10 m"
  define d0 where "d0 = round_half_even (m / 10 powi (e - 5))"
  note il = ilog_bounds [of m 10, OF assms(1)]
  have "10 ^ 5 * 10 powi (e - 5) \<le> m" using il(1) by (simp add: e_def power_int_diff)
  then have "10 ^ 5 \<le> m / 10 powi (e - 5)" by (simp add: pos_le_divide_eq)
  then have lo: "10 ^ 5 \<le> d0" unfolding d0_def by (intro round_half_even_ge_int) simp
  have "m \<le> 10 ^ 6 * 10 powi (e - 5)" using il(2) by (simp add: e_def power_int_diff power_int_add)
  then have "m / 10 powi (e - 5) \<le> 10 ^ 6" by (simp add: pos_divide_le_eq)
  then have hi: "d0 \<le> 10 ^ 6" unfolding d0_def by (intro round_half_even_le_int) simp
  have "(d, x) = (if d0 = 10 ^ 6 then (10 ^ 5, e + 1) else (d0, e))"
    using assms(2) by (auto simp: g6_def d0_def e_def Let_def split: if_splits)
  with lo hi show "10 ^ 5 \<le> d" "d < 10 ^ 6" by (auto split: if_splits)
qed

lemma g6_show_nat:
  assumes "0 < m" "g6 m = (d, x)"
  shows "length (show_nat (nat d)) = 6"
  using g6_digits [OF assms] by (intro length_show_nat [of 5, simplified]) auto

subsection \<open>Reading what was printed\<close>

text \<open>The characters a printed number is made of.\<close>

definition number_char :: "char \<Rightarrow> bool" where
  "number_char c \<longleftrightarrow> isdigit c \<or> c \<in> set ''.+-einfa''"

lemma digit_clean:
  assumes "isdigit c"
  shows "nonspace c" "c \<notin> set ''{}#,=''" "c \<noteq> quote" "c \<noteq> CHR 0x00" "c \<noteq> CHR ''x''" "tolower c = c"
  using assms by (auto simp: isdigit_def tolower_def Let_def)

lemma number_char_clean [char_simps]:
  assumes "number_char c"
  shows "nonspace c" "c \<notin> set ''{}#,=''" "c \<noteq> quote" "c \<noteq> CHR 0x00" "c \<noteq> CHR ''x''" "tolower c = c"
proof -
  have clean: "nonspace d \<and> d \<notin> set ''{}#,='' \<and> d \<noteq> quote \<and> d \<noteq> CHR 0x00 \<and> d \<noteq> CHR ''x'' \<and> tolower d = d"
    if "d \<in> set ''.+-einfa''" for d
    using that by (auto simp: isspace_def tolower_def)
  show "nonspace c" "c \<notin> set ''{}#,=''" "c \<noteq> quote" "c \<noteq> CHR 0x00" "c \<noteq> CHR ''x''" "tolower c = c"
    using assms digit_clean [of c] clean [of c] unfolding number_char_def by blast+
qed

lemma set_strip0: "set (strip0 s) \<subseteq> set s"
  by (auto simp: strip0_def dest: set_dropWhileD)

lemma number_char_dot: "number_char CHR ''.''"
  by (simp add: number_char_def)

lemma number_char_digit: "isdigit c \<Longrightarrow> number_char c"
  by (simp add: number_char_def)

lemma fixed_str_chars:
  "list_all number_char ip \<Longrightarrow> list_all number_char fs \<Longrightarrow> list_all number_char (fixed_str ip fs)"
  using set_strip0 [of fs] number_char_dot by (auto simp: fixed_str_def list_all_iff)

lemma show_nat_chars: "list_all number_char (show_nat n)"
  by (auto simp: list_all_iff dest: show_nat_digits intro: number_char_digit)

lemma show_mag_chars: "list_all number_char (show_mag m)"
proof -
  obtain d x where g: "g6 m = (d, x)" by fastforce
  define ds where "ds = show_nat (nat d)"
  have all: "list_all number_char ds" by (simp add: ds_def show_nat_chars)
  then have ds: "list_all number_char (take k ds)" "list_all number_char (drop k ds)" for k
    by (auto simp: list_all_iff dest: in_set_takeD in_set_dropD)
  have sgn: "number_char CHR ''e''" "number_char CHR ''+''" "number_char CHR ''-''"
    by (simp_all add: number_char_def)
  have o: "number_char CHR ''0''" by (simp add: number_char_def isdigit_def)
  have e: "list_all number_char (exponent_str x)"
    using show_nat_chars [of "nat \<bar>x\<bar>"] sgn o by (simp add: exponent_str_def)
  have z: "list_all number_char (replicate k CHR ''0'' @ ds)" for k
    using all o by (induction k) simp_all
  have l: "list_all number_char ''0''" using o by simp
  show ?thesis
    unfolding show_mag_def g Let_def prod.case ds_def [symmetric]
    using fixed_str_chars [OF ds(1) ds(2)] e fixed_str_chars [OF l z] by simp
qed

lemma show_double_chars: "list_all number_char (show_double v)"
proof (cases v)
  case (DFin s m)
  have "number_char CHR ''-''" "number_char CHR ''0''" by (simp_all add: number_char_def isdigit_def)
  with DFin show_mag_chars [of m] show ?thesis by simp
qed (simp_all add: number_char_def)

lemma show_mag_number: "c \<in> set (show_mag m) \<Longrightarrow> number_char c"
  using show_mag_chars [of m] by (simp add: list_all_iff)

lemma show_double_number [char_simps]: "c \<in> set (show_double v) \<Longrightarrow> number_char c"
  using show_double_chars [of v] by (simp add: list_all_iff)

lemma takeWhile_digits: "(\<forall>c \<in> set s. isdigit c) \<Longrightarrow> takeWhile isdigit s = s"
  by (simp add: takeWhile_eq_all_conv)

lemma scan_decimal_fixed:
  assumes ip: "ip \<noteq> []" "\<forall>c \<in> set ip. isdigit c" and fs: "\<forall>c \<in> set fs. isdigit c"
    and r: "r = [] \<or> \<not> isdigit (hd r) \<and> hd r \<noteq> CHR ''.''"
  shows "scan_decimal (fixed_str ip fs @ r) =
     Some (of_nat (digits_val (ip @ fs)) * 10 powi (scan_exponent CHR ''e'' r - int (length fs)))"
proof -
  obtain k where k: "fs = strip0 fs @ replicate k CHR ''0''" by (rule strip0_split)
  define f where "f = strip0 fs"
  have f: "\<forall>c \<in> set f. isdigit c" using fs set_strip0 [of fs] by (auto simp: f_def)
  have dot: "\<not> isdigit CHR ''.''" by (simp add: isdigit_def)
  have scan: "scan_mantissa isdigit (fixed_str ip fs @ r) = (ip, f, r)"
  proof (cases "f = []")
    case True
    then have s: "fixed_str ip fs = ip" by (simp add: fixed_str_def f_def)
    have tw: "takeWhile isdigit (ip @ r) = ip" and dw: "dropWhile isdigit (ip @ r) = r"
      using ip r by (cases r; simp add: takeWhile_append2 dropWhile_append2)+
    show ?thesis
      using r True unfolding scan_mantissa_def s tw dw by (cases r) auto
  next
    case False
    then have s: "fixed_str ip fs = ip @ CHR ''.'' # f" by (simp add: fixed_str_def f_def)
    have "takeWhile isdigit (ip @ CHR ''.'' # f @ r) = ip"
      "dropWhile isdigit (ip @ CHR ''.'' # f @ r) = CHR ''.'' # f @ r"
      using ip dot by (simp_all add: takeWhile_append2 dropWhile_append2)
    moreover have "takeWhile isdigit (f @ r) = f" "dropWhile isdigit (f @ r) = r"
      using f r by (cases r; simp add: takeWhile_append2 dropWhile_append2)+
    ultimately show ?thesis unfolding s by (simp add: scan_mantissa_def)
  qed
  have len: "int (length fs) = int (length f) + int k"
    by (subst k) (simp add: f_def)
  have dv: "digits_val (ip @ fs) = digits_val (ip @ f) * 10 ^ k"
    using digits_val_append_zeros [of "ip @ f" k] by (subst k) (simp add: f_def)
  have "(10 :: rat) ^ k * 10 powi (E - int (length fs)) = 10 powi (E - int (length f))" for E
  proof -
    have "(10 :: rat) ^ k * 10 powi (E - int (length fs)) = 10 powi (int k + (E - int (length fs)))"
      by (subst power_int_add) simp_all
    then show ?thesis by (simp add: len)
  qed
  then show ?thesis
    using ip(1) unfolding scan_decimal_def scan Let_def prod.case dv of_nat_mult of_nat_power
    by (simp add: mult.assoc)
qed

lemma scan_exponent_str [simp]: "scan_exponent CHR ''e'' (exponent_str x) = x"
proof -
  define s where "s = (if \<bar>x\<bar> < 10 then CHR ''0'' # show_nat (nat \<bar>x\<bar>) else show_nat (nat \<bar>x\<bar>))"
  have "\<forall>c \<in> set s. isdigit c"
    by (auto simp: s_def dest: show_nat_digits) (simp add: isdigit_def)
  then have tw: "takeWhile isdigit s = s" by (rule takeWhile_digits)
  have zero: "digits_val (CHR ''0'' # t) = digits_val t" for t
    using digits_val_zeros_append [of 1 t] by simp
  have "digits_val s = nat \<bar>x\<bar>" by (simp add: s_def zero)
  then show ?thesis
    unfolding exponent_str_def s_def [symmetric]
    by (simp add: scan_exponent_def scan_sign_def tolower_def tw)
qed

lemma exponent_str_hd: "\<not> isdigit (hd (exponent_str x)) \<and> hd (exponent_str x) \<noteq> CHR ''.''"
  by (simp add: exponent_str_def isdigit_def)

lemma scan_decimal_show_mag:
  assumes m: "0 < m"
  shows "scan_decimal (show_mag m) = Some (g6_value m)"
proof -
  obtain d x where g: "g6 m = (d, x)" by fastforce
  define ds where "ds = show_nat (nat d)"
  have dpos: "0 \<le> d" using g6_digits(1) [OF m g] by simp
  have len: "length ds = 6" using g6_show_nat [OF m g] by (simp add: ds_def)
  have dig: "\<forall>c \<in> set ds. isdigit c" by (auto simp: ds_def dest: show_nat_digits)
  have dv: "(of_nat (digits_val ds) :: rat) = of_int d" using dpos by (simp add: ds_def)
  have val: "g6_value m = of_nat (digits_val ds) * 10 powi (x - 5)" by (simp add: g6_value_def g dv)
  have tk: "\<forall>c \<in> set (take k ds). isdigit c" "\<forall>c \<in> set (drop k ds). isdigit c" for k
    using dig by (auto dest: in_set_takeD in_set_dropD)
  have zdig: "isdigit CHR ''0''" by (simp add: isdigit_def)
  consider "x < - 4 \<or> 6 \<le> x" | "0 \<le> x" "x < 6" | "x < 0" "- 4 \<le> x" by linarith
  then show ?thesis
  proof cases
    case 1
    then have s: "show_mag m = fixed_str (take 1 ds) (drop 1 ds) @ exponent_str x"
      by (simp add: show_mag_def g ds_def Let_def)
    have "take 1 ds \<noteq> []" using len by auto
    from scan_decimal_fixed [OF this tk(1) tk(2), of "exponent_str x"] show ?thesis
      using exponent_str_hd by (simp add: s val len)
  next
    case 2
    then have s: "show_mag m = fixed_str (take (nat (x + 1)) ds) (drop (nat (x + 1)) ds)"
      by (simp add: show_mag_def g ds_def Let_def)
    have "take (nat (x + 1)) ds \<noteq> []" using len 2 by auto
    from scan_decimal_fixed [OF this tk(1) tk(2), of "[]"] show ?thesis
      using 2 by (simp add: s val len scan_exponent_def of_nat_diff)
  next
    case 3
    define z where "z = replicate (nat (- x - 1)) CHR ''0''"
    have s: "show_mag m = fixed_str ''0'' (z @ ds)"
      using 3 by (simp add: show_mag_def g ds_def z_def Let_def)
    have zz: "\<forall>c \<in> set (z @ ds). isdigit c" using dig zdig by (auto simp: z_def)
    have "digits_val (''0'' @ z @ ds) = digits_val ds"
      using digits_val_zeros_append [of "Suc (nat (- x - 1))" ds] by (simp add: z_def)
    with scan_decimal_fixed [of "''0''", OF _ _ zz, of "[]"] show ?thesis
      using 3 zdig by (simp add: s val len scan_exponent_def z_def)
  qed
qed

lemma show_mag_hd:
  assumes m: "0 < m"
  obtains c r where "show_mag m = c # r" "isdigit c"
proof -
  obtain d x where g: "g6 m = (d, x)" by fastforce
  define ds where "ds = show_nat (nat d)"
  have len: "length ds = 6" using g6_show_nat [OF m g] by (simp add: ds_def)
  then obtain c t where ct: "ds = c # t" by (cases ds) auto
  then have c: "isdigit c" using show_nat_digits [of c "nat d"] by (simp add: ds_def [symmetric])
  have "\<exists>r. show_mag m = c # r \<or> show_mag m = CHR ''0'' # r"
    unfolding show_mag_def g Let_def prod.case ds_def [symmetric]
    by (auto simp: ct fixed_str_def take_Cons')
  moreover have "isdigit CHR ''0''" by (simp add: isdigit_def)
  ultimately show ?thesis using that c by blast
qed

lemma c_str_number: "list_all number_char s \<Longrightarrow> c_str s = s"
  by (auto simp: c_str_def takeWhile_eq_all_conv list_all_iff dest: number_char_clean(4))

lemma lowerCopy_number: "list_all number_char s \<Longrightarrow> lowerCopy s = s"
  by (auto simp: lowerCopy_def list_all_iff intro!: map_idI number_char_clean(6))

text \<open>A text that starts with a digit and has number characters only is read as a decimal number.\<close>

lemma stod_number:
  assumes s: "s = c # r" "isdigit c" "list_all number_char s" and q: "scan_decimal s = Some q"
  shows "stod ((if neg then ''-'' else '''') @ s) = range_checked neg q"
proof -
  have minus: "number_char CHR ''-''" "nonspace CHR ''-''" by (simp_all add: number_char_def isspace_def)
  have c: "c \<noteq> CHR ''-''" "c \<noteq> CHR ''+''" "c \<noteq> CHR ''i''" "c \<noteq> CHR ''n''"
    using s(2) by (auto simp: isdigit_def)
  have cs: "c_str ((if neg then ''-'' else '''') @ s) = (if neg then ''-'' else '''') @ s"
    using s(3) minus by (simp add: c_str_number)
  have sign: "scan_sign (dropWhile isspace ((if neg then ''-'' else '''') @ s)) = (neg, s)"
    using s(1,2) c minus by (simp add: scan_sign_def)
  have x: "CHR ''x'' \<notin> set s"
    using s(3) by (auto simp: list_all_iff dest: number_char_clean(5))
  then have "\<not> starts_with ''0x'' s" by (auto simp: starts_with_iff)
  then have "scan_magnitude s = Some q"
    using q by (simp add: scan_magnitude_def lowerCopy_number [OF s(3)])
  moreover have "\<not> starts_with ''inf'' s" "\<not> starts_with ''nan'' s" using s(1) c by auto
  ultimately show ?thesis
    unfolding stod_def cs sign by (simp add: lowerCopy_number [OF s(3)])
qed

text \<open>Printing and reading back gives the six-digit approximation, rounded to a double.\<close>

lemma stod_show_double:
  assumes "wf_double v"
  shows "stod (show_double v) = reread v"
proof (cases v)
  case (DFin s m)
  show ?thesis
  proof (cases "m = 0")
    case True
    have "scan_decimal ''0'' = Some 0"
      by (simp add: scan_decimal_def scan_mantissa_def isdigit_def scan_exponent_def digits_val_def digit_val_def)
    then have "stod ((if s then ''-'' else '''') @ ''0'') = range_checked s 0"
      using stod_number [of "''0''" "CHR ''0''" "[]" 0 s] by (simp add: isdigit_def number_char_def)
    then show ?thesis using DFin True by (simp add: range_checked_def)
  next
    case False
    with assms DFin have m: "0 < m" by simp
    then obtain c r where "show_mag m = c # r" "isdigit c" by (rule show_mag_hd)
    then have "stod ((if s then ''-'' else '''') @ show_mag m) = range_checked s (g6_value m)"
      by (rule stod_number [OF _ _ show_mag_chars scan_decimal_show_mag [OF m]])
    with DFin False show ?thesis by simp
  qed
qed (auto simp: stod_def c_str_def scan_sign_def isspace_def lowerCopy_def tolower_def)

lemma not_tiny: "1 \<le> q \<Longrightarrow> \<not> dbl_tiny q"
proof -
  assume q: "1 \<le> q"
  define u where "u = (2 :: rat) powi (ilog 2 q - 52)"
  have u: "0 < u" by (simp add: u_def)
  have e: "0 \<le> ilog 2 q" using ilog_mono [of 1 q 2] ilog_unique [of 2 0 1] q by simp
  have "2 ^ 52 * u \<le> q" using ilog_bounds(1) [of q 2] q by (simp add: u_def power_int_diff)
  then have "2 ^ 52 \<le> q / u" using u by (simp add: pos_le_divide_eq)
  then have "2 ^ 52 \<le> round_half_even (q / u)" by (intro round_half_even_ge_int) simp
  then have "of_int (2 ^ 52) \<le> (of_int (round_half_even (q / u)) :: rat)" unfolding of_int_le_iff .
  then have "2 ^ 52 * u \<le> of_int (round_half_even (q / u)) * u" using u by simp
  moreover have "2 ^ 52 * u = 2 powi (ilog 2 q)" by (simp add: u_def power_int_diff)
  moreover have "(2 :: rat) powi (- 1022) \<le> 2 powi (ilog 2 q)" using e by (intro powi_mono_base) auto
  ultimately show "\<not> dbl_tiny q" by (simp add: dbl_tiny_def u_def [symmetric] Let_def)
qed

lemma round_mag_pow64: "n \<le> 2 ^ 64 \<Longrightarrow> round_mag (of_nat n) \<le> 2 ^ 64"
proof -
  assume "n \<le> 2 ^ 64"
  then have "(of_nat n :: rat) \<le> of_nat (2 ^ 64)" unfolding of_nat_le_iff .
  then show ?thesis
    using round_mag_mono [of "of_nat n" "2 ^ 64"] round_mag_representable [of "2 ^ 53" 63] by simp
qed

lemma dround_nat64:
  assumes "n \<le> 2 ^ 64"
  shows "dround s (of_nat n) = DFin s (round_mag (of_nat n))"
proof -
  have "round_mag (of_nat n) \<le> 2 ^ 64" using assms by (rule round_mag_pow64)
  also have "\<dots> < (2 :: rat) ^ 1024" by (rule power_strict_increasing) simp_all
  finally show ?thesis by (simp only: dround_def Let_def not_le [symmetric] if_False simp_thms)
qed

lemma range_checked_nat:
  assumes "n \<le> 2 ^ 64"
  shows "range_checked False (of_nat n) = Inr (double_of_int (int n))"
proof (cases "n = 0")
  case True
  then show ?thesis by (simp add: range_checked_def double_of_int_def dround_def)
next
  case False
  then have "\<not> dbl_tiny (of_nat n)" by (intro not_tiny) simp
  with False dround_nat64 [OF assms] show ?thesis
    by (simp add: range_checked_def double_of_int_def)
qed

text \<open>An unsigned number reads back as its conversion to double.\<close>

lemma stod_show_nat:
  assumes "n \<le> 2 ^ 64"
  shows "stod (show_nat n) = Inr (double_of_int (int n))"
proof -
  obtain c r where cr: "show_nat n = c # r" using show_nat_not_Nil by (meson list.exhaust)
  then have c: "isdigit c" using show_nat_digits [of c n] by simp
  have "scan_decimal (fixed_str (show_nat n) [] @ []) = Some (of_nat n)"
    by (subst scan_decimal_fixed) (auto dest: show_nat_digits simp: scan_exponent_def)
  then have "scan_decimal (show_nat n) = Some (of_nat n)" by (simp add: fixed_str_def strip0_def)
  with stod_number [OF cr c show_nat_chars, of "of_nat n" False] show ?thesis
    using range_checked_nat [OF assms] by simp
qed

subsection \<open>What is read is a double\<close>

lemma range_checked_wf:
  assumes "range_checked neg q = Inr v" "0 \<le> q"
  shows "wf_double v"
proof (cases "q = 0")
  case True
  then show ?thesis using assms(1) by (auto simp: range_checked_def)
next
  case False
  then have "v = dround neg q" using assms(1) by (simp add: range_checked_def split: if_splits double.splits)
  then show ?thesis using wf_dround [OF assms(2)] by simp
qed

lemma scan_decimal_nonneg: "scan_decimal s = Some q \<Longrightarrow> 0 \<le> q"
  by (auto simp: scan_decimal_def Let_def split: prod.splits if_splits)

lemma scan_hex_nonneg: "scan_hex s = Some q \<Longrightarrow> 0 \<le> q"
  by (auto simp: scan_hex_def Let_def split: prod.splits if_splits)

lemma stod_wf: "stod s = Inr v \<Longrightarrow> wf_double v"
proof -
  have "0 \<le> q" if "scan_magnitude t = Some q" for t q
    using that scan_decimal_nonneg scan_hex_nonneg
    by (auto simp: scan_magnitude_def split: if_splits option.splits)
  then show "stod s = Inr v \<Longrightarrow> wf_double v"
    by (auto simp: stod_def Let_def split: prod.splits if_splits option.splits dest: range_checked_wf)
qed

end
