(* ===== verification/Metric.thy ===== *)
theory Metric
  imports Double_Text
begin

section \<open>Metrics (metric.hpp, metric.cpp)\<close>

text \<open>
  The metric types, the specification a metric is made from, the three classes behind the
  abstract class \<^verbatim>\<open>Metric\<close> and its factory \<^verbatim>\<open>makeMetric\<close>, and the rate helper
  \<^verbatim>\<open>CounterRate\<close>. An object is a record of its fields; a member function that changes the
  object returns the new one; the mutexes make each call atomic and are not represented. The
  contract of the abstract class is the locale \<open>metric_interface\<close>, interpreted on each class
  and on the dynamic dispatch over them.
\<close>

datatype MetricType = Counter | Gauge | Histogram | Unknown

record MetricSpec =
  spec_name :: string
  spec_type :: string
  spec_help :: string
  spec_value :: double
  spec_labels :: string
  spec_buckets :: "double list"

definition empty_spec :: MetricSpec where
  "empty_spec = \<lparr>spec_name = [], spec_type = [], spec_help = [], spec_value = dzero,
     spec_labels = [], spec_buckets = []\<rparr>"

definition MetricSpec_make :: "string \<Rightarrow> string \<Rightarrow> string \<Rightarrow> double \<Rightarrow> string \<Rightarrow> double list \<Rightarrow> MetricSpec" where
  "MetricSpec_make name_in type_in help_in value_in labels_in buckets_in =
     \<lparr>spec_name = name_in, spec_type = type_in, spec_help = help_in, spec_value = value_in,
      spec_labels = labels_in, spec_buckets = buckets_in\<rparr>"

definition parseMetricType :: "string \<Rightarrow> MetricType" where
  "parseMetricType name =
     (let lower = lowerCopy name
      in if lower = ''counter'' then Counter
         else if lower = ''gauge'' then Gauge
         else if lower = ''histogram'' then Histogram
         else Unknown)"

fun toString :: "MetricType \<Rightarrow> string" where
  "toString Counter = ''counter''"
| "toString Gauge = ''gauge''"
| "toString Histogram = ''histogram''"
| "toString Unknown = ''unknown''"

subsection \<open>Counters and gauges\<close>

record CounterMetric =
  c_name :: string
  c_help :: string
  c_labels :: string
  c_value :: double

definition CounterMetric_new :: "MetricSpec \<Rightarrow> CounterMetric" where
  "CounterMetric_new spec =
     \<lparr>c_name = spec_name spec, c_help = spec_help spec, c_labels = spec_labels spec,
      c_value = (if spec_value spec < dzero then dzero else spec_value spec)\<rparr>"

definition Counter_setValue :: "CounterMetric \<Rightarrow> double \<Rightarrow> bool \<times> CounterMetric" where
  "Counter_setValue m value =
     (if value < dzero \<or> \<not> isfinite value then (False, m)
      else if value < c_value m then (False, m)
      else (True, m\<lparr>c_value := value\<rparr>))"

record GaugeMetric =
  g_name :: string
  g_help :: string
  g_labels :: string
  g_value :: double

definition GaugeMetric_new :: "MetricSpec \<Rightarrow> GaugeMetric" where
  "GaugeMetric_new spec =
     \<lparr>g_name = spec_name spec, g_help = spec_help spec, g_labels = spec_labels spec,
      g_value = spec_value spec\<rparr>"

definition Gauge_setValue :: "GaugeMetric \<Rightarrow> double \<Rightarrow> bool \<times> GaugeMetric" where
  "Gauge_setValue m value =
     (if \<not> isfinite value then (False, m) else (True, m\<lparr>g_value := value\<rparr>))"

subsection \<open>Histograms\<close>

text \<open>
  \<^verbatim>\<open>std::sort\<close> with \<^verbatim>\<open><\<close> is modelled by insertion, which fixes an order among equal
  elements (only the two zeros can be equal and different); \<^verbatim>\<open>std::unique\<close> keeps the first of
  each run of equal elements. With a NaN among the bounds \<^verbatim>\<open>std::sort\<close> has no defined
  behaviour, so the lemmas about bounds assume there is none.
\<close>

fun insert_sorted :: "double \<Rightarrow> double list \<Rightarrow> double list" where
  "insert_sorted x [] = [x]"
| "insert_sorted x (y # ys) = (if x < y then x # y # ys else y # insert_sorted x ys)"

definition std_sort :: "double list \<Rightarrow> double list" where
  "std_sort xs = fold insert_sorted xs []"

fun std_unique :: "double list \<Rightarrow> double list" where
  "std_unique (x # y # ys) = (if deq x y then std_unique (x # ys) else x # std_unique (y # ys))"
| "std_unique xs = xs"

record HistogramMetric =
  h_name :: string
  h_help :: string
  h_labels :: string
  h_bounds :: "double list"
  h_counts :: "64 word list"
  h_sum :: double
  h_count :: "64 word"

definition defaultHistogramBounds :: "double list" where
  "defaultHistogramBounds = map (dround False)
     [5/1000, 1/100, 25/1000, 5/100, 1/10, 25/100, 5/10, 1, 25/10, 5, 10]"

definition HistogramMetric_new :: "MetricSpec \<Rightarrow> double list \<Rightarrow> HistogramMetric" where
  "HistogramMetric_new spec upper_bounds =
     (let bounds = std_unique (std_sort upper_bounds)
      in \<lparr>h_name = spec_name spec, h_help = spec_help spec, h_labels = spec_labels spec,
          h_bounds = bounds, h_counts = replicate (length bounds) 0, h_sum = dzero, h_count = 0\<rparr>)"

definition observe :: "HistogramMetric \<Rightarrow> double \<Rightarrow> HistogramMetric" where
  "observe h sample =
     (if \<not> isfinite sample then h
      else h\<lparr>h_counts := map2 (\<lambda>b n. if sample \<le> b then n + 1 else n) (h_bounds h) (h_counts h),
             h_sum := dadd (h_sum h) sample,
             h_count := h_count h + 1\<rparr>)"

definition Histogram_setValue :: "HistogramMetric \<Rightarrow> double \<Rightarrow> bool \<times> HistogramMetric" where
  "Histogram_setValue h value =
     (if \<not> isfinite value then (False, h) else (True, observe h value))"

definition Histogram_value :: "HistogramMetric \<Rightarrow> double" where
  "Histogram_value h = double_of_int (uint (h_count h))"

definition Histogram_sum :: "HistogramMetric \<Rightarrow> double" where
  "Histogram_sum h = h_sum h"

definition Histogram_count :: "HistogramMetric \<Rightarrow> 64 word" where
  "Histogram_count h = h_count h"

definition bucketCounts :: "HistogramMetric \<Rightarrow> 64 word list" where
  "bucketCounts h = h_counts h"

lemmas histogram_accessors = Histogram_sum_def Histogram_count_def bucketCounts_def

definition joinBaseLabels :: "string \<Rightarrow> string \<Rightarrow> string" where
  "joinBaseLabels labels extra =
     (if labels = [] then extra else if extra = [] then labels else labels @ '','' @ extra)"

definition show_u64 :: "64 word \<Rightarrow> string" where
  "show_u64 w = show_nat (unat w)"

definition le_label :: "string \<Rightarrow> string" where
  "le_label bound = ''le='' @ [quote] @ bound @ [quote]"

definition braced :: "string \<Rightarrow> string" where
  "braced labels = (if labels = [] then [] else ''{'' @ labels @ ''}'')"

definition Histogram_lines :: "HistogramMetric \<Rightarrow> bool \<Rightarrow> string list" where
  "Histogram_lines h include_metadata =
     (if include_metadata
      then (if h_help h \<noteq> [] then [''# HELP '' @ h_name h @ '' '' @ h_help h] else []) @
           [''# TYPE '' @ h_name h @ '' histogram'']
      else []) @
     map2 (\<lambda>b n. h_name h @ ''_bucket{'' @ joinBaseLabels (h_labels h) (le_label (show_double b)) @ ''} '' @ show_u64 n)
       (h_bounds h) (h_counts h) @
     [h_name h @ ''_bucket{'' @ joinBaseLabels (h_labels h) (le_label ''+Inf'') @ ''} '' @ show_u64 (h_count h),
      h_name h @ ''_sum'' @ braced (h_labels h) @ '' '' @ show_double (h_sum h),
      h_name h @ ''_count'' @ braced (h_labels h) @ '' '' @ show_u64 (h_count h)]"

text \<open>Every line of the exposition ends with a newline.\<close>

definition unlines :: "string list \<Rightarrow> string" where
  "unlines ls = concat (map (\<lambda>l. l @ [newline]) ls)"

definition writeExposition :: "HistogramMetric \<Rightarrow> bool \<Rightarrow> string" where
  "writeExposition h include_metadata = unlines (Histogram_lines h include_metadata)"

subsection \<open>The abstract class and its factory\<close>

datatype Metric =
    CounterObj CounterMetric
  | GaugeObj GaugeMetric
  | HistogramObj HistogramMetric

fun metric_name :: "Metric \<Rightarrow> string" where
  "metric_name (CounterObj m) = c_name m"
| "metric_name (GaugeObj m) = g_name m"
| "metric_name (HistogramObj m) = h_name m"

fun metric_type :: "Metric \<Rightarrow> MetricType" where
  "metric_type (CounterObj m) = Counter"
| "metric_type (GaugeObj m) = Gauge"
| "metric_type (HistogramObj m) = Histogram"

fun metric_value :: "Metric \<Rightarrow> double" where
  "metric_value (CounterObj m) = c_value m"
| "metric_value (GaugeObj m) = g_value m"
| "metric_value (HistogramObj m) = Histogram_value m"

fun metric_help :: "Metric \<Rightarrow> string" where
  "metric_help (CounterObj m) = c_help m"
| "metric_help (GaugeObj m) = g_help m"
| "metric_help (HistogramObj m) = h_help m"

fun metric_labels :: "Metric \<Rightarrow> string" where
  "metric_labels (CounterObj m) = c_labels m"
| "metric_labels (GaugeObj m) = g_labels m"
| "metric_labels (HistogramObj m) = h_labels m"

fun metric_setValue :: "Metric \<Rightarrow> double \<Rightarrow> bool \<times> Metric" where
  "metric_setValue (CounterObj m) value = apsnd CounterObj (Counter_setValue m value)"
| "metric_setValue (GaugeObj m) value = apsnd GaugeObj (Gauge_setValue m value)"
| "metric_setValue (HistogramObj m) value = apsnd HistogramObj (Histogram_setValue m value)"

definition makeMetric :: "MetricSpec \<Rightarrow> Metric option" where
  "makeMetric spec =
     (case parseMetricType (spec_type spec) of
        Counter \<Rightarrow> Some (CounterObj (CounterMetric_new spec))
      | Gauge \<Rightarrow> Some (GaugeObj (GaugeMetric_new spec))
      | Histogram \<Rightarrow>
          (let bounds = (if spec_buckets spec = [] then defaultHistogramBounds else spec_buckets spec)
           in Some (HistogramObj (HistogramMetric_new spec bounds)))
      | Unknown \<Rightarrow> None)"

subsection \<open>Rates\<close>

text \<open>
  A \<^verbatim>\<open>steady_clock\<close> time point is a 64-bit count of nanoseconds; a difference is read as a
  signed number.
\<close>

type_synonym time_point = "64 word"

definition elapsed_ns :: "time_point \<Rightarrow> time_point \<Rightarrow> int" where
  "elapsed_ns now prev = sint (now - prev)"

record CounterRate =
  have_prev :: bool
  prev_value :: double
  prev_time :: time_point
  last_rate :: "double option"

definition CounterRate_new :: CounterRate where
  "CounterRate_new = \<lparr>have_prev = False, prev_value = dzero, prev_time = 0, last_rate = None\<rparr>"

definition elapsed_seconds :: "time_point \<Rightarrow> time_point \<Rightarrow> double" where
  "elapsed_seconds now prev = ddiv (double_of_int (elapsed_ns now prev)) (DFin False 1000000000)"

definition Rate_observe :: "CounterRate \<Rightarrow> double \<Rightarrow> time_point \<Rightarrow> double option \<times> CounterRate" where
  "Rate_observe r counter_value now =
     (if \<not> isfinite counter_value then (None, r)
      else if \<not> have_prev r then
        (None, r\<lparr>prev_value := counter_value, prev_time := now, have_prev := True, last_rate := None\<rparr>)
      else if counter_value < prev_value r then
        (None, r\<lparr>prev_value := counter_value, prev_time := now, last_rate := None\<rparr>)
      else
        let elapsed = elapsed_seconds now (prev_time r)
        in if elapsed \<le> dzero then (last_rate r, r)
           else let rate = Some (ddiv (dsub counter_value (prev_value r)) elapsed)
                in (rate, r\<lparr>last_rate := rate, prev_value := counter_value, prev_time := now\<rparr>))"

definition Rate_rate :: "CounterRate \<Rightarrow> double option" where
  "Rate_rate r = last_rate r"

definition Rate_reset :: "CounterRate \<Rightarrow> CounterRate" where
  "Rate_reset r = r\<lparr>have_prev := False, prev_value := dzero, last_rate := None\<rparr>"

subsection \<open>The contract of the abstract class\<close>

text \<open>
  What every user of a \<^verbatim>\<open>Metric\<close> relies on: \<^verbatim>\<open>setValue\<close> refuses a value that is not finite,
  a refused call changes nothing, and no call changes the identity of the object (name, type,
  help and labels).
\<close>

locale metric_interface =
  fixes ident :: "'m \<Rightarrow> 'k"
    and set_value :: "'m \<Rightarrow> double \<Rightarrow> bool \<times> 'm"
  assumes rejects_nonfinite: "\<not> isfinite v \<Longrightarrow> \<not> fst (set_value m v)"
    and failure_unchanged: "\<not> fst (set_value m v) \<Longrightarrow> snd (set_value m v) = m"
    and keeps_ident: "ident (snd (set_value m v)) = ident m"
begin

lemma run_keeps_ident: "ident (fold (\<lambda>v m. snd (set_value m v)) vs m) = ident m"
  by (induction vs arbitrary: m) (simp_all add: keeps_ident)

lemma run_nonfinite: "list_all (\<lambda>v. \<not> isfinite v) vs \<Longrightarrow> fold (\<lambda>v m. snd (set_value m v)) vs m = m"
  by (induction vs) (simp_all add: rejects_nonfinite failure_unchanged)

lemma changed_value_finite: "snd (set_value m v) \<noteq> m \<Longrightarrow> isfinite v \<and> fst (set_value m v)"
  using rejects_nonfinite failure_unchanged by blast

end

definition metric_ident :: "Metric \<Rightarrow> string \<times> MetricType \<times> string \<times> string" where
  "metric_ident m = (metric_name m, metric_type m, metric_help m, metric_labels m)"

lemma observe_frame [simp]:
  "h_name (observe h s) = h_name h" "h_help (observe h s) = h_help h"
  "h_labels (observe h s) = h_labels h" "h_bounds (observe h s) = h_bounds h"
  by (simp_all add: observe_def)

interpretation counter: metric_interface "\<lambda>m. (c_name m, c_help m, c_labels m)" Counter_setValue
  by unfold_locales (auto simp: Counter_setValue_def)

interpretation gauge: metric_interface "\<lambda>m. (g_name m, g_help m, g_labels m)" Gauge_setValue
  by unfold_locales (auto simp: Gauge_setValue_def)

interpretation histogram: metric_interface
  "\<lambda>h. (h_name h, h_help h, h_labels h, h_bounds h)" Histogram_setValue
  by unfold_locales (auto simp: Histogram_setValue_def)

interpretation metric: metric_interface metric_ident metric_setValue
proof unfold_locales
  show "\<not> fst (metric_setValue m v)" if "\<not> isfinite v" for v m
    using that counter.rejects_nonfinite gauge.rejects_nonfinite histogram.rejects_nonfinite
    by (cases m) auto
  show "snd (metric_setValue m v) = m" if "\<not> fst (metric_setValue m v)" for m v
    using that counter.failure_unchanged gauge.failure_unchanged histogram.failure_unchanged
    by (cases m) auto
  show "metric_ident (snd (metric_setValue m v)) = metric_ident m" for m v
    using counter.keeps_ident gauge.keeps_ident histogram.keeps_ident
    by (cases m) (auto simp: metric_ident_def)
qed

lemma metric_setValue_frame [simp]:
  "metric_name (snd (metric_setValue m v)) = metric_name m"
  "metric_type (snd (metric_setValue m v)) = metric_type m"
  "metric_help (snd (metric_setValue m v)) = metric_help m"
  "metric_labels (snd (metric_setValue m v)) = metric_labels m"
  using metric.keeps_ident [of m v] by (simp_all add: metric_ident_def)

subsection \<open>Counters never go down\<close>

lemma Counter_setValue_iff:
  "Counter_setValue m v = (True, m') \<longleftrightarrow>
     isfinite v \<and> \<not> v < dzero \<and> \<not> v < c_value m \<and> m' = m\<lparr>c_value := v\<rparr>"
  by (auto simp: Counter_setValue_def)

lemma Counter_setValue_mono:
  assumes "\<not> isnan (c_value m)"
  shows "c_value m \<le> c_value (snd (Counter_setValue m v))"
  using assms by (auto simp: Counter_setValue_def double_not_less)

lemma Counter_run_mono:
  assumes "\<not> isnan (c_value m)"
  shows "c_value m \<le> c_value (fold (\<lambda>v m. snd (Counter_setValue m v)) vs m)
    \<and> \<not> isnan (c_value (fold (\<lambda>v m. snd (Counter_setValue m v)) vs m))"
  using assms
proof (induction vs arbitrary: m)
  case Nil
  then show ?case by simp
next
  case (Cons v vs)
  have "\<not> isnan (c_value (snd (Counter_setValue m v)))"
    using Cons.prems by (auto simp: Counter_setValue_def)
  from Cons.IH [OF this] Counter_setValue_mono [OF Cons.prems, of v] show ?case
    by (auto intro: double_le_trans)
qed

subsection \<open>Sorted bounds\<close>

lemma set_insert_sorted [simp]: "set (insert_sorted x ys) = insert x (set ys)"
  by (induction ys) auto

lemma sorted_insert_sorted:
  assumes "\<not> isnan x" "\<forall>y \<in> set ys. \<not> isnan y" "sorted_wrt (\<le>) ys"
  shows "sorted_wrt (\<le>) (insert_sorted x ys)"
  using assms
proof (induction ys)
  case Nil
  then show ?case by simp
next
  case (Cons y ys)
  show ?case
  proof (cases "x < y")
    case True
    with Cons.prems show ?thesis by (fastforce intro: double_less_imp_le double_le_trans)
  next
    case False
    with Cons.prems have "y \<le> x" by (simp add: double_not_less)
    with False Cons show ?thesis by auto
  qed
qed

lemma set_std_sort [simp]: "set (std_sort xs) = set xs"
proof -
  have "set (fold insert_sorted xs acc) = set xs \<union> set acc" for acc
    by (induction xs arbitrary: acc) auto
  then show ?thesis by (simp add: std_sort_def)
qed

lemma sorted_std_sort:
  assumes "\<forall>x \<in> set xs. \<not> isnan x"
  shows "sorted_wrt (\<le>) (std_sort xs)"
proof -
  have "sorted_wrt (\<le>) (fold insert_sorted xs acc)"
    if "\<forall>x \<in> set xs. \<not> isnan x" "\<forall>x \<in> set acc. \<not> isnan x" "sorted_wrt (\<le>) acc" for acc
    using that by (induction xs arbitrary: acc) (auto simp: sorted_insert_sorted)
  from this [of "[]"] assms show ?thesis by (simp add: std_sort_def)
qed

lemma set_std_unique: "set (std_unique xs) \<subseteq> set xs"
  by (induction xs rule: std_unique.induct) auto

lemma std_unique_covers:
  "sorted_wrt (\<le>) xs \<Longrightarrow> \<forall>x \<in> set xs. \<not> isnan x \<Longrightarrow> x \<in> set xs \<Longrightarrow> \<exists>y \<in> set (std_unique xs). deq x y"
proof (induction xs arbitrary: x rule: std_unique.induct)
  case (1 a b xs)
  show ?case
  proof (cases "deq a b")
    case True
    have sub: "sorted_wrt (\<le>) (a # xs)" "\<forall>x \<in> set (a # xs). \<not> isnan x" using "1.prems" by auto
    have "\<exists>y \<in> set (std_unique (a # xs)). deq (if x = b then a else x) y"
      using "1.prems"(3) by (intro "1.IH"(1) [OF True sub]) auto
    then obtain y where y: "y \<in> set (std_unique (a # xs))" "deq (if x = b then a else x) y" by blast
    moreover have "deq x y" using y(2) True by (auto simp: deq_def intro: double_le_trans split: if_splits)
    ultimately show ?thesis using True by auto
  next
    case False
    have sub: "sorted_wrt (\<le>) (b # xs)" "\<forall>x \<in> set (b # xs). \<not> isnan x" using "1.prems" by auto
    show ?thesis
    proof (cases "x = a")
      case True
      then show ?thesis using False "1.prems"(2) by (auto simp: deq_def)
    next
      case ne: False
      then show ?thesis using False "1.IH"(2) [OF False sub, of x] "1.prems"(3) by auto
    qed
  qed
qed (auto simp: deq_def)

lemma strict_std_unique:
  "sorted_wrt (\<le>) xs \<Longrightarrow> \<forall>x \<in> set xs. \<not> isnan x \<Longrightarrow> sorted_wrt (<) (std_unique xs)"
proof (induction xs rule: std_unique.induct)
  case (1 a b xs)
  show ?case
  proof (cases "deq a b")
    case True
    with 1 show ?thesis by simp
  next
    case False
    with "1.prems" have ab: "a < b" by (auto simp: deq_def double_less_iff_le)
    have "a < y" if "y \<in> set (std_unique (b # xs))" for y
    proof -
      from that have "y \<in> set (b # xs)" using set_std_unique by blast
      with "1.prems"(1) have "y = b \<or> b \<le> y" by auto
      then show ?thesis
      proof
        assume "b \<le> y"
        with ab show ?thesis by (metis double_le_trans double_less_iff_le)
      qed (use ab in simp)
    qed
    with False 1 show ?thesis by simp
  qed
qed auto

lemma bounds_strict:
  "\<forall>x \<in> set bs. \<not> isnan x \<Longrightarrow> sorted_wrt (<) (h_bounds (HistogramMetric_new spec bs))"
  by (simp add: HistogramMetric_new_def strict_std_unique sorted_std_sort Let_def)

subsection \<open>Bucket counts\<close>

definition wf_histogram :: "HistogramMetric \<Rightarrow> bool" where
  "wf_histogram h \<longleftrightarrow> length (h_counts h) = length (h_bounds h)"

abbreviation observe_all :: "HistogramMetric \<Rightarrow> double list \<Rightarrow> HistogramMetric" where
  "observe_all h samples \<equiv> fold (\<lambda>s h. observe h s) samples h"

text \<open>The reference: how many finite samples are at most a bound.\<close>

definition samples_le :: "double \<Rightarrow> double list \<Rightarrow> nat" where
  "samples_le b samples = length (filter (\<lambda>s. isfinite s \<and> s \<le> b) samples)"

lemma wf_histogram_new [simp]: "wf_histogram (HistogramMetric_new spec bs)"
  by (simp add: wf_histogram_def HistogramMetric_new_def Let_def)

lemma wf_observe [simp]: "wf_histogram h \<Longrightarrow> wf_histogram (observe h s)"
  by (simp add: wf_histogram_def observe_def)

lemma observe_all_bounds [simp]: "h_bounds (observe_all h samples) = h_bounds h"
  by (induction samples arbitrary: h) simp_all

lemma observe_counts:
  "wf_histogram h \<Longrightarrow> i < length (h_bounds h) \<Longrightarrow>
     h_counts (observe h s) ! i =
       (if isfinite s \<and> s \<le> h_bounds h ! i then h_counts h ! i + 1 else h_counts h ! i)"
  by (simp add: observe_def wf_histogram_def)

lemma observe_all_counts:
  "wf_histogram h \<Longrightarrow> i < length (h_bounds h) \<Longrightarrow>
     h_counts (observe_all h samples) ! i =
       h_counts h ! i + of_nat (samples_le (h_bounds h ! i) samples)"
  by (induction samples arbitrary: h) (simp_all add: observe_counts samples_le_def)

lemma observe_all_count:
  "h_count (observe_all h samples) = h_count h + of_nat (length (filter isfinite samples))"
  by (induction samples arbitrary: h) (simp_all add: observe_def)

lemma observe_all_sum:
  "h_sum (observe_all h samples) = foldl dadd (h_sum h) (filter isfinite samples)"
  by (induction samples arbitrary: h) (simp_all add: observe_def)

lemma wf_observe_all: "wf_histogram h \<Longrightarrow> wf_histogram (observe_all h samples)"
  by (induction samples arbitrary: h) simp_all

lemma unat_of_nat_small: "n < 2 ^ 64 \<Longrightarrow> unat (of_nat n :: 64 word) = n"
  by (simp add: unat_of_nat)

lemma samples_le_mono: "a \<le> b \<Longrightarrow> samples_le a samples \<le> samples_le b samples"
  unfolding samples_le_def
  by (induction samples) (auto intro: double_le_trans)

lemma samples_le_count: "samples_le b samples \<le> length (filter isfinite samples)"
  unfolding samples_le_def by (induction samples) auto

subsection \<open>Rates are never negative\<close>

lemma round_mag_le_pow63: "0 \<le> q \<Longrightarrow> q \<le> 2 ^ 63 \<Longrightarrow> round_mag q \<le> 2 ^ 63"
  using round_mag_mono [of q "2 ^ 63"] round_mag_representable [of "2 ^ 53" 62] by simp

lemma dround_small:
  assumes "0 \<le> q" "q \<le> 2 ^ 63"
  shows "dround s q = DFin s (round_mag q)"
proof -
  have "round_mag q \<le> 2 ^ 63" using assms by (rule round_mag_le_pow63)
  also have "\<dots> < (2 :: rat) ^ 1024" by (rule power_strict_increasing) simp_all
  finally show ?thesis by (simp only: dround_def Let_def not_le [symmetric] if_False simp_thms)
qed

lemma elapsed_ns_range: "\<bar>elapsed_ns now prev\<bar> \<le> 2 ^ 63"
  using sint_ge [of "now - prev"] sint_lt [of "now - prev"] by (simp add: elapsed_ns_def abs_le_iff)

lemma elapsed_seconds_finite:
  obtains s n where "elapsed_seconds now prev = DFin s n" "0 \<le> n"
proof -
  define k where "k = \<bar>elapsed_ns now prev\<bar>"
  have k: "(0 :: rat) \<le> of_int k" "(of_int k :: rat) \<le> 2 ^ 63"
  proof -
    have "k \<le> 2 ^ 63" using elapsed_ns_range [of now prev] by (simp add: k_def)
    then have "(of_int k :: rat) \<le> of_int (2 ^ 63)" unfolding of_int_le_iff .
    then show "(of_int k :: rat) \<le> 2 ^ 63" by simp
  qed (simp add: k_def)
  define m where "m = round_mag (of_int k)"
  have m: "0 \<le> m" "m \<le> 2 ^ 63"
    unfolding m_def by (rule round_mag_nonneg [OF k(1)], rule round_mag_le_pow63 [OF k])
  have d: "double_of_int (elapsed_ns now prev) = DFin (elapsed_ns now prev < 0) m"
    using dround_small [OF k] by (simp add: double_of_int_def k_def m_def)
  have q: "0 \<le> m / 1000000000" "m / 1000000000 \<le> 2 ^ 63" using m by (simp_all add: divide_le_eq)
  show ?thesis
  proof (rule that)
    show "elapsed_seconds now prev = DFin (elapsed_ns now prev < 0) (round_mag (m / 1000000000))"
      using dround_small [OF q] by (simp add: elapsed_seconds_def d)
    show "0 \<le> round_mag (m / 1000000000)" using q(1) by (rule round_mag_nonneg)
  qed
qed

lemma dsub_nonneg:
  assumes c: "isfinite c" "wf_double c" and p: "isfinite p" "wf_double p" and le: "\<not> c < p"
  obtains s m where "dsub c p = DFin s m" "0 \<le> m" "s \<Longrightarrow> m = 0"
  | "dsub c p = DInf False"
proof -
  obtain s m where cm: "c = DFin s m" using c(1) by (cases c) auto
  obtain t n where pn: "p = DFin t n" using p(1) by (cases p) auto
  define v where "v = dval c - dval p"
  have v: "0 \<le> v" using le by (simp add: v_def cm pn)
  have "dsub c p = (if v = 0 then DFin (s \<and> \<not> t) 0 else dround (v < 0) \<bar>v\<bar>)"
    by (cases t) (simp_all add: dsub_def cm pn v_def Let_def)
  with v have "dsub c p = (if v = 0 then DFin (s \<and> \<not> t) 0 else dround False v)" by simp
  then show ?thesis
    using that round_mag_nonneg [OF v] by (auto simp: dround_def Let_def split: if_splits)
qed

lemma ddiv_nonneg:
  assumes "0 \<le> m" "s \<Longrightarrow> m = 0" "0 < n"
  shows "dzero \<le> ddiv (DFin s m) (DFin False n)" "\<not> isnan (ddiv (DFin s m) (DFin False n))"
  using assms round_mag_nonneg [of "m / n"]
  by (auto simp: dround_def Let_def less_eq_double_def)

definition rate_inv :: "CounterRate \<Rightarrow> bool" where
  "rate_inv r \<longleftrightarrow>
     (have_prev r \<longrightarrow> isfinite (prev_value r) \<and> wf_double (prev_value r)) \<and>
     (\<forall>q. last_rate r = Some q \<longrightarrow> dzero \<le> q)"

lemma rate_inv_new [simp]: "rate_inv CounterRate_new"
  by (simp add: rate_inv_def CounterRate_new_def)

lemma rate_inv_reset [simp]: "rate_inv (Rate_reset r)"
  by (simp add: rate_inv_def Rate_reset_def)

lemma Rate_quotient_nonneg:
  assumes r: "rate_inv r" "have_prev r" and c: "wf_double c" "isfinite c" "\<not> c < prev_value r"
    and e: "\<not> elapsed_seconds now (prev_time r) \<le> dzero"
  shows "dzero \<le> ddiv (dsub c (prev_value r)) (elapsed_seconds now (prev_time r))"
proof -
  obtain t n where tn: "elapsed_seconds now (prev_time r) = DFin t n" "0 \<le> n"
    by (rule elapsed_seconds_finite)
  with e have "\<not> t" "0 < n" by (auto split: if_splits)
  from r have p: "isfinite (prev_value r)" "wf_double (prev_value r)" by (auto simp: rate_inv_def)
  show ?thesis
    using c(2,1) p c(3)
  proof (rule dsub_nonneg)
    fix s m assume "dsub c (prev_value r) = DFin s m" "0 \<le> m" "s \<Longrightarrow> m = 0"
    then show ?thesis using ddiv_nonneg(1) [of m s n] tn \<open>\<not> t\<close> \<open>0 < n\<close> by simp
  next
    assume "dsub c (prev_value r) = DInf False"
    then show ?thesis using tn \<open>\<not> t\<close> by (simp add: less_eq_double_def)
  qed
qed

lemma Rate_observe_step:
  assumes "rate_inv r" "wf_double c"
  shows "rate_inv (snd (Rate_observe r c now)) \<and>
    (\<forall>q. fst (Rate_observe r c now) = Some q \<longrightarrow> dzero \<le> q)"
proof (cases "isfinite c \<and> have_prev r \<and> \<not> c < prev_value r \<and> \<not> elapsed_seconds now (prev_time r) \<le> dzero")
  case True
  then have "dzero \<le> ddiv (dsub c (prev_value r)) (elapsed_seconds now (prev_time r))"
    using assms by (intro Rate_quotient_nonneg) auto
  with True assms show ?thesis by (simp add: Rate_observe_def rate_inv_def Let_def)
next
  case False
  with assms show ?thesis by (auto simp: Rate_observe_def rate_inv_def Let_def)
qed

text \<open>The answers of a run of observations, each with its time.\<close>

fun Rate_run :: "CounterRate \<Rightarrow> (double \<times> time_point) list \<Rightarrow> double option list" where
  "Rate_run r [] = []"
| "Rate_run r ((c, now) # obs) = (let (a, r') = Rate_observe r c now in a # Rate_run r' obs)"

lemma Rate_run_nonneg:
  "rate_inv r \<Longrightarrow> list_all (\<lambda>(c, t). wf_double c) obs \<Longrightarrow> Some q \<in> set (Rate_run r obs) \<Longrightarrow> dzero \<le> q"
proof (induction r obs rule: Rate_run.induct)
  case (1 r)
  then show ?case by simp
next
  case (2 r c now obs)
  obtain a r' where s: "Rate_observe r c now = (a, r')" by fastforce
  have "rate_inv r'" "a = Some q \<Longrightarrow> dzero \<le> q"
    using Rate_observe_step [of r c now] 2 s by auto
  with 2 s show ?case by auto
qed

subsection \<open>Properties\<close>

text \<open>The bounds of a new histogram are strictly ascending, every requested upper bound is
  among them up to equality of doubles, and none is invented.\<close>

lemma histogram_bounds_strictly_ascending:
  assumes "\<forall>b \<in> set bs. \<not> isnan b"
  shows "sorted_wrt (<) (h_bounds (HistogramMetric_new spec bs)) \<and>
    (\<forall>b \<in> set bs. \<exists>b' \<in> set (h_bounds (HistogramMetric_new spec bs)). deq b b') \<and>
    set (h_bounds (HistogramMetric_new spec bs)) \<subseteq> set bs"
proof (intro conjI ballI)
  fix b assume "b \<in> set bs"
  with assms std_unique_covers [OF sorted_std_sort, of bs b]
  show "\<exists>b' \<in> set (h_bounds (HistogramMetric_new spec bs)). deq b b'"
    by (simp add: HistogramMetric_new_def Let_def)
next
  show "set (h_bounds (HistogramMetric_new spec bs)) \<subseteq> set bs"
    using set_std_unique [of "std_sort bs"] by (simp add: HistogramMetric_new_def Let_def)
qed (rule bounds_strict [OF assms])

lemma histogram_counts_samples_parts:
  assumes "length samples < 2 ^ 64" "i < length (h_bounds (HistogramMetric_new spec bs))"
  shows "unat (h_counts (fold (\<lambda>s h. observe h s) samples (HistogramMetric_new spec bs)) ! i) =
      length (filter (\<lambda>s. isfinite s \<and> s \<le> h_bounds (HistogramMetric_new spec bs) ! i) samples)"
    and "unat (h_count (fold (\<lambda>s h. observe h s) samples (HistogramMetric_new spec bs))) =
      length (filter isfinite samples)"
    and "h_sum (fold (\<lambda>s h. observe h s) samples (HistogramMetric_new spec bs)) =
      foldl dadd dzero (filter isfinite samples)"
proof -
  let ?h = "HistogramMetric_new spec bs"
  have zero: "h_counts ?h ! i = 0" "h_count ?h = 0" "h_sum ?h = dzero"
    using assms(2) by (simp_all add: HistogramMetric_new_def Let_def)
  have small: "length (filter P samples) < 2 ^ 64" for P
    using assms(1) length_filter_le [of P samples] by linarith
  have "h_counts (observe_all ?h samples) ! i = of_nat (samples_le (h_bounds ?h ! i) samples)"
    using observe_all_counts [OF wf_histogram_new assms(2), of samples] zero(1) by simp
  moreover have "unat (of_nat (samples_le (h_bounds ?h ! i) samples) :: 64 word) = samples_le (h_bounds ?h ! i) samples"
    using small unfolding samples_le_def by (intro unat_of_nat_small)
  ultimately show "unat (h_counts (observe_all ?h samples) ! i) =
      length (filter (\<lambda>s. isfinite s \<and> s \<le> h_bounds ?h ! i) samples)"
    by (simp add: samples_le_def)
  have "unat (of_nat (length (filter isfinite samples)) :: 64 word) = length (filter isfinite samples)"
    using small by (rule unat_of_nat_small)
  then show "unat (h_count (observe_all ?h samples)) = length (filter isfinite samples)"
    using observe_all_count [of samples ?h] zero(2) by simp
  show "h_sum (observe_all ?h samples) = foldl dadd dzero (filter isfinite samples)"
    using observe_all_sum [of samples ?h] zero(3) by simp
qed

text \<open>C38: After any run of fewer than \<open>2 ^ 64\<close> observations on a new histogram, the count of each
  bucket is the number of finite samples at most its bound, the total is the number of finite
  samples, and the sum is their sum in the order of observation.\<close>

theorem histogram_counts_samples:
  assumes "length samples < 2 ^ 64" "i < length (h_bounds (HistogramMetric_new spec bs))"
  shows "(unat (bucketCounts (fold (\<lambda>s h. observe h s) samples (HistogramMetric_new spec bs)) ! i) =
      length (filter (\<lambda>s. isfinite s \<and> s \<le> h_bounds (HistogramMetric_new spec bs) ! i) samples)) \<and>
    (unat (Histogram_count (fold (\<lambda>s h. observe h s) samples (HistogramMetric_new spec bs))) =
      length (filter isfinite samples)) \<and>
    (Histogram_sum (fold (\<lambda>s h. observe h s) samples (HistogramMetric_new spec bs)) =
      foldl dadd dzero (filter isfinite samples))"
  unfolding histogram_accessors by (intro conjI histogram_counts_samples_parts [OF assms])

theorem histogram_counts_samples_witness:
  "let h = HistogramMetric_new empty_spec [DFin False 1, DFin False 5];
       samples = [DFin False 3, DInf False, DFin False 1]
   in unat (bucketCounts (fold (\<lambda>s h. observe h s) samples h) ! 0) = 1 \<and>
      unat (Histogram_count (fold (\<lambda>s h. observe h s) samples h)) = 2"
  using histogram_counts_samples [of "[DFin False 3, DInf False, DFin False 1]" 0 empty_spec "[DFin False 1, DFin False 5]"]
  by (simp add: HistogramMetric_new_def std_sort_def deq_def Let_def)

lemma histogram_cumulative_parts:
  assumes "length samples < 2 ^ 64" "\<forall>b \<in> set bs. \<not> isnan b"
    and "i \<le> j" "j < length (h_bounds (HistogramMetric_new spec bs))"
  shows "h_counts (fold (\<lambda>s h. observe h s) samples (HistogramMetric_new spec bs)) ! i
      \<le> h_counts (fold (\<lambda>s h. observe h s) samples (HistogramMetric_new spec bs)) ! j"
    and "h_counts (fold (\<lambda>s h. observe h s) samples (HistogramMetric_new spec bs)) ! j
      \<le> h_count (fold (\<lambda>s h. observe h s) samples (HistogramMetric_new spec bs))"
proof -
  let ?h = "HistogramMetric_new spec bs"
  have "h_bounds ?h ! i \<le> h_bounds ?h ! j" if "i < j"
    using sorted_wrt_nth_less [OF bounds_strict [OF assms(2)] that assms(4)] by (rule double_less_imp_le)
  then have le: "samples_le (h_bounds ?h ! i) samples \<le> samples_le (h_bounds ?h ! j) samples"
    using assms(3) samples_le_mono by (cases "i = j") auto
  have cnt: "h_counts (observe_all ?h samples) ! k = of_nat (samples_le (h_bounds ?h ! k) samples)"
    if "k \<le> j" for k
    using that assms(4) observe_all_counts [OF wf_histogram_new, of k]
    by (simp add: HistogramMetric_new_def Let_def)
  have tot: "h_count (observe_all ?h samples) = of_nat (length (filter isfinite samples))"
    using observe_all_count [of samples ?h] by (simp add: HistogramMetric_new_def Let_def)
  have mono: "(of_nat a :: 64 word) \<le> of_nat b" if "a \<le> b" "b \<le> length samples" for a b
    using that assms(1) by (simp add: word_le_nat_alt unat_of_nat_small)
  have small: "samples_le b samples \<le> length samples" for b
    by (simp add: samples_le_def)
  show "h_counts (observe_all ?h samples) ! i \<le> h_counts (observe_all ?h samples) ! j"
    unfolding cnt [OF assms(3)] cnt [OF order_refl] using le small by (rule mono)
  show "h_counts (observe_all ?h samples) ! j \<le> h_count (observe_all ?h samples)"
    unfolding cnt [OF order_refl] tot using samples_le_count by (rule mono) simp
qed

text \<open>The buckets of a histogram are cumulative, as the exposition format requires: after fewer
  than \<open>2 ^ 64\<close> observations a later bucket never holds less than an earlier one, and none
  holds more than the total.\<close>

lemma histogram_cumulative:
  assumes "length samples < 2 ^ 64" "\<forall>b \<in> set bs. \<not> isnan b"
    and "i \<le> j" "j < length (h_bounds (HistogramMetric_new spec bs))"
  shows "(h_counts (fold (\<lambda>s h. observe h s) samples (HistogramMetric_new spec bs)) ! i
      \<le> h_counts (fold (\<lambda>s h. observe h s) samples (HistogramMetric_new spec bs)) ! j) \<and>
    (h_counts (fold (\<lambda>s h. observe h s) samples (HistogramMetric_new spec bs)) ! j
      \<le> h_count (fold (\<lambda>s h. observe h s) samples (HistogramMetric_new spec bs)))"
  by (intro conjI histogram_cumulative_parts [OF assms])

text \<open>The rate helper never answers a negative rate, whatever counter values (increasing,
  reset, NaN or infinite) and whatever clock readings, in whatever order, it is given.\<close>

lemma rate_never_negative:
  assumes "list_all (\<lambda>(c, t). wf_double c) observations"
    and "Some q \<in> set (Rate_run CounterRate_new observations)"
  shows "dzero \<le> q"
  using Rate_run_nonneg [OF rate_inv_new assms] .

end
