(* ===== verification/Registry.thy ===== *)
theory Registry
  imports Metric "HOL-Library.AList" "HOL-Library.Multiset"
begin

section \<open>The metric registry (registry.hpp, registry.cpp)\<close>

text \<open>
  \<^verbatim>\<open>MetricRegistry\<close> owns the metrics by name in an \<^verbatim>\<open>unordered_map\<close>. The model keeps the
  entries as an association list; its order stands for the iteration order of the hash map, which
  the C++ standard leaves open, and \<open>Exposition\<close> shows that the output does not depend on it.
  Each member function locks the registry's mutex for its whole body, so it is one atomic
  function on the state. The contract the scraper, the ingest endpoint and the snapshot
  loader rely on is the locale \<open>metric_store\<close>.
\<close>

record MetricRegistry =
  metrics :: "(string \<times> Metric) list"

definition registry_empty :: MetricRegistry where
  "registry_empty = \<lparr>metrics = []\<rparr>"

definition registry_find :: "MetricRegistry \<Rightarrow> string \<Rightarrow> Metric option" where
  "registry_find r name = map_of (metrics r) name"

definition registerMetric :: "MetricRegistry \<Rightarrow> MetricSpec \<Rightarrow> bool \<times> MetricRegistry" where
  "registerMetric r spec =
     (if spec_name spec = [] then (False, r)
      else case makeMetric spec of
        None \<Rightarrow> (False, r)
      | Some metric \<Rightarrow>
          if registry_find r (spec_name spec) \<noteq> None then (False, r)
          else (True, r\<lparr>metrics := metrics r @ [(spec_name spec, metric)]\<rparr>))"

definition upsert :: "MetricRegistry \<Rightarrow> MetricSpec \<Rightarrow> bool \<times> MetricRegistry" where
  "upsert r spec =
     (if spec_name spec = [] then (False, r)
      else case makeMetric spec of
        None \<Rightarrow> (False, r)
      | Some metric \<Rightarrow> (True, r\<lparr>metrics := AList.update (spec_name spec) metric (metrics r)\<rparr>))"

definition registry_setValue :: "MetricRegistry \<Rightarrow> string \<Rightarrow> double \<Rightarrow> bool \<times> MetricRegistry" where
  "registry_setValue r name value =
     (case registry_find r name of
        None \<Rightarrow> (False, r)
      | Some m \<Rightarrow>
          let (ok, m') = metric_setValue m value
          in (ok, r\<lparr>metrics := AList.update name m' (metrics r)\<rparr>))"

definition increment :: "MetricRegistry \<Rightarrow> string \<Rightarrow> double \<Rightarrow> bool \<times> MetricRegistry" where
  "increment r name delta =
     (if delta < dzero then (False, r)
      else case registry_find r name of
        None \<Rightarrow> (False, r)
      | Some m \<Rightarrow>
          if metric_type m \<noteq> Counter then (False, r)
          else let (ok, m') = metric_setValue m (dadd (metric_value m) delta)
               in (ok, r\<lparr>metrics := AList.update name m' (metrics r)\<rparr>))"

definition registry_list :: "MetricRegistry \<Rightarrow> Metric list" where
  "registry_list r = map snd (metrics r)"

definition registry_size :: "MetricRegistry \<Rightarrow> nat" where
  "registry_size r = length (metrics r)"

definition registry_clear :: "MetricRegistry \<Rightarrow> MetricRegistry" where
  "registry_clear r = r\<lparr>metrics := []\<rparr>"

subsection \<open>Lookups after updates\<close>

lemma find_upsert:
  "registry_find (r\<lparr>metrics := AList.update k m (metrics r)\<rparr>) = (registry_find r)(k \<mapsto> m)"
  by (rule ext) (simp add: registry_find_def update_conv)

lemma find_empty [simp]: "registry_find registry_empty = Map.empty"
  by (rule ext) (simp add: registry_find_def registry_empty_def)

lemma find_clear [simp]: "registry_find (registry_clear r) = Map.empty"
  by (rule ext) (simp add: registry_find_def registry_clear_def)

lemma find_append:
  "registry_find r k = None \<Longrightarrow>
   registry_find (r\<lparr>metrics := metrics r @ [(k, m)]\<rparr>) = (registry_find r)(k \<mapsto> m)"
  by (rule ext) (auto simp: registry_find_def map_add_def split: option.splits)

definition accepted_spec :: "MetricSpec \<Rightarrow> bool" where
  "accepted_spec spec \<longleftrightarrow> spec_name spec \<noteq> [] \<and> parseMetricType (spec_type spec) \<noteq> Unknown"

definition metric_of :: "MetricSpec \<Rightarrow> Metric" where
  "metric_of spec = the (makeMetric spec)"

lemma makeMetric_None: "makeMetric spec = None \<longleftrightarrow> parseMetricType (spec_type spec) = Unknown"
  by (auto simp: makeMetric_def Let_def split: MetricType.splits)

lemma makeMetric_accepted:
  "accepted_spec spec \<Longrightarrow> makeMetric spec = Some (metric_of spec)"
  using makeMetric_None [of spec] by (auto simp: accepted_spec_def metric_of_def)

lemma makeMetric_name: "makeMetric spec = Some m \<Longrightarrow> metric_name m = spec_name spec"
  by (auto simp: makeMetric_def CounterMetric_new_def GaugeMetric_new_def HistogramMetric_new_def Let_def
      split: MetricType.splits)

text \<open>
  The interface through which parsed specifications reach the registry: an accepted
  specification becomes the entry of its name, a rejected one changes nothing.
\<close>

locale metric_store =
  fixes lookup :: "'s \<Rightarrow> string \<Rightarrow> Metric option"
    and store :: "'s \<Rightarrow> MetricSpec \<Rightarrow> bool \<times> 's"
  assumes store_accepted: "accepted_spec spec \<Longrightarrow>
      fst (store s spec) \<and> lookup (snd (store s spec)) = (lookup s)(spec_name spec \<mapsto> metric_of spec)"
    and store_rejected: "\<not> accepted_spec spec \<Longrightarrow> store s spec = (False, s)"
begin

lemma store_iff: "fst (store s spec) \<longleftrightarrow> accepted_spec spec"
  using store_accepted store_rejected by (cases "accepted_spec spec") auto

lemma lookup_store:
  "lookup (snd (store s spec)) =
     (if accepted_spec spec then (lookup s)(spec_name spec \<mapsto> metric_of spec) else lookup s)"
  using store_accepted store_rejected by simp

lemma store_all_lookup:
  "lookup (fold (\<lambda>spec s. snd (store s spec)) specs s) =
     lookup s ++ map_of (rev (map (\<lambda>spec. (spec_name spec, metric_of spec)) (filter accepted_spec specs)))"
  by (induction specs arbitrary: s) (auto simp: lookup_store)

lemma store_all_other:
  "name \<notin> spec_name ` set specs \<Longrightarrow>
   lookup (fold (\<lambda>spec s. snd (store s spec)) specs s) name = lookup s name"
  by (induction specs arbitrary: s) (auto simp: lookup_store)

lemma store_all_last:
  assumes "specs = xs @ spec # ys" "accepted_spec spec" "spec_name spec \<notin> spec_name ` set ys"
  shows "lookup (fold (\<lambda>spec s. snd (store s spec)) specs s) (spec_name spec) = Some (metric_of spec)"
  using assms by (simp add: store_all_other lookup_store)

end

interpretation registry: metric_store registry_find upsert
proof unfold_locales
  fix s spec assume ok: "accepted_spec spec"
  then have ne: "spec_name spec \<noteq> []" by (simp add: accepted_spec_def)
  have "upsert s spec = (True, s\<lparr>metrics := AList.update (spec_name spec) (metric_of spec) (metrics s)\<rparr>)"
    unfolding upsert_def using ne makeMetric_accepted [OF ok] by simp
  then show "fst (upsert s spec) \<and>
      registry_find (snd (upsert s spec)) = (registry_find s)(spec_name spec \<mapsto> metric_of spec)"
    by (simp add: find_upsert)
next
  fix s spec assume "\<not> accepted_spec spec"
  then have "spec_name spec = [] \<or> makeMetric spec = None"
    by (auto simp: accepted_spec_def makeMetric_None)
  then show "upsert s spec = (False, s)" by (auto simp: upsert_def)
qed

subsection \<open>The registry invariant\<close>

fun wf_metric :: "Metric \<Rightarrow> bool" where
  "wf_metric (CounterObj m) \<longleftrightarrow> wf_double (c_value m) \<and> \<not> c_value m < dzero"
| "wf_metric (GaugeObj m) \<longleftrightarrow> wf_double (g_value m)"
| "wf_metric (HistogramObj h) \<longleftrightarrow>
     wf_histogram h \<and> list_all wf_double (h_bounds h) \<and> wf_double (h_sum h) \<and> \<not> isnan (h_sum h)"

text \<open>
  Every entry sits under its own, non-empty name, names are distinct, and every object is well
  formed: numbers are doubles, counters are never below zero, histograms have one count per bound.
\<close>

definition wf_registry :: "MetricRegistry \<Rightarrow> bool" where
  "wf_registry r \<longleftrightarrow> distinct (map fst (metrics r)) \<and>
     list_all (\<lambda>(k, m). k \<noteq> [] \<and> metric_name m = k \<and> wf_metric m) (metrics r)"

definition wf_spec :: "MetricSpec \<Rightarrow> bool" where
  "wf_spec spec \<longleftrightarrow> wf_double (spec_value spec) \<and> list_all wf_double (spec_buckets spec)"

lemma wf_double_zero [simp]: "wf_double dzero"
  by simp

lemma wf_default_bounds: "list_all wf_double defaultHistogramBounds"
proof -
  have "list_all wf_double (map (dround False) qs)" if "list_all (\<lambda>q. 0 \<le> q) qs" for qs
    using that by (induction qs) (simp_all add: wf_dround)
  then show ?thesis by (simp add: defaultHistogramBounds_def del: list.map)
qed

lemma wf_HistogramMetric_new:
  assumes "list_all wf_double bs"
  shows "wf_metric (HistogramObj (HistogramMetric_new spec bs))"
proof -
  have "list_all wf_double (std_unique (std_sort bs))"
    using assms set_std_unique [of "std_sort bs"] by (auto simp: list_all_iff)
  then show ?thesis by (simp add: HistogramMetric_new_def wf_histogram_def Let_def)
qed

lemma wf_makeMetric:
  assumes "makeMetric spec = Some m" "wf_spec spec"
  shows "wf_metric m"
proof (cases "parseMetricType (spec_type spec)")
  case Histogram
  with assms wf_HistogramMetric_new [OF wf_default_bounds, of spec]
    wf_HistogramMetric_new [of "spec_buckets spec" spec]
  show ?thesis
    by (auto simp: makeMetric_def wf_spec_def Let_def simp del: wf_metric.simps split: if_splits)
qed (use assms in \<open>auto simp: makeMetric_def CounterMetric_new_def GaugeMetric_new_def wf_spec_def\<close>)

lemma wf_observe_metric:
  assumes "wf_metric (HistogramObj h)" "wf_double s"
  shows "wf_metric (HistogramObj (observe h s))"
proof (cases "isfinite s")
  case True
  then have "\<not> isnan (dadd (h_sum h) s)"
    using assms by (cases "h_sum h"; cases s) (auto simp: Let_def dround_def)
  with True assms show ?thesis by (simp add: observe_def wf_dadd wf_histogram_def)
next
  case False
  with assms show ?thesis by (simp add: observe_def)
qed

lemma wf_metric_setValue:
  assumes "wf_metric m" "wf_double v"
  shows "wf_metric (snd (metric_setValue m v))"
  using assms wf_observe_metric
  by (cases m) (auto simp: Counter_setValue_def Gauge_setValue_def Histogram_setValue_def)

lemma wf_registry_empty [simp]: "wf_registry registry_empty"
  by (simp add: wf_registry_def registry_empty_def)

lemma wf_registry_clear [simp]: "wf_registry (registry_clear r)"
  by (simp add: wf_registry_def registry_clear_def)

lemma wf_registry_find:
  assumes "wf_registry r" "registry_find r name = Some m"
  shows "metric_name m = name \<and> name \<noteq> [] \<and> wf_metric m"
proof -
  have "(name, m) \<in> set (metrics r)" using assms(2) by (simp add: registry_find_def map_of_SomeD)
  with assms(1) show ?thesis unfolding wf_registry_def list_all_iff by blast
qed

lemma wf_registry_put:
  assumes "wf_registry r" "name \<noteq> []" "metric_name m = name" "wf_metric m"
  shows "wf_registry (r\<lparr>metrics := AList.update name m (metrics r)\<rparr>)"
proof -
  have "list_all P (AList.update name m al)" if "list_all P al" "P (name, m)"
    for P and al :: "(string \<times> Metric) list"
    using that by (induction al) auto
  with assms show ?thesis by (simp add: wf_registry_def distinct_update)
qed

lemma wf_registerMetric:
  assumes "wf_registry r" "wf_spec spec"
  shows "wf_registry (snd (registerMetric r spec))"
proof -
  have "k \<notin> fst ` set (metrics r)" if "registry_find r k = None" for k
    using that by (simp add: registry_find_def map_of_eq_None_iff)
  with assms show ?thesis
    using wf_makeMetric [of spec] makeMetric_name [of spec]
    by (auto simp: registerMetric_def wf_registry_def split: option.splits)
qed

lemma wf_upsert:
  assumes "wf_registry r" "wf_spec spec"
  shows "wf_registry (snd (upsert r spec))"
  using assms wf_registry_put wf_makeMetric [of spec] makeMetric_name [of spec]
  by (auto simp: upsert_def split: option.splits)

lemma wf_registry_setValue:
  assumes "wf_registry r" "wf_double v"
  shows "wf_registry (snd (registry_setValue r name v))"
  using assms wf_registry_find [of r name]
  by (auto simp: registry_setValue_def case_prod_beta Let_def
      split: option.splits intro!: wf_registry_put wf_metric_setValue)

lemma wf_metric_value: "wf_metric m \<Longrightarrow> wf_double (metric_value m)"
  by (cases m) (auto simp: Histogram_value_def)

lemma wf_increment:
  assumes "wf_registry r" "wf_double d"
  shows "wf_registry (snd (increment r name d))"
  using assms wf_registry_find [of r name]
  by (auto simp: increment_def case_prod_beta Let_def
      split: option.splits intro!: wf_registry_put wf_metric_setValue wf_dadd wf_metric_value)

subsection \<open>Sequences of calls\<close>

text \<open>
  The calls a program can make on a registry, in any order: since every call holds the mutex, a
  concurrent execution is one of these sequences.
\<close>

datatype registry_op =
    Op_register MetricSpec
  | Op_upsert MetricSpec
  | Op_setValue string double
  | Op_increment string double
  | Op_clear

fun registry_apply :: "MetricRegistry \<Rightarrow> registry_op \<Rightarrow> bool \<times> MetricRegistry" where
  "registry_apply r (Op_register spec) = registerMetric r spec"
| "registry_apply r (Op_upsert spec) = upsert r spec"
| "registry_apply r (Op_setValue name v) = registry_setValue r name v"
| "registry_apply r (Op_increment name d) = increment r name d"
| "registry_apply r Op_clear = (True, registry_clear r)"

fun wf_op :: "registry_op \<Rightarrow> bool" where
  "wf_op (Op_register spec) \<longleftrightarrow> wf_spec spec"
| "wf_op (Op_upsert spec) \<longleftrightarrow> wf_spec spec"
| "wf_op (Op_setValue name v) \<longleftrightarrow> wf_double v"
| "wf_op (Op_increment name d) \<longleftrightarrow> wf_double d"
| "wf_op Op_clear \<longleftrightarrow> True"

definition registry_run :: "MetricRegistry \<Rightarrow> registry_op list \<Rightarrow> MetricRegistry" where
  "registry_run r ops = fold (\<lambda>op r. snd (registry_apply r op)) ops r"

lemma registry_run_simps [simp]:
  "registry_run r [] = r"
  "registry_run r (op # ops) = registry_run (snd (registry_apply r op)) ops"
  by (simp_all add: registry_run_def)

lemma wf_registry_apply: "wf_registry r \<Longrightarrow> wf_op op \<Longrightarrow> wf_registry (snd (registry_apply r op))"
  by (cases op) (simp_all add: wf_registerMetric wf_upsert wf_registry_setValue wf_increment)

lemma wf_registry_run: "wf_registry r \<Longrightarrow> list_all wf_op ops \<Longrightarrow> wf_registry (registry_run r ops)"
  by (induction ops arbitrary: r) (simp_all add: wf_registry_apply)

subsection \<open>Counters in the registry\<close>

text \<open>Calls that cannot replace or drop a series.\<close>

fun updates_only :: "registry_op \<Rightarrow> bool" where
  "updates_only (Op_upsert spec) \<longleftrightarrow> False"
| "updates_only Op_clear \<longleftrightarrow> False"
| "updates_only _ \<longleftrightarrow> True"

lemma setValue_counter_step:
  assumes "registry_find r name = Some (CounterObj m)" "\<not> isnan (c_value m)"
  shows "\<exists>m'. registry_find (snd (registry_setValue r k v)) name = Some (CounterObj m') \<and>
    c_value m \<le> c_value m' \<and> \<not> isnan (c_value m')"
proof (cases "k = name")
  case True
  have "\<not> isnan (c_value (snd (Counter_setValue m v)))"
    using assms(2) by (auto simp: Counter_setValue_def)
  with True assms Counter_setValue_mono [OF assms(2), of v] show ?thesis
    by (auto simp: registry_setValue_def case_prod_beta Let_def find_upsert)
next
  case False
  with assms show ?thesis
    by (auto simp: registry_setValue_def case_prod_beta Let_def find_upsert split: option.splits)
qed

lemma increment_as_setValue:
  "snd (increment r name d) = r \<or>
   (\<exists>m. registry_find r name = Some m \<and>
      snd (increment r name d) = snd (registry_setValue r name (dadd (metric_value m) d)))"
  by (auto simp: increment_def registry_setValue_def case_prod_beta Let_def split: option.splits)

lemma register_keeps:
  assumes "registry_find r name = Some m"
  shows "registry_find (snd (registerMetric r spec)) name = Some m"
  using assms find_append [of r "spec_name spec"]
  by (auto simp: registerMetric_def split: option.splits)

lemma counter_step:
  assumes "registry_find r name = Some (CounterObj m)" "\<not> isnan (c_value m)" "updates_only op"
  shows "\<exists>m'. registry_find (snd (registry_apply r op)) name = Some (CounterObj m') \<and>
    c_value m \<le> c_value m' \<and> \<not> isnan (c_value m')"
proof (cases op)
  case (Op_register spec)
  with assms register_keeps [OF assms(1)] show ?thesis by auto
next
  case (Op_setValue k v)
  with setValue_counter_step [OF assms(1,2)] show ?thesis by simp
next
  case (Op_increment k d)
  then show ?thesis
    using increment_as_setValue [of r k d] setValue_counter_step [OF assms(1,2)] assms(1,2) by auto
qed (use assms(3) in auto)

lemma counter_run:
  "registry_find r name = Some (CounterObj m) \<Longrightarrow> \<not> isnan (c_value m) \<Longrightarrow> list_all updates_only ops \<Longrightarrow>
   \<exists>m'. registry_find (registry_run r ops) name = Some (CounterObj m') \<and> c_value m \<le> c_value m'"
proof (induction ops arbitrary: r m)
  case Nil
  then show ?case by auto
next
  case (Cons op ops)
  from Cons.prems(3) have u: "updates_only op" "list_all updates_only ops" by simp_all
  from counter_step [OF Cons.prems(1,2) u(1)] obtain m1 where
    m1: "registry_find (snd (registry_apply r op)) name = Some (CounterObj m1)"
      "c_value m \<le> c_value m1" "\<not> isnan (c_value m1)" by blast
  from Cons.IH [OF m1(1,3) u(2)] m1(2) show ?case by (auto intro: double_le_trans)
qed

text \<open>
  An increment by a finite non-negative amount stores the rounded sum, and fails, changing
  nothing, exactly when the sum overflows.
\<close>

lemma increment_counter:
  assumes find: "registry_find r name = Some (CounterObj m)"
    and wf: "wf_double (c_value m)" "isfinite (c_value m)" "\<not> c_value m < dzero"
    and d: "isfinite d" "dzero \<le> d"
  shows "fst (increment r name d) \<longleftrightarrow> isfinite (dadd (c_value m) d)"
    and "registry_find (snd (increment r name d)) name =
      Some (CounterObj (if isfinite (dadd (c_value m) d) then m\<lparr>c_value := dadd (c_value m) d\<rparr> else m))"
proof -
  define s where "s = dadd (c_value m) d"
  have m0: "dzero \<le> c_value m" using wf by (simp add: double_not_less)
  have le: "c_value m \<le> s" unfolding s_def using wf(1,2) m0 d(2,1) by (rule dadd_nonneg_le)
  have dn: "\<not> d < dzero" using d by simp
  have "\<not> s < dzero" "\<not> s < c_value m"
    using le m0 double_le_trans [OF m0 le] by (auto simp: double_less_iff_le)
  then have set: "Counter_setValue m s = (if isfinite s then (True, m\<lparr>c_value := s\<rparr>) else (False, m))"
    by (auto simp: Counter_setValue_def)
  show "fst (increment r name d) \<longleftrightarrow> isfinite (dadd (c_value m) d)"
    using dn by (simp add: increment_def find s_def [symmetric] set Let_def)
  show "registry_find (snd (increment r name d)) name =
      Some (CounterObj (if isfinite (dadd (c_value m) d) then m\<lparr>c_value := dadd (c_value m) d\<rparr> else m))"
    using dn by (simp add: increment_def find s_def [symmetric] set Let_def find_upsert)
qed

subsection \<open>The registry as a partial map\<close>

text \<open>
  What the registry promises, over a partial map from names to metrics: registration fills a free
  name, \<^verbatim>\<open>upsert\<close> any name, \<^verbatim>\<open>setValue\<close> and \<^verbatim>\<open>increment\<close> hand the value to the object that is there.
\<close>

definition map_update :: "(string \<rightharpoonup> Metric) \<Rightarrow> string \<Rightarrow> (Metric \<Rightarrow> bool \<times> Metric) \<Rightarrow> bool \<times> (string \<rightharpoonup> Metric)" where
  "map_update m name f =
     (case m name of None \<Rightarrow> (False, m) | Some x \<Rightarrow> (fst (f x), m(name \<mapsto> snd (f x))))"

fun map_apply :: "(string \<rightharpoonup> Metric) \<Rightarrow> registry_op \<Rightarrow> bool \<times> (string \<rightharpoonup> Metric)" where
  "map_apply m (Op_register spec) =
     (if accepted_spec spec \<and> spec_name spec \<notin> dom m then (True, m(spec_name spec \<mapsto> metric_of spec)) else (False, m))"
| "map_apply m (Op_upsert spec) =
     (if accepted_spec spec then (True, m(spec_name spec \<mapsto> metric_of spec)) else (False, m))"
| "map_apply m (Op_setValue name v) = map_update m name (\<lambda>x. metric_setValue x v)"
| "map_apply m (Op_increment name d) =
     map_update m name (\<lambda>x. if metric_type x = Counter \<and> \<not> d < dzero
       then metric_setValue x (dadd (metric_value x) d) else (False, x))"
| "map_apply m Op_clear = (True, Map.empty)"

text \<open>The answers that a client gets from a run of calls, with the final state.\<close>

fun call_results :: "('s \<Rightarrow> registry_op \<Rightarrow> bool \<times> 's) \<Rightarrow> 's \<Rightarrow> registry_op list \<Rightarrow> bool list \<times> 's" where
  "call_results apply s [] = ([], s)"
| "call_results apply s (op # ops) =
     (case apply s op of (b, s') \<Rightarrow> case call_results apply s' ops of (bs, t) \<Rightarrow> (b # bs, t))"

lemma registry_apply_map:
  "map_prod id registry_find (registry_apply r op) = map_apply (registry_find r) op"
proof (cases op)
  case (Op_register spec)
  then show ?thesis
    using makeMetric_None [of spec] makeMetric_accepted [of spec]
    by (auto simp: registerMetric_def accepted_spec_def metric_of_def find_append split: option.splits)
next
  case (Op_upsert spec)
  then show ?thesis
    using registry.store_accepted [of spec r] registry.store_rejected [of spec r]
    by (cases "upsert r spec") auto
next
  case (Op_setValue name v)
  then show ?thesis
    by (auto simp: registry_setValue_def map_update_def find_upsert Let_def split: option.splits prod.splits)
next
  case (Op_increment name d)
  then show ?thesis
    by (auto simp: increment_def map_update_def find_upsert Let_def fun_upd_idem split: option.splits prod.splits)
qed simp_all

lemma answers_map:
  "map_prod id registry_find (call_results registry_apply r ops) = call_results map_apply (registry_find r) ops"
proof (induction ops arbitrary: r)
  case (Cons op ops)
  show ?case
    using registry_apply_map [of r op, symmetric] Cons.IH [of "snd (registry_apply r op)", symmetric]
    by (simp add: case_prod_beta prod_eq_iff)
qed simp

lemma wf_answers: "wf_registry r \<Longrightarrow> list_all wf_op ops \<Longrightarrow> wf_registry (snd (call_results registry_apply r ops))"
  by (induction ops arbitrary: r) (simp_all add: wf_registry_apply case_prod_beta)

lemma registry_contents:
  assumes "wf_registry r"
  shows "registry_size r = card (dom (registry_find r))"
    and "set (registry_list r) = ran (registry_find r)"
proof -
  have find: "registry_find r = map_of (metrics r)" by (rule ext) (simp add: registry_find_def)
  have distinct: "distinct (map fst (metrics r))" using assms by (simp add: wf_registry_def)
  show "registry_size r = card (dom (registry_find r))"
    using distinct_card [OF distinct] by (simp add: find dom_map_of_conv_image_fst registry_size_def)
  show "set (registry_list r) = ran (registry_find r)"
    by (simp add: find ran_distinct [OF distinct] registry_list_def)
qed

subsection \<open>Properties\<close>

text \<open>Whatever calls are made on an empty registry, in whatever order, the registry stays well
  formed: distinct non-empty names, each the name of the object stored under it, every counter at
  or above zero, one count per histogram bound, every number a double.\<close>

lemma registry_stays_well_formed:
  assumes "list_all wf_op ops"
  shows "wf_registry (fold (\<lambda>op r. snd (registry_apply r op)) ops registry_empty)"
  using wf_registry_run [OF wf_registry_empty assms] by (simp add: registry_run_def)

text \<open>C26: A counter that is in the registry is still there after any sequence of registrations, sets
  and increments of any series, and its value has not gone down.\<close>

theorem counter_never_decreases:
  assumes "registry_find r name = Some (CounterObj m)" "\<not> isnan (c_value m)" "list_all updates_only ops"
  shows "\<exists>m'. registry_find (fold (\<lambda>op r. snd (registry_apply r op)) ops r) name = Some (CounterObj m') \<and>
    c_value m \<le> c_value m'"
  using counter_run [OF assms] by (simp add: registry_run_def)

theorem counter_never_decreases_witness:
  "let m = \<lparr>c_name = ''c'', c_help = [], c_labels = [], c_value = DFin False 5\<rparr>
   in \<exists>m'. registry_find (fold (\<lambda>op r. snd (registry_apply r op))
        [Op_setValue ''c'' (DFin False 3), Op_increment ''c'' (DFin False 2), Op_setValue ''d'' (DFin False 1)]
        \<lparr>metrics = [(''c'', CounterObj m)]\<rparr>) ''c'' = Some (CounterObj m') \<and> DFin False 5 \<le> c_value m'"
  using counter_never_decreases [of "\<lparr>metrics = [(''c'', CounterObj \<lparr>c_name = ''c'', c_help = [], c_labels = [],
      c_value = DFin False 5\<rparr>)]\<rparr>" "''c''" "\<lparr>c_name = ''c'', c_help = [], c_labels = [], c_value = DFin False 5\<rparr>"
    "[Op_setValue ''c'' (DFin False 3), Op_increment ''c'' (DFin False 2), Op_setValue ''d'' (DFin False 1)]"]
  by (simp only: Let_def) (simp add: registry_find_def)

lemma increment_stores_rounded_sum_parts:
  assumes "registry_find r name = Some (CounterObj m)"
    and "wf_double (c_value m)" "isfinite (c_value m)" "\<not> c_value m < dzero"
    and "isfinite delta" "dzero \<le> delta"
  shows "fst (increment r name delta) \<longleftrightarrow> isfinite (dadd (c_value m) delta)"
    and "registry_find (snd (increment r name delta)) = (registry_find r)(name \<mapsto>
      CounterObj (if isfinite (dadd (c_value m) delta) then m\<lparr>c_value := dadd (c_value m) delta\<rparr> else m))"
proof -
  show "fst (increment r name delta) \<longleftrightarrow> isfinite (dadd (c_value m) delta)"
    by (rule increment_counter(1) [OF assms])
  have "registry_find (snd (increment r name delta)) k = registry_find r k" if "k \<noteq> name" for k
    using that by (auto simp: increment_def find_upsert case_prod_beta Let_def split: option.splits)
  then show "registry_find (snd (increment r name delta)) = (registry_find r)(name \<mapsto>
      CounterObj (if isfinite (dadd (c_value m) delta) then m\<lparr>c_value := dadd (c_value m) delta\<rparr> else m))"
    using increment_counter(2) [OF assms] by (intro ext) auto
qed

text \<open>Incrementing a counter by a finite non-negative amount stores the correctly rounded sum;
  it fails exactly when that sum overflows, and then changes nothing. Other series are not touched.\<close>

lemma increment_stores_rounded_sum:
  assumes "registry_find r name = Some (CounterObj m)"
    and "wf_double (c_value m)" "isfinite (c_value m)" "\<not> c_value m < dzero"
    and "isfinite delta" "dzero \<le> delta"
  shows "(fst (increment r name delta) \<longleftrightarrow> isfinite (dadd (c_value m) delta)) \<and>
    (registry_find (snd (increment r name delta)) = (registry_find r)(name \<mapsto>
      CounterObj (if isfinite (dadd (c_value m) delta) then m\<lparr>c_value := dadd (c_value m) delta\<rparr> else m)))"
  by (intro conjI increment_stores_rounded_sum_parts [OF assms])

text \<open>C25: The registry is a partial map from names to metrics: on any run of calls a client gets the
  answers of the map and leaves its contents, and afterwards \<^verbatim>\<open>size\<close> counts the names of the map
  and \<^verbatim>\<open>list\<close> yields each of its metrics.\<close>

theorem registry_implements_map:
  assumes "wf_registry r" "list_all wf_op ops"
  shows "map_prod id registry_find (call_results registry_apply r ops) = call_results map_apply (registry_find r) ops \<and>
    registry_size (snd (call_results registry_apply r ops)) = card (dom (snd (call_results map_apply (registry_find r) ops))) \<and>
    set (registry_list (snd (call_results registry_apply r ops))) = ran (snd (call_results map_apply (registry_find r) ops))"
  using answers_map [of r ops] registry_contents [OF wf_answers [OF assms]]
  by (simp add: prod_eq_iff)

theorem registry_implements_map_witness:
  "let spec = \<lparr>spec_name = ''up'', spec_type = ''gauge'', spec_help = [], spec_value = DFin False 1,
              spec_labels = [], spec_buckets = []\<rparr>;
       ops = [Op_register spec, Op_register spec, Op_setValue ''down'' (DFin False 1), Op_setValue ''up'' (DFin False 2)]
   in fst (call_results registry_apply registry_empty ops) = [True, False, False, True] \<and>
      registry_size (snd (call_results registry_apply registry_empty ops)) = 1"
proof -
  let ?spec = "\<lparr>spec_name = ''up'', spec_type = ''gauge'', spec_help = [], spec_value = DFin False 1,
    spec_labels = [], spec_buckets = []\<rparr>"
  let ?ops = "[Op_register ?spec, Op_register ?spec, Op_setValue ''down'' (DFin False 1), Op_setValue ''up'' (DFin False 2)]"
  have wf: "list_all wf_op ?ops" by (simp add: wf_spec_def wf_double_numeral del: wf_double.simps)
  have ty: "parseMetricType ''gauge'' = Gauge" by code_simp
  have abs: "call_results map_apply Map.empty ?ops =
      ([True, False, False, True], [''up'' \<mapsto> GaugeObj \<lparr>g_name = ''up'', g_help = [], g_labels = [], g_value = DFin False 2\<rparr>])"
    by (simp add: map_update_def accepted_spec_def metric_of_def makeMetric_def ty GaugeMetric_new_def Gauge_setValue_def)
  have "fst (call_results registry_apply registry_empty ?ops) = fst (call_results map_apply Map.empty ?ops) \<and>
      registry_size (snd (call_results registry_apply registry_empty ?ops)) = card (dom (snd (call_results map_apply Map.empty ?ops)))"
    using registry_implements_map [OF wf_registry_empty wf] unfolding prod_eq_iff find_empty by (simp only: fst_map_prod id_apply)
  then show ?thesis unfolding abs Let_def by simp
qed

end
