(* ===== verification/Exposition.thy ===== *)
theory Exposition
  imports Registry
begin

section \<open>Prometheus text exposition (exposition.cpp)\<close>

text \<open>
  \<^verbatim>\<open>renderPrometheusText\<close> lists the registry, sorts the metrics by name and writes each one,
  histograms through their own \<^verbatim>\<open>writeExposition\<close>. The main fact is that the text depends on
  the contents of the registry only, not on the order in which the hash map yields them.
\<close>

fun metric_lines :: "Metric \<Rightarrow> bool \<Rightarrow> string list" where
  "metric_lines (HistogramObj h) include_metadata = Histogram_lines h include_metadata"
| "metric_lines m include_metadata =
     (if include_metadata
      then (if metric_help m \<noteq> [] then [''# HELP '' @ metric_name m @ '' '' @ metric_help m] else []) @
           [''# TYPE '' @ metric_name m @ '' '' @ toString (metric_type m)]
      else []) @
     [metric_name m @ braced (metric_labels m) @ '' '' @ show_double (metric_value m)]"

definition sorted_metrics :: "MetricRegistry \<Rightarrow> Metric list" where
  "sorted_metrics r = sort_key metric_name (registry_list r)"

definition renderPrometheusText :: "MetricRegistry \<Rightarrow> bool \<Rightarrow> string" where
  "renderPrometheusText r include_metadata =
     concat (map (\<lambda>m. unlines (metric_lines m include_metadata)) (sorted_metrics r))"

lemma unlines_append [simp]: "unlines (a @ b) = unlines a @ unlines b"
  by (simp add: unlines_def)

lemma unlines_Nil [simp]: "unlines [] = []"
  by (simp add: unlines_def)

lemma render_unlines:
  "renderPrometheusText r meta = unlines (concat (map (\<lambda>m. metric_lines m meta) (sorted_metrics r)))"
proof -
  have "concat (map (\<lambda>m. unlines (metric_lines m meta)) ms) =
      unlines (concat (map (\<lambda>m. metric_lines m meta) ms))" for ms
    by (induction ms) simp_all
  then show ?thesis by (simp add: renderPrometheusText_def)
qed

lemma wf_registry_names:
  assumes "wf_registry r"
  shows "map metric_name (registry_list r) = map fst (metrics r)"
proof -
  have "metric_name (snd e) = fst e" if "e \<in> set (metrics r)" for e
    using assms that by (cases e) (auto simp: wf_registry_def list_all_iff)
  then show ?thesis by (simp add: registry_list_def)
qed

lemma wf_registry_distinct: "wf_registry r \<Longrightarrow> distinct (map metric_name (registry_list r))"
  by (simp add: wf_registry_names) (simp add: wf_registry_def)

lemma mset_sorted_metrics [simp]: "mset (sorted_metrics r) = mset (registry_list r)"
  by (simp add: sorted_metrics_def)

lemma set_sorted_metrics [simp]: "set (sorted_metrics r) = set (registry_list r)"
  by (simp add: sorted_metrics_def)

lemma sorted_sorted_metrics: "sorted (map metric_name (sorted_metrics r))"
  by (simp add: sorted_metrics_def)

lemma strict_sorted_metrics:
  assumes "wf_registry r"
  shows "sorted_wrt (<) (map metric_name (sorted_metrics r))"
proof -
  have "mset (map metric_name (sorted_metrics r)) = mset (map metric_name (registry_list r))"
    by (simp add: mset_map)
  then have "distinct (map metric_name (sorted_metrics r))"
    using wf_registry_distinct [OF assms] by (metis mset_eq_imp_distinct_iff)
  with sorted_sorted_metrics show ?thesis by (simp add: strict_sorted_iff)
qed

lemma sorted_metrics_unique:
  assumes "wf_registry r" "mset (metrics r') = mset (metrics r)"
  shows "sorted_metrics r' = sorted_metrics r"
proof -
  have "mset (registry_list r) = mset (registry_list r')"
    using assms(2) by (simp add: registry_list_def mset_map)
  moreover have "inj_on metric_name (set (registry_list r'))"
    using wf_registry_distinct [OF assms(1)] calculation
    by (metis distinct_map mset_eq_setD)
  ultimately show ?thesis
    unfolding sorted_metrics_def [of r']
    by (intro sort_key_inj_key_eq) (simp_all add: sorted_sorted_metrics)
qed

lemma registry_list_find:
  assumes "wf_registry r"
  shows "m \<in> set (registry_list r) \<longleftrightarrow> registry_find r (metric_name m) = Some m"
proof
  assume "m \<in> set (registry_list r)"
  then obtain k where k: "(k, m) \<in> set (metrics r)" by (auto simp: registry_list_def)
  with assms have "metric_name m = k" unfolding wf_registry_def list_all_iff by blast
  with assms k show "registry_find r (metric_name m) = Some m"
    by (simp add: registry_find_def wf_registry_def)
next
  assume "registry_find r (metric_name m) = Some m"
  then have "(metric_name m, m) \<in> set (metrics r)"
    by (simp add: registry_find_def map_of_SomeD)
  then show "m \<in> set (registry_list r)" by (force simp: registry_list_def)
qed

subsection \<open>Properties\<close>

text \<open>The exposition is a function of the contents of the registry: two registries that answer
  every lookup alike render to the same text, in whatever order their hash maps hold the entries.\<close>

lemma render_ignores_hash_order:
  assumes "wf_registry r" "wf_registry r'" "registry_find r = registry_find r'"
  shows "renderPrometheusText r include_metadata = renderPrometheusText r' include_metadata"
proof -
  have keys: "distinct (map fst (metrics r))" "distinct (map fst (metrics r'))"
    using assms(1,2) by (simp_all add: wf_registry_def)
  then have distinct: "distinct (metrics r)" "distinct (metrics r')" by (simp_all add: distinct_map)
  have "map_of (metrics r) = map_of (metrics r')"
    using assms(3) by (simp add: registry_find_def fun_eq_iff)
  then have "set (metrics r) = set (metrics r')" by (simp only: map_of_inject_set [OF keys])
  then have "mset (metrics r) = mset (metrics r')" using distinct by (simp add: set_eq_iff_mset_eq_distinct)
  then show ?thesis
    using sorted_metrics_unique [OF assms(2), of r] by (simp add: renderPrometheusText_def)
qed

end
