(* ===== verification/Prom_Text.thy ===== *)
theory Prom_Text
  imports Registry
begin

section \<open>Parsing and merging Prometheus text (prometheus_text.cpp)\<close>

text \<open>
  \<^verbatim>\<open>parsePrometheusText\<close> reads the text line by line and keeps the types and the help texts it
  has seen; the first sample line it cannot read ends the parse with an error.
  \<^verbatim>\<open>mergePrometheusText\<close> upserts the parsed samples, or nothing when the parse failed.
\<close>

definition isNameChar :: "char \<Rightarrow> bool" where
  "isNameChar c \<longleftrightarrow> isalnum c \<or> c = CHR ''_'' \<or> c = CHR '':''"

definition parseSampleLine :: "string \<Rightarrow> string + MetricSpec" where
  "parseSampleLine line =
     (let name = takeWhile isNameChar line; rest = dropWhile isNameChar line
      in if name = [] then Inl ''missing metric name''
         else case (if rest \<noteq> [] \<and> hd rest = CHR ''{''
                    then (case split_at CHR ''}'' (tl rest) of
                            None \<Rightarrow> None
                          | Some (labels, after) \<Rightarrow> Some (labels, after))
                    else Some ([], rest)) of
           None \<Rightarrow> Inl ''unclosed label set''
         | Some (labels, after) \<Rightarrow>
             (let value = dropWhile isspace after
              in if value = [] then Inl ''missing sample value''
                 else case stod (takeWhile nonspace value) of
                   Inl e \<Rightarrow> Inl ''invalid sample value''
                 | Inr v \<Rightarrow> Inr (empty_spec\<lparr>spec_name := name, spec_labels := labels, spec_value := v\<rparr>)))"

record prom_state =
  ps_types :: "string \<rightharpoonup> string"
  ps_helps :: "string \<rightharpoonup> string"
  ps_out :: "MetricSpec list"

definition prom_init :: prom_state where
  "prom_init = \<lparr>ps_types = Map.empty, ps_helps = Map.empty, ps_out = []\<rparr>"

text \<open>The type and help of a sample: \<^verbatim>\<open>gauge\<close> when its type is not known or not supported.\<close>

definition complete_spec :: "prom_state \<Rightarrow> MetricSpec \<Rightarrow> MetricSpec" where
  "complete_spec st spec =
     (let type = (case ps_types st (spec_name spec) of Some t \<Rightarrow> t | None \<Rightarrow> ''gauge'');
          type' = (if parseMetricType type = Unknown then ''gauge'' else type);
          help = (case ps_helps st (spec_name spec) of Some h \<Rightarrow> h | None \<Rightarrow> spec_help spec)
      in spec\<lparr>spec_type := type', spec_help := help\<rparr>)"

definition prom_line :: "string \<Rightarrow> prom_state \<Rightarrow> string + prom_state" where
  "prom_line raw st =
     (let line = trim (pop_cr raw)
      in if line = [] then Inr st
         else if starts_with ''# HELP '' line then
           (case split_at CHR '' '' (trim (drop 7 line)) of
              None \<Rightarrow> Inr st
            | Some (name, help) \<Rightarrow> Inr (st\<lparr>ps_helps := (ps_helps st)(name \<mapsto> trim help)\<rparr>))
         else if starts_with ''# TYPE '' line then
           (case next_token (trim (drop 7 line)) of
              None \<Rightarrow> Inr st
            | Some (name, r) \<Rightarrow>
                (case next_token r of
                   None \<Rightarrow> Inr st
                 | Some (type, r') \<Rightarrow> Inr (st\<lparr>ps_types := (ps_types st)(name \<mapsto> type)\<rparr>)))
         else if hd line = CHR ''#'' then Inr st
         else case parseSampleLine line of
           Inl e \<Rightarrow> Inl e
         | Inr spec \<Rightarrow> Inr (st\<lparr>ps_out := ps_out st @ [complete_spec st spec]\<rparr>))"

text \<open>The loop: the error that stopped it, if any, and the state it left.\<close>

fun prom_loop :: "string list \<Rightarrow> prom_state \<Rightarrow> string option \<times> prom_state" where
  "prom_loop [] st = (None, st)"
| "prom_loop (l # ls) st =
     (case prom_line l st of Inl e \<Rightarrow> (Some e, st) | Inr st' \<Rightarrow> prom_loop ls st')"

text \<open>The result: success, the samples (those before the error on failure), and the error text.\<close>

definition parsePrometheusText :: "string \<Rightarrow> bool \<times> MetricSpec list \<times> string" where
  "parsePrometheusText text =
     (case prom_loop (text_lines text) prom_init of
        (None, st) \<Rightarrow> (True, ps_out st, [])
      | (Some e, st) \<Rightarrow> (False, ps_out st, e))"

text \<open>Upsert each sample in turn and count the accepted ones.\<close>

fun upsert_all :: "MetricSpec list \<Rightarrow> nat \<Rightarrow> MetricRegistry \<Rightarrow> nat \<times> MetricRegistry" where
  "upsert_all [] merged r = (merged, r)"
| "upsert_all (spec # specs) merged r =
     (let (ok, r') = upsert r spec in upsert_all specs (if ok then Suc merged else merged) r')"

definition mergePrometheusText :: "MetricRegistry \<Rightarrow> string \<Rightarrow> nat \<times> MetricRegistry \<times> string" where
  "mergePrometheusText r text =
     (case parsePrometheusText text of
        (False, specs, error) \<Rightarrow> (0, r, error)
      | (True, specs, error) \<Rightarrow> (let (merged, r') = upsert_all specs 0 r in (merged, r', error)))"

subsection \<open>Every sample is a usable specification\<close>

lemma isNameChar_nonspace [simp, char_simps]: "isNameChar c \<Longrightarrow> nonspace c"
  by (auto simp: isNameChar_def isspace_def isalnum_def Let_def)

lemma parseMetricType_gauge [simp]: "parseMetricType ''gauge'' = Gauge"
  by (simp add: parseMetricType_def lowerCopy_def tolower_def)

lemma parseMetricType_toString [simp]: "parseMetricType (toString t) = t"
  by (cases t) (simp_all add: parseMetricType_def lowerCopy_def tolower_def)

lemma parseSampleLine_name:
  "parseSampleLine line = Inr spec \<Longrightarrow> spec_name spec \<noteq> [] \<and> list_all isNameChar (spec_name spec)"
  by (auto simp: parseSampleLine_def Let_def simp del: takeWhile_eq_Nil_iff
      split: if_splits option.splits sum.splits)

lemma complete_spec_accepted:
  "spec_name spec \<noteq> [] \<Longrightarrow> accepted_spec (complete_spec st spec)"
  by (simp add: complete_spec_def accepted_spec_def Let_def)

lemma parseSampleLine_wf: "parseSampleLine line = Inr spec \<Longrightarrow> wf_spec spec"
  by (auto simp: parseSampleLine_def Let_def wf_spec_def empty_spec_def simp del: takeWhile_eq_Nil_iff
      dest!: stod_wf split: if_splits option.splits sum.splits)

lemma complete_spec_wf [simp]: "wf_spec (complete_spec st spec) = wf_spec spec"
  by (simp add: complete_spec_def wf_spec_def Let_def)

lemma prom_line_out:
  assumes "prom_line l st = Inr st'"
  shows "ps_out st' = ps_out st \<or> (\<exists>spec. ps_out st' = ps_out st @ [spec] \<and> accepted_spec spec \<and> wf_spec spec)"
proof -
  have "accepted_spec (complete_spec st spec) \<and> wf_spec (complete_spec st spec)"
    if "parseSampleLine line = Inr spec" for line spec
    using parseSampleLine_name [OF that] parseSampleLine_wf [OF that] by (simp add: complete_spec_accepted)
  with assms show ?thesis
    by (auto simp: prom_line_def Let_def split: if_splits option.splits sum.splits)
qed

lemma prom_loop_sound:
  "prom_loop ls st = (e, st') \<Longrightarrow> list_all (\<lambda>s. accepted_spec s \<and> wf_spec s) (ps_out st) \<Longrightarrow>
     list_all (\<lambda>s. accepted_spec s \<and> wf_spec s) (ps_out st')"
proof (induction ls arbitrary: st)
  case Nil
  then show ?case by simp
next
  case (Cons l ls)
  then show ?case
    by (auto split: sum.splits dest!: prom_line_out Cons.IH)
qed

lemma parse_sound:
  "parsePrometheusText text = (ok, specs, error) \<Longrightarrow> list_all (\<lambda>s. accepted_spec s \<and> wf_spec s) specs"
  using prom_loop_sound [of "text_lines text" prom_init]
  by (auto simp: parsePrometheusText_def prom_init_def split: prod.splits option.splits)

lemma parse_accepted: "parsePrometheusText text = (ok, specs, error) \<Longrightarrow> list_all accepted_spec specs"
  by (drule parse_sound) (simp add: list_all_iff)

lemma parse_wf: "parsePrometheusText text = (ok, specs, error) \<Longrightarrow> list_all wf_spec specs"
  by (drule parse_sound) (simp add: list_all_iff)

lemma parse_error_iff:
  "parsePrometheusText text = (ok, specs, error) \<Longrightarrow> ok \<longleftrightarrow> error = []"
proof -
  have err: "e \<noteq> []" if "parseSampleLine line = Inl e" for line e
    using that by (auto simp: parseSampleLine_def Let_def split: if_splits option.splits sum.splits)
  have "e \<noteq> []" if "prom_loop ls st = (Some e, st')" for ls st e st'
    using that
  proof (induction ls arbitrary: st)
    case (Cons l ls)
    then show ?case
      by (auto simp: prom_line_def Let_def dest: err split: sum.splits if_splits option.splits)
  qed simp
  then show "parsePrometheusText text = (ok, specs, error) \<Longrightarrow> ok \<longleftrightarrow> error = []"
    by (auto simp: parsePrometheusText_def split: prod.splits option.splits)
qed

lemma upsert_all_accepted:
  "list_all accepted_spec specs \<Longrightarrow>
   upsert_all specs n r = (n + length specs, fold (\<lambda>spec r. snd (upsert r spec)) specs r)"
  by (induction specs arbitrary: n r) (auto simp: registry.store_iff case_prod_beta)

lemma upsert_all_wf: "wf_registry r \<Longrightarrow> list_all wf_spec specs \<Longrightarrow> wf_registry (snd (upsert_all specs n r))"
  by (induction specs arbitrary: n r) (auto simp: case_prod_beta wf_upsert)

lemma merge_wf: "wf_registry r \<Longrightarrow> wf_registry (fst (snd (mergePrometheusText r text)))"
  by (cases "parsePrometheusText text") (auto simp: mergePrometheusText_def case_prod_beta Let_def
      intro: upsert_all_wf dest!: parse_wf split: bool.splits)

lemma merge_eq:
  assumes "parsePrometheusText text = (ok, specs, error)"
  shows "mergePrometheusText r text =
    (if ok then (length specs, fold (\<lambda>spec r. snd (upsert r spec)) specs r, error) else (0, r, error))"
  using upsert_all_accepted [OF parse_accepted [OF assms], of 0 r]
  by (cases ok) (simp_all add: mergePrometheusText_def assms)

subsection \<open>Properties\<close>

text \<open>A merge is all or nothing. When a sample line cannot be read the registry is unchanged,
  nothing is counted and an error text is returned; otherwise every parsed sample has been
  upserted, in order, and the count is their number.\<close>

lemma merge_all_or_nothing:
  "mergePrometheusText r text =
     (case parsePrometheusText text of
        (ok, specs, error) \<Rightarrow>
          if ok then (length specs, fold (\<lambda>spec r. snd (upsert r spec)) specs r, [])
          else (0, r, error)) \<and>
   (fst (parsePrometheusText text) \<longleftrightarrow> snd (snd (parsePrometheusText text)) = [])"
proof -
  obtain ok specs error where p: "parsePrometheusText text = (ok, specs, error)" by (metis prod_cases3)
  from merge_eq [OF p, of r] parse_error_iff [OF p] show ?thesis by (cases ok) (simp_all add: p)
qed

end
