(* ===== verification/Federation.thy ===== *)
theory Federation
  imports Exposition Prom_Text
begin

section \<open>Scraping an exposition\<close>

text \<open>
  One daemon's \<^verbatim>\<open>/metrics\<close> is another daemon's scrape target: \<^verbatim>\<open>parsePrometheusText\<close> reads
  what \<^verbatim>\<open>renderPrometheusText\<close> writes. This theory runs the parser over the rendered text of
  a registry whose names, labels and helps can be told apart from the syntax
  (\<open>scrape_safe\<close>) and computes the samples it yields (\<open>scraped_specs\<close>): one per counter
  and gauge, with its type, help, labels and its value as six digits can tell it; for a histogram
  one gauge per bucket, one for the sum and one for the count.
\<close>

subsection \<open>What a scrape of a metric yields\<close>

definition reread_value :: "double \<Rightarrow> double" where
  "reread_value v = (case reread v of Inr w \<Rightarrow> w | Inl e \<Rightarrow> v)"

definition readable :: "double \<Rightarrow> bool" where
  "readable v \<longleftrightarrow> (case reread v of Inr w \<Rightarrow> True | Inl e \<Rightarrow> False)"

definition series :: "string \<Rightarrow> string \<Rightarrow> string \<Rightarrow> string \<Rightarrow> double \<Rightarrow> MetricSpec" where
  "series name type help labels v =
     \<lparr>spec_name = name, spec_type = type, spec_help = help, spec_value = v, spec_labels = labels,
      spec_buckets = []\<rparr>"

definition u64_value :: "64 word \<Rightarrow> double" where
  "u64_value n = double_of_int (uint n)"

fun scraped_specs :: "Metric \<Rightarrow> MetricSpec list" where
  "scraped_specs (HistogramObj h) =
     map2 (\<lambda>b n. series (h_name h @ ''_bucket'') ''gauge'' []
                   (joinBaseLabels (h_labels h) (le_label (show_double b))) (u64_value n))
       (h_bounds h) (h_counts h) @
     [series (h_name h @ ''_bucket'') ''gauge'' [] (joinBaseLabels (h_labels h) (le_label ''+Inf''))
        (u64_value (h_count h)),
      series (h_name h @ ''_sum'') ''gauge'' [] (h_labels h) (reread_value (h_sum h)),
      series (h_name h @ ''_count'') ''gauge'' [] (h_labels h) (u64_value (h_count h))]"
| "scraped_specs m =
     [series (metric_name m) (toString (metric_type m)) (metric_help m) (metric_labels m)
        (reread_value (metric_value m))]"

text \<open>
  A metric whose text the parser takes apart where the renderer put it together: the name is a
  metric name, the labels hold no closing brace, the help is one trimmed line, and its printed
  value (for a histogram, its sum) is in the range of \<^verbatim>\<open>std::stod\<close>.
\<close>

definition exposed_value :: "Metric \<Rightarrow> double" where
  "exposed_value m = (case m of HistogramObj h \<Rightarrow> h_sum h | _ \<Rightarrow> metric_value m)"

definition scrape_safe :: "Metric \<Rightarrow> bool" where
  "scrape_safe m \<longleftrightarrow>
     metric_name m \<noteq> [] \<and> list_all isNameChar (metric_name m) \<and>
     CHR ''}'' \<notin> set (metric_labels m) \<and> newline \<notin> set (metric_labels m) \<and>
     trimmed (metric_help m) \<and> newline \<notin> set (metric_help m) \<and>
     readable (exposed_value m)"

subsection \<open>Single lines\<close>

lemma isNameChar_clean [char_simps]:
  assumes "isNameChar c"
  shows "nonspace c" "c \<noteq> CHR ''#''" "c \<noteq> CHR ''{''" "c \<noteq> newline" "c \<noteq> CHR '' ''"
  using assms by (auto simp: isNameChar_def isalnum_def isspace_def Let_def)

lemma takeWhile_name:
  "list_all isNameChar name \<Longrightarrow> r = [] \<or> \<not> isNameChar (hd r) \<Longrightarrow>
     takeWhile isNameChar (name @ r) = name \<and> dropWhile isNameChar (name @ r) = r"
  by (cases r) (auto simp: takeWhile_append2 dropWhile_append2 list_all_iff)

lemma not_isNameChar [simp]: "\<not> isNameChar CHR ''{''" "\<not> isNameChar CHR '' ''"
  by (simp_all add: isNameChar_def isalnum_def)

lemma parseSampleLine_series:
  assumes name: "name \<noteq> []" "list_all isNameChar name"
    and labels: "CHR ''}'' \<notin> set labels"
    and vt: "vt \<noteq> []" "\<forall>c \<in> set vt. nonspace c" "stod vt = Inr v"
  shows "parseSampleLine (name @ braced labels @ '' '' @ vt) =
    Inr (empty_spec\<lparr>spec_name := name, spec_labels := labels, spec_value := v\<rparr>)"
proof -
  define rest where "rest = braced labels @ '' '' @ vt"
  have "rest = [] \<or> \<not> isNameChar (hd rest)" by (simp add: rest_def braced_def)
  note tw = takeWhile_name [OF name(2) this]
  have dv: "dropWhile isspace (CHR '' '' # vt) = vt" "takeWhile nonspace vt = vt"
    using vt(1,2) by (cases vt; simp)+
  have part: "(if rest \<noteq> [] \<and> hd rest = CHR ''{''
      then (case split_at CHR ''}'' (tl rest) of None \<Rightarrow> None | Some (l, after) \<Rightarrow> Some (l, after))
      else Some ([], rest)) = Some (labels, CHR '' '' # vt)"
    using split_at_append [OF labels, of "CHR '' '' # vt"] by (simp add: rest_def braced_def)
  show ?thesis
    unfolding parseSampleLine_def rest_def [symmetric] tw [THEN conjunct1] tw [THEN conjunct2] Let_def part
    using name(1) vt by (simp add: dv)
qed

lemma trimmed_append: "a \<noteq> [] \<Longrightarrow> b \<noteq> [] \<Longrightarrow> nonspace (hd a) \<Longrightarrow> nonspace (last b) \<Longrightarrow> trimmed (a @ c @ b)"
  by (simp add: trimmed_def)

lemma prom_line_trimmed:
  "trimmed l \<Longrightarrow> trim (pop_cr l) = l"
  by simp

definition sample_spec :: "string \<Rightarrow> string \<Rightarrow> double \<Rightarrow> MetricSpec" where
  "sample_spec name labels v = empty_spec\<lparr>spec_name := name, spec_labels := labels, spec_value := v\<rparr>"

lemma prom_line_series:
  assumes name: "name \<noteq> []" "list_all isNameChar name"
    and labels: "CHR ''}'' \<notin> set labels"
    and vt: "vt \<noteq> []" "\<forall>c \<in> set vt. nonspace c" "stod vt = Inr v"
  shows "prom_line (name @ braced labels @ '' '' @ vt) st =
    Inr (st\<lparr>ps_out := ps_out st @ [complete_spec st (sample_spec name labels v)]\<rparr>)"
proof -
  define l where "l = name @ braced labels @ '' '' @ vt"
  obtain c n where cn: "name = c # n" using name(1) by (cases name) auto
  with name(2) have c: "isNameChar c" by simp
  then have "nonspace (hd name)" "c \<noteq> CHR ''#''" by (simp_all add: cn isNameChar_clean)
  moreover have "nonspace (last vt)" using vt(1,2) by simp
  ultimately have "trimmed l" using trimmed_append [OF name(1) vt(1), where c = "braced labels @ '' ''"] by (simp add: l_def)
  then have tr: "trim (pop_cr l) = l" by simp
  have hd: "l \<noteq> []" "hd l \<noteq> CHR ''#''" "\<not> starts_with ''# HELP '' l" "\<not> starts_with ''# TYPE '' l"
    using \<open>c \<noteq> CHR ''#''\<close> by (auto simp: l_def cn)
  show ?thesis
    using parseSampleLine_series [OF assms] hd
    unfolding prom_line_def l_def [symmetric] tr Let_def by (simp add: sample_spec_def)
qed

lemma prom_line_help:
  assumes name: "name \<noteq> []" "list_all isNameChar name" and hlp: "help \<noteq> []" "trimmed help"
  shows "prom_line (''# HELP '' @ name @ '' '' @ help) st = Inr (st\<lparr>ps_helps := (ps_helps st)(name \<mapsto> help)\<rparr>)"
proof -
  define l where "l = ''# HELP '' @ name @ '' '' @ help"
  have nsp: "CHR '' '' \<notin> set name" using name(2) by (auto simp: list_all_iff dest: isNameChar_clean(5))
  have hdn: "nonspace (hd name)" using name by (cases name) (auto simp: isNameChar_clean)
  have hl: "nonspace (last help)" using hlp by (simp add: trimmed_def)
  have "trimmed (name @ '' '' @ help)" using trimmed_append [OF name(1) hlp(1) hdn hl, where c = "'' ''"] by simp
  then have r: "trim (drop 7 l) = name @ CHR '' '' # help" by (simp add: l_def)
  have "trimmed l"
    using trimmed_append [of "''#''" "help" "'' HELP '' @ name @ '' ''"] hlp(1) hl by (simp add: l_def isspace_def)
  then have tr: "trim (pop_cr l) = l" by simp
  have "split_at CHR '' '' (name @ CHR '' '' # help) = Some (name, help)" using nsp by (rule split_at_append)
  then show ?thesis
    using hlp(2) unfolding prom_line_def l_def [symmetric] tr Let_def r by (simp add: l_def)
qed

lemma prom_line_type:
  assumes name: "name \<noteq> []" "list_all isNameChar name" and tok: "type \<noteq> []" "list_all nonspace type"
  shows "prom_line (''# TYPE '' @ name @ '' '' @ type) st = Inr (st\<lparr>ps_types := (ps_types st)(name \<mapsto> type)\<rparr>)"
proof -
  define l where "l = ''# TYPE '' @ name @ '' '' @ type"
  have sp: "\<forall>c \<in> set name. nonspace c" "\<forall>c \<in> set type. nonspace c"
    using name(2) tok(2) by (auto simp: list_all_iff isNameChar_clean)
  have hdn: "nonspace (hd name)" and hl: "nonspace (last type)" using name(1) tok(1) sp by simp_all
  have "trimmed (name @ '' '' @ type)" using trimmed_append [OF name(1) tok(1) hdn hl, where c = "'' ''"] by simp
  then have r: "trim (drop 7 l) = name @ CHR '' '' # type" by (simp add: l_def)
  have "trimmed l"
    using trimmed_append [of "''#''" "type" "'' TYPE '' @ name @ '' ''"] tok(1) hl by (simp add: l_def isspace_def)
  then have tr: "trim (pop_cr l) = l" by simp
  have "next_token (name @ CHR '' '' # type) = Some (name, CHR '' '' # type)"
    using name(1) sp(1) by (intro next_token_word) auto
  moreover have "next_token (CHR '' '' # type) = Some (type, [])"
    using next_token_word [of type "[]"] tok(1) sp(2) by simp
  ultimately show ?thesis
    unfolding prom_line_def l_def [symmetric] tr Let_def r by (simp add: l_def)
qed


subsection \<open>The lines of a metric\<close>

text \<open>The parser goes over the lines without an error, from one state to another.\<close>

definition prom_reads :: "string list \<Rightarrow> prom_state \<Rightarrow> prom_state \<Rightarrow> bool" where
  "prom_reads ls st st' \<longleftrightarrow> (\<forall>rest. prom_loop (ls @ rest) st = prom_loop rest st')"

lemma prom_reads_Nil [scan_simps]: "prom_reads [] st st"
  by (simp add: prom_reads_def)

lemma prom_reads_one: "prom_line l st = Inr st' \<Longrightarrow> prom_reads [l] st st'"
  by (simp add: prom_reads_def)

lemma prom_reads_append: "prom_reads ls st st1 \<Longrightarrow> prom_reads ls' st1 st2 \<Longrightarrow> prom_reads (ls @ ls') st st2"
  by (simp add: prom_reads_def)

definition emit :: "prom_state \<Rightarrow> MetricSpec list \<Rightarrow> prom_state" where
  "emit st specs = st\<lparr>ps_out := ps_out st @ specs\<rparr>"

lemma emit_simps [simp]:
  "ps_types (emit st specs) = ps_types st" "ps_helps (emit st specs) = ps_helps st"
  "ps_out (emit st specs) = ps_out st @ specs" "emit (emit st specs) specs' = emit st (specs @ specs')"
  "emit st [] = st"
  by (simp_all add: emit_def)

lemma emit_update_types [simp]: "(emit st specs)\<lparr>ps_types := t\<rparr> = emit (st\<lparr>ps_types := t\<rparr>) specs"
  by (simp add: emit_def)

lemma complete_spec_cong: "ps_types st = ps_types st' \<Longrightarrow> ps_helps st = ps_helps st' \<Longrightarrow>
    complete_spec st spec = complete_spec st' spec"
  by (simp add: complete_spec_def)

lemma prom_reads_series:
  assumes "name \<noteq> []" "list_all isNameChar name" "CHR ''}'' \<notin> set labels"
    and "vt \<noteq> []" "\<forall>c \<in> set vt. nonspace c" "stod vt = Inr v"
    and "complete_spec st (sample_spec name labels v) = s"
  shows "prom_reads [name @ braced labels @ '' '' @ vt] st (emit st [s])"
  using prom_line_series [OF assms(1-6), of st] assms(7) by (simp add: prom_reads_one emit_def)

text \<open>A series whose name no HELP or TYPE line has announced becomes a gauge without help.\<close>

lemma complete_unannounced:
  "ps_types st name = None \<Longrightarrow> ps_helps st name = None \<Longrightarrow>
     complete_spec st (sample_spec name labels v) = series name ''gauge'' [] labels v"
  by (simp add: complete_spec_def sample_spec_def series_def empty_spec_def)

lemma complete_announced:
  "ps_types st name = Some (toString t) \<Longrightarrow> t \<noteq> Unknown \<Longrightarrow>
     (if help = [] then ps_helps st name = None else ps_helps st name = Some help) \<Longrightarrow>
     complete_spec st (sample_spec name labels v) = series name (toString t) help labels v"
  by (auto simp: complete_spec_def sample_spec_def series_def empty_spec_def split: if_splits)

lemma show_mag_not_Nil: "show_mag m \<noteq> []"
  by (cases "g6 m") (auto simp: show_mag_def fixed_str_def Let_def nat_add_distrib)

lemma show_double_not_Nil: "show_double v \<noteq> []"
  by (cases v) (simp_all add: show_mag_not_Nil)

lemma braces_not_number: "\<not> number_char CHR ''}''" "\<not> number_char newline"
  by (simp_all add: number_char_def isdigit_def)

lemma show_double_text [scan_simps]:
  "show_double v \<noteq> []" "\<forall>c \<in> set (show_double v). nonspace c"
  "CHR ''}'' \<notin> set (show_double v)" "newline \<notin> set (show_double v)"
  using show_double_not_Nil number_char_clean(1) [OF show_double_number] braces_not_number
  by (auto dest: show_double_number)

lemma show_u64_text [scan_simps]:
  "show_u64 n \<noteq> []" "\<forall>c \<in> set (show_u64 n). nonspace c" "newline \<notin> set (show_u64 n)"
  "stod (show_u64 n) = Inr (u64_value n)"
proof -
  have num: "number_char c" if "c \<in> set (show_u64 n)" for c
    using that show_nat_chars [of "unat n"] by (simp add: show_u64_def list_all_iff)
  show "show_u64 n \<noteq> []" by (simp add: show_u64_def)
  show "\<forall>c \<in> set (show_u64 n). nonspace c" using num number_char_clean(1) by blast
  show "newline \<notin> set (show_u64 n)" using num braces_not_number by blast
  have "unat n \<le> 2 ^ 64" using unsigned_less [of n, where ?'a = nat] by simp
  then show "stod (show_u64 n) = Inr (u64_value n)"
    by (simp only: show_u64_def u64_value_def stod_show_nat uint_nat)
qed

lemma prom_reads_double:
  assumes "name \<noteq> []" "list_all isNameChar name" "CHR ''}'' \<notin> set labels"
    and "wf_double v" "readable v"
    and "complete_spec st (sample_spec name labels (reread_value v)) = s"
  shows "prom_reads [name @ braced labels @ '' '' @ show_double v] st (emit st [s])"
proof (rule prom_reads_series [OF assms(1-3) _ _ _ assms(6)])
  show "stod (show_double v) = Inr (reread_value v)"
    using assms(4,5) by (simp add: stod_show_double readable_def reread_value_def split: sum.splits)
qed (simp_all add: show_double_text)

lemma prom_reads_count:
  assumes "name \<noteq> []" "list_all isNameChar name" "CHR ''}'' \<notin> set labels"
    and "complete_spec st (sample_spec name labels (u64_value n)) = s"
  shows "prom_reads [name @ braced labels @ '' '' @ show_u64 n] st (emit st [s])"
  by (rule prom_reads_series [OF assms(1-3) _ _ _ assms(4)]) (simp_all add: show_u64_text)

text \<open>The HELP and TYPE lines announce a metric.\<close>

definition announce :: "prom_state \<Rightarrow> string \<Rightarrow> string \<Rightarrow> string \<Rightarrow> prom_state" where
  "announce st name help type =
     st\<lparr>ps_helps := (if help = [] then ps_helps st else (ps_helps st)(name \<mapsto> help)),
        ps_types := (ps_types st)(name \<mapsto> type)\<rparr>"

definition meta_lines :: "string \<Rightarrow> string \<Rightarrow> string \<Rightarrow> string list" where
  "meta_lines name help type =
     (if help \<noteq> [] then [''# HELP '' @ name @ '' '' @ help] else []) @ [''# TYPE '' @ name @ '' '' @ type]"

lemma prom_reads_meta:
  assumes "name \<noteq> []" "list_all isNameChar name" "trimmed help" "type \<noteq> []" "list_all nonspace type"
  shows "prom_reads (meta_lines name help type) st (announce st name help type)"
proof -
  have tl: "prom_reads [''# TYPE '' @ name @ '' '' @ type] st' (st'\<lparr>ps_types := (ps_types st')(name \<mapsto> type)\<rparr>)" for st'
    using prom_line_type [OF assms(1,2,4,5)] by (rule prom_reads_one)
  show ?thesis
  proof (cases "help = []")
    case True
    then show ?thesis using tl [of st] by (simp add: meta_lines_def announce_def)
  next
    case False
    have "prom_reads [''# HELP '' @ name @ '' '' @ help] st (st\<lparr>ps_helps := (ps_helps st)(name \<mapsto> help)\<rparr>)"
      using prom_line_help [OF assms(1,2) False assms(3)] by (rule prom_reads_one)
    from prom_reads_append [OF this tl] False show ?thesis by (simp add: meta_lines_def announce_def)
  qed
qed

text \<open>
  Before a metric is written, only smaller names have been announced. The names a histogram
  derives from its own are larger and not announced.
\<close>

definition announced_below :: "string \<Rightarrow> prom_state \<Rightarrow> bool" where
  "announced_below name st \<longleftrightarrow> dom (ps_types st) \<union> dom (ps_helps st) \<subseteq> {n. n < name}"

lemma announced_below_None:
  assumes "announced_below name st" "\<not> n < name"
  shows "ps_types st n = None" "ps_helps st n = None"
  using assms by (auto simp: announced_below_def)

lemma announced_below_emit [simp]: "announced_below name (emit st specs) = announced_below name st"
  by (simp add: announced_below_def)

lemma announced_below_announce:
  "announced_below name st \<Longrightarrow> name < name' \<Longrightarrow> announced_below name' (announce st name help type)"
  by (auto simp: announced_below_def announce_def)

lemma append_greater: "b \<noteq> [] \<Longrightarrow> \<not> (a @ b) < (a :: string) \<and> a @ b \<noteq> a"
  by (induction a) auto

lemma announce_derived:
  assumes "announced_below name st" "suffix \<noteq> []"
  shows "ps_types (announce st name help type) (name @ suffix) = None"
    and "ps_helps (announce st name help type) (name @ suffix) = None"
  using announced_below_None [OF assms(1), of "name @ suffix"] append_greater [OF assms(2), of name]
  by (simp_all add: announce_def)

lemma announce_own:
  assumes "announced_below name st"
  shows "ps_types (announce st name help type) name = Some type"
    and "if help = [] then ps_helps (announce st name help type) name = None
         else ps_helps (announce st name help type) name = Some help"
  using announced_below_None [OF assms, of name] by (simp_all add: announce_def)

lemma metric_lines_split:
  "metric_lines m True = meta_lines (metric_name m) (metric_help m) (toString (metric_type m)) @ metric_lines m False"
  by (cases m) (simp_all add: meta_lines_def Histogram_lines_def)

lemma metric_type_known: "metric_type m \<noteq> Unknown"
  by (cases m) simp_all

lemma toString_token: "toString t \<noteq> [] \<and> list_all nonspace (toString t)"
  by (cases t) (simp_all add: isspace_def)

lemma braced_le: "''{'' @ joinBaseLabels ls (le_label b) @ ''} '' @ r = braced (joinBaseLabels ls (le_label b)) @ '' '' @ r"
  by (simp add: braced_def joinBaseLabels_def le_label_def)

lemma joined_labels_clean:
  "CHR ''}'' \<notin> set ls \<Longrightarrow> CHR ''}'' \<notin> set b \<Longrightarrow> CHR ''}'' \<notin> set (joinBaseLabels ls (le_label b))"
  by (simp add: joinBaseLabels_def le_label_def)

lemma unannounced_count:
  assumes "name \<noteq> []" "list_all isNameChar name" "CHR ''}'' \<notin> set labels"
    and "ps_types st name = None" "ps_helps st name = None"
  shows "prom_reads [name @ braced labels @ '' '' @ show_u64 n] st
    (emit st [series name ''gauge'' [] labels (u64_value n)])"
  by (rule prom_reads_count [OF assms(1-3)]) (rule complete_unannounced [OF assms(4,5)])

lemma prom_reads_buckets:
  assumes "list_all isNameChar name" "name \<noteq> []" "CHR ''}'' \<notin> set labels"
    and "ps_types st name = None" "ps_helps st name = None"
  shows "prom_reads
    (map2 (\<lambda>b n. name @ braced (joinBaseLabels labels (le_label (show_double b))) @ '' '' @ show_u64 n) bs ns) st
    (emit st (map2 (\<lambda>b n. series name ''gauge'' [] (joinBaseLabels labels (le_label (show_double b))) (u64_value n)) bs ns))"
  using assms(4,5)
proof (induction bs ns arbitrary: st rule: list_induct2')
  case (4 b bs n ns)
  have clean: "CHR ''}'' \<notin> set (joinBaseLabels labels (le_label (show_double b)))"
    using assms(3) show_double_text(3) by (rule joined_labels_clean)
  note one = unannounced_count [OF assms(2,1) clean "4.prems"]
  let ?st = "emit st [series name ''gauge'' [] (joinBaseLabels labels (le_label (show_double b))) (u64_value n)]"
  have "ps_types ?st name = None" "ps_helps ?st name = None" using "4.prems" by simp_all
  from prom_reads_append [OF one "4.IH" [OF this]] show ?case by simp
qed (simp_all add: prom_reads_Nil)

lemma suffix_names:
  "list_all isNameChar ''_bucket''" "list_all isNameChar ''_sum''" "list_all isNameChar ''_count''"
  by (simp_all add: isNameChar_def isalnum_def)

lemma Histogram_series_lines:
  "metric_lines (HistogramObj h) False =
     map2 (\<lambda>b n. (h_name h @ ''_bucket'') @ braced (joinBaseLabels (h_labels h) (le_label (show_double b))) @ '' '' @ show_u64 n)
       (h_bounds h) (h_counts h) @
     [(h_name h @ ''_bucket'') @ braced (joinBaseLabels (h_labels h) (le_label ''+Inf'')) @ '' '' @ show_u64 (h_count h)] @
     [(h_name h @ ''_sum'') @ braced (h_labels h) @ '' '' @ show_double (h_sum h)] @
     [(h_name h @ ''_count'') @ braced (h_labels h) @ '' '' @ show_u64 (h_count h)]"
proof -
  have b: "''_bucket{'' @ joinBaseLabels ls (le_label b) @ ''} '' @ r =
      ''_bucket'' @ braced (joinBaseLabels ls (le_label b)) @ '' '' @ r" for ls b r
    using braced_le [of ls b r] by simp
  show ?thesis unfolding metric_lines.simps Histogram_lines_def b by simp
qed

definition underived :: "string \<Rightarrow> prom_state \<Rightarrow> bool" where
  "underived name st \<longleftrightarrow> (\<forall>s. s \<noteq> [] \<longrightarrow> ps_types st (name @ s) = None \<and> ps_helps st (name @ s) = None)"

lemma underived_emit [simp]: "underived name (emit st specs) = underived name st"
  by (simp add: underived_def)

lemma underived_None:
  "underived name st \<Longrightarrow> s \<noteq> [] \<Longrightarrow> ps_types st (name @ s) = None"
  "underived name st \<Longrightarrow> s \<noteq> [] \<Longrightarrow> ps_helps st (name @ s) = None"
  by (simp_all add: underived_def)

lemma underived_announce: "announced_below name st \<Longrightarrow> underived name (announce st name help type)"
  by (simp add: underived_def announce_derived)

lemma prom_reads_histogram:
  assumes wf: "wf_metric (HistogramObj h)" and safe: "scrape_safe (HistogramObj h)"
    and new: "underived (h_name h) st"
  shows "prom_reads (metric_lines (HistogramObj h) False) st (emit st (scraped_specs (HistogramObj h)))"
proof -
  have nm: "list_all isNameChar (h_name h)" using safe by (simp add: scrape_safe_def)
  have name: "list_all isNameChar (h_name h @ ''_bucket'')" "list_all isNameChar (h_name h @ ''_sum'')"
      "list_all isNameChar (h_name h @ ''_count'')"
    by (simp_all only: list_all_append nm suffix_names simp_thms)
  have ls: "CHR ''}'' \<notin> set (h_labels h)" and rd: "readable (h_sum h)"
    using safe by (simp_all add: scrape_safe_def exposed_value_def)
  have inf: "CHR ''}'' \<notin> set (joinBaseLabels (h_labels h) (le_label ''+Inf''))"
    using ls by (rule joined_labels_clean) simp
  have neq: "h_name h @ x # xs \<noteq> []" for x xs by simp
  note none = underived_None [of "h_name h"]
  have wfs: "wf_double (h_sum h)" using wf by simp
  have bs: "prom_reads
     (map2 (\<lambda>b n. (h_name h @ ''_bucket'') @ braced (joinBaseLabels (h_labels h) (le_label (show_double b))) @ '' '' @ show_u64 n)
       bs ns) st (emit st (map2 (\<lambda>b n. series (h_name h @ ''_bucket'') ''gauge'' []
           (joinBaseLabels (h_labels h) (le_label (show_double b))) (u64_value n)) bs ns))"
    if "underived (h_name h) st" for st bs ns
    by (rule prom_reads_buckets [OF name(1) neq ls none(1) [OF that] none(2) [OF that]]) simp_all
  have inf: "prom_reads [(h_name h @ ''_bucket'') @ braced (joinBaseLabels (h_labels h) (le_label ''+Inf'')) @
         '' '' @ show_u64 n] st (emit st [series (h_name h @ ''_bucket'') ''gauge'' []
           (joinBaseLabels (h_labels h) (le_label ''+Inf'')) (u64_value n)])"
    if "underived (h_name h) st" for st n
    by (rule unannounced_count [OF neq name(1) inf none(1) [OF that] none(2) [OF that]]) simp_all
  have sm: "prom_reads [(h_name h @ ''_sum'') @ braced (h_labels h) @ '' '' @ show_double (h_sum h)] st
      (emit st [series (h_name h @ ''_sum'') ''gauge'' [] (h_labels h) (reread_value (h_sum h))])"
    if "underived (h_name h) st" for st
    by (rule prom_reads_double [OF neq name(2) ls wfs rd complete_unannounced
          [OF none(1) [OF that] none(2) [OF that]]]) simp_all
  have ct: "prom_reads [(h_name h @ ''_count'') @ braced (h_labels h) @ '' '' @ show_u64 n] st
      (emit st [series (h_name h @ ''_count'') ''gauge'' [] (h_labels h) (u64_value n)])"
    if "underived (h_name h) st" for st n
    by (rule unannounced_count [OF neq name(3) ls none(1) [OF that] none(2) [OF that]]) simp_all
  show ?thesis
    unfolding Histogram_series_lines scraped_specs.simps
    using prom_reads_append [OF bs prom_reads_append [OF inf prom_reads_append [OF sm ct]]] new by simp
qed

lemma prom_reads_metric:
  assumes wf: "wf_metric m" and safe: "scrape_safe m" and new: "announced_below (metric_name m) st"
  shows "prom_reads (metric_lines m True) st
    (emit (announce st (metric_name m) (metric_help m) (toString (metric_type m))) (scraped_specs m))"
proof -
  let ?st = "announce st (metric_name m) (metric_help m) (toString (metric_type m))"
  have meta: "prom_reads (meta_lines (metric_name m) (metric_help m) (toString (metric_type m))) st ?st"
    using safe toString_token by (intro prom_reads_meta) (simp_all add: scrape_safe_def)
  note own = complete_announced [OF announce_own(1) [OF new] metric_type_known announce_own(2) [OF new]]
  have scalar: "prom_reads [metric_name m @ braced (metric_labels m) @ '' '' @ show_double (metric_value m)] ?st
      (emit ?st [series (metric_name m) (toString (metric_type m)) (metric_help m) (metric_labels m)
         (reread_value (metric_value m))])"
    if "wf_double (metric_value m)" "readable (metric_value m)"
    using safe that by (intro prom_reads_double own) (simp_all add: scrape_safe_def)
  have "prom_reads (metric_lines m False) ?st (emit ?st (scraped_specs m))"
  proof (cases m)
    case (HistogramObj h)
    then show ?thesis
      using wf safe underived_announce [OF new] prom_reads_histogram by (simp del: metric_lines.simps scraped_specs.simps)
  qed (use scalar wf safe in \<open>simp_all add: scrape_safe_def exposed_value_def\<close>)
  from prom_reads_append [OF meta this] show ?thesis
    by (simp only: metric_lines_split)
qed

subsection \<open>The whole text\<close>

lemma prom_reads_metrics:
  assumes "\<forall>m \<in> set ms. wf_metric m \<and> scrape_safe m" "sorted_wrt (<) (map metric_name ms)"
    and "ms \<noteq> [] \<Longrightarrow> announced_below (metric_name (hd ms)) st"
  shows "\<exists>st'. prom_reads (concat (map (\<lambda>m. metric_lines m True) ms)) st st' \<and>
    ps_out st' = ps_out st @ concat (map scraped_specs ms)"
  using assms
proof (induction ms arbitrary: st)
  case Nil
  then show ?case using prom_reads_Nil by (auto intro!: exI [of _ st])
next
  case (Cons m ms)
  let ?st = "emit (announce st (metric_name m) (metric_help m) (toString (metric_type m))) (scraped_specs m)"
  have new: "announced_below (metric_name m) st" using Cons.prems(3) by simp
  have one: "prom_reads (metric_lines m True) st ?st"
    using Cons.prems(1) new by (intro prom_reads_metric) simp_all
  have "announced_below (metric_name (hd ms)) ?st" if "ms \<noteq> []"
    using that Cons.prems(2) new by (cases ms) (auto intro: announced_below_announce)
  with Cons obtain st' where st': "prom_reads (concat (map (\<lambda>m. metric_lines m True) ms)) ?st st'"
      "ps_out st' = ps_out ?st @ concat (map scraped_specs ms)" by fastforce
  moreover have "ps_out ?st = ps_out st @ scraped_specs m" by (simp add: announce_def)
  ultimately show ?case using prom_reads_append [OF one st'(1)] by (auto intro!: exI [of _ st'])
qed

lemma metric_lines_newline:
  assumes "scrape_safe m" "l \<in> set (metric_lines m True)"
  shows "newline \<notin> set l"
proof -
  have "newline \<notin> set (toString t)" for t by (cases t) simp_all
  moreover have "newline \<notin> set (metric_name m)"
    using assms(1) isNameChar_clean(4) by (auto simp: scrape_safe_def list_all_iff)
  ultimately show ?thesis
    using assms show_double_text(4) show_u64_text(3)
    by (cases m) (auto simp: scrape_safe_def Histogram_lines_def braced_def joinBaseLabels_def le_label_def
        in_set_zip split: if_splits)
qed

lemma parse_render:
  assumes wf: "wf_registry r" and safe: "list_all scrape_safe (registry_list r)"
  shows "parsePrometheusText (renderPrometheusText r True) =
    (True, concat (map scraped_specs (sorted_metrics r)), [])"
proof -
  let ?ls = "concat (map (\<lambda>m. metric_lines m True) (sorted_metrics r))"
  have sf: "\<forall>m \<in> set (sorted_metrics r). scrape_safe m" using safe by (simp add: list_all_iff)
  have wm: "\<forall>m \<in> set (sorted_metrics r). wf_metric m"
    using wf by (auto simp: wf_registry_def registry_list_def list_all_iff)
  have "getlines newline (renderPrometheusText r True) = ?ls"
    unfolding render_unlines unlines_def using sf metric_lines_newline by (intro getlines_concat) auto
  then have tl: "text_lines (renderPrometheusText r True) = ?ls" by simp
  have "announced_below (metric_name (hd (sorted_metrics r))) prom_init"
    by (simp add: announced_below_def prom_init_def)
  then obtain st where st: "prom_reads ?ls prom_init st" "ps_out st = concat (map scraped_specs (sorted_metrics r))"
    using prom_reads_metrics [of "sorted_metrics r" prom_init] sf wm strict_sorted_metrics [OF wf]
    by (auto simp: prom_init_def)
  then have "prom_loop ?ls prom_init = (None, st)"
    unfolding prom_reads_def by (metis append_Nil2 prom_loop.simps(1))
  then show ?thesis by (simp add: parsePrometheusText_def tl st(2))
qed

subsection \<open>Merging the scraped text\<close>

lemma split_sorted_metrics:
  assumes "wf_registry r" "m \<in> set (registry_list r)"
  obtains xs ys where "sorted_metrics r = xs @ m # ys" "\<forall>y \<in> set ys. metric_name m < metric_name y"
proof -
  obtain xs ys where s: "sorted_metrics r = xs @ m # ys"
    using assms(2) by (metis set_sorted_metrics split_list)
  then have "\<forall>y \<in> set ys. metric_name m < metric_name y"
    using strict_sorted_metrics [OF assms(1)] by (simp add: sorted_wrt_append)
  with s that show ?thesis by blast
qed

lemma scraped_names_above:
  assumes "metric_name m < metric_name y" "spec \<in> set (scraped_specs y)"
  shows "spec_name spec \<noteq> metric_name m"
proof -
  have "spec_name spec = metric_name y \<or> (\<exists>s. spec_name spec = metric_name y @ s \<and> s \<noteq> [])"
    using assms(2) by (cases y) (auto simp: series_def in_set_zip)
  then show ?thesis using assms(1) append_greater [of _ "metric_name y"] by (metis order_less_irrefl)
qed

lemma reread_nonneg:
  assumes "wf_double v" "\<not> v < dzero"
  shows "\<not> reread_value v < dzero"
proof (cases v)
  case (DFin s m)
  show ?thesis
  proof (cases "m = 0")
    case True
    then show ?thesis by (simp add: DFin reread_value_def)
  next
    case False
    with assms DFin have m: "0 < m" "\<not> s" by (auto split: if_splits)
    obtain d x where g: "g6 m = (d, x)" by fastforce
    have "0 \<le> d" using g6_digits [OF m(1) g] by simp
    then have "0 \<le> round_mag (g6_value m)" by (intro round_mag_nonneg) (simp add: g6_value_def g)
    then show ?thesis
      using m assms(2) unfolding reread_value_def
      by (auto simp: DFin range_checked_def dround_def Let_def split: if_splits)
  qed
qed (use assms in \<open>simp_all add: reread_value_def\<close>)

lemma merge_scrape:
  assumes wf: "wf_registry r" and safe: "list_all scrape_safe (registry_list r)"
    and find: "registry_find r name = Some m" and scalar: "metric_type m \<noteq> Histogram"
  shows "\<exists>m'. registry_find (fst (snd (mergePrometheusText r' (renderPrometheusText r True)))) name = Some m' \<and>
    metric_name m' = name \<and> metric_type m' = metric_type m \<and> metric_help m' = metric_help m \<and>
    metric_labels m' = metric_labels m \<and> metric_value m' = reread_value (metric_value m)"
proof -
  have name: "metric_name m = name" "wf_metric m" "name \<noteq> []" using wf_registry_find [OF wf find] by simp_all
  with find have mem: "m \<in> set (registry_list r)" using registry_list_find [OF wf] by simp
  obtain xs ys where s: "sorted_metrics r = xs @ m # ys" "\<forall>y \<in> set ys. metric_name m < metric_name y"
    using split_sorted_metrics [OF wf mem] .
  let ?spec = "series name (toString (metric_type m)) (metric_help m) (metric_labels m) (reread_value (metric_value m))"
  let ?specs = "concat (map scraped_specs (sorted_metrics r))"
  have one: "scraped_specs m = [?spec]" using scalar name(1) by (cases m) simp_all
  have split: "?specs = concat (map scraped_specs xs) @ ?spec # concat (map scraped_specs ys)"
    using s(1) one by simp
  have acc: "accepted_spec ?spec" using name(3) metric_type_known by (simp add: accepted_spec_def series_def)
  have "spec_name spec \<noteq> name" if "y \<in> set ys" "spec \<in> set (scraped_specs y)" for y spec
    using scraped_names_above [of m y spec] s(2) that name(1) by simp
  then have last: "spec_name ?spec \<notin> spec_name ` set (concat (map scraped_specs ys))"
    by (auto simp: series_def)
  note parse = parse_render [OF wf safe]
  have "fst (snd (mergePrometheusText r' (renderPrometheusText r True))) =
      fold (\<lambda>spec r. snd (upsert r spec)) ?specs r'"
    using upsert_all_accepted [OF parse_accepted [OF parse]] by (simp add: mergePrometheusText_def parse)
  moreover have "registry_find (fold (\<lambda>spec r. snd (upsert r spec)) ?specs r') name = Some (metric_of ?spec)"
    using registry.store_all_last [OF split acc last] by (simp add: series_def)
  moreover have "metric_name (metric_of ?spec) = name \<and> metric_type (metric_of ?spec) = metric_type m \<and>
      metric_help (metric_of ?spec) = metric_help m \<and> metric_labels (metric_of ?spec) = metric_labels m \<and>
      metric_value (metric_of ?spec) = reread_value (metric_value m)"
    using scalar name(2) reread_nonneg [of "metric_value m"]
    by (cases m) (simp_all add: metric_of_def makeMetric_def series_def CounterMetric_new_def GaugeMetric_new_def
        parseMetricType_toString [of Counter, simplified])
  ultimately show ?thesis by auto
qed

subsection \<open>Whole numbers survive\<close>

lemma ilog10_below:
  assumes "0 < n" "n < 10 ^ 6"
  shows "0 \<le> ilog 10 (of_nat n)" "ilog 10 (of_nat n) \<le> 5"
proof -
  have one: "(1 :: rat) \<le> of_nat n" using assms(1) by simp
  show "0 \<le> ilog 10 (of_nat n)"
    using ilog_less_iff [of "of_nat n" 10 0] one by (simp add: not_less [symmetric])
  have "(of_nat n :: rat) < of_nat (10 ^ 6)" using assms(2) unfolding of_nat_less_iff .
  then have "(of_nat n :: rat) < of_nat 10 powi 6" by simp
  then show "ilog 10 (of_nat n) \<le> 5"
    using ilog_less_iff [of "of_nat n" 10 6] one by simp
qed

lemma g6_value_whole:
  assumes "0 < n" "n < 10 ^ 6"
  shows "g6_value (of_nat n) = of_nat n"
proof -
  define e where "e = ilog 10 (of_nat n)"
  define k where "k = nat (5 - e)"
  have e: "0 \<le> e" "e \<le> 5" unfolding e_def by (rule ilog10_below [OF assms])+
  then have k: "e - 5 = - int k" by (simp add: k_def)
  have div: "(of_nat n :: rat) / 10 powi (e - 5) = of_int (int n * 10 ^ k)"
    by (simp add: k power_int_minus divide_inverse)
  then have d: "round_half_even (of_nat n / 10 powi (e - 5)) = int n * 10 ^ k"
    by (simp only: round_half_even_int)
  have "g6_value (of_nat n) = of_int (int n * 10 ^ k) * 10 powi (e - 5)"
  proof (cases "int n * 10 ^ k = 10 ^ 6")
    case False
    then show ?thesis by (simp add: g6_value_def g6_def e_def [symmetric] d Let_def)
  next
    case True
    have "(of_nat n :: rat) < 10 powi (e + 1)"
      using ilog_bounds(2) [of "of_nat n" 10] assms(1) by (simp add: e_def)
    moreover have "(of_nat n :: rat) = 10 powi (e + 1)"
    proof -
      have "(of_nat n :: rat) = of_int (int n * 10 ^ k) * 10 powi (e - 5)"
        by (simp add: k power_int_minus)
      also have "\<dots> = 10 powi (e + 1)" unfolding True by (simp add: power_int_diff power_int_add)
      finally show ?thesis .
    qed
    ultimately show ?thesis by simp
  qed
  then show ?thesis by (simp add: k power_int_minus)
qed

lemma reread_whole:
  assumes "n < 10 ^ 6"
  shows "reread (DFin s (of_nat n)) = Inr (DFin s (of_nat n))"
proof (cases "n = 0")
  case False
  then have "\<not> dbl_tiny (of_nat n)" by (intro not_tiny) simp
  moreover have "dround s (of_nat n) = DFin s (of_nat n)"
    using assms by (intro dround_nat) simp
  ultimately show ?thesis
    using False assms by (simp add: g6_value_whole range_checked_def)
qed simp

lemma readable_whole: "n < 10 ^ 6 \<Longrightarrow> readable (DFin s (of_nat n))"
  by (simp only: readable_def reread_whole sum.case)

lemma reread_value_whole: "n < 10 ^ 6 \<Longrightarrow> reread_value (DFin s (of_nat n)) = DFin s (of_nat n)"
  by (simp only: reread_value_def reread_whole sum.case)

subsection \<open>Properties\<close>

text \<open>Scraping an exposition: the text rendered from a well-formed registry whose names, labels
  and helps keep clear of the syntax is parsed without error, and yields exactly one sample per
  counter and gauge, with its type, help and labels, and one gauge per bucket, sum and count of
  each histogram, in the order of the names.\<close>

lemma scrape_reads_exposition:
  assumes "wf_registry r" "list_all scrape_safe (registry_list r)"
  shows "parsePrometheusText (renderPrometheusText r True) =
    (True, concat (map scraped_specs (sorted_metrics r)), [])"
  by (rule parse_render [OF assms])

text \<open>Federation: merging that text into any registry leaves every counter and gauge of the
  source in it, with the same name, type, help and labels, and with the value that six
  significant digits can carry. Histograms of the source come back as gauges and cannot displace them.\<close>

lemma federation_carries_scalars:
  assumes "wf_registry r" "list_all scrape_safe (registry_list r)"
    and "registry_find r name = Some m" "metric_type m \<noteq> Histogram"
  shows "\<exists>m'. registry_find (fst (snd (mergePrometheusText r' (renderPrometheusText r True)))) name = Some m' \<and>
    metric_name m' = name \<and> metric_type m' = metric_type m \<and> metric_help m' = metric_help m \<and>
    metric_labels m' = metric_labels m \<and> metric_value m' = reread_value (metric_value m)"
  by (rule merge_scrape [OF assms])

text \<open>Whole numbers below a million pass through an exposition unchanged: the sample line of a
  counter or gauge parses back to its name, labels and exactly its value.\<close>

lemma whole_samples_survive:
  assumes "scrape_safe m" "wf_metric m" "metric_type m \<noteq> Histogram"
    and "metric_value m = DFin s (of_nat n)" "n < 10 ^ 6"
  shows "parseSampleLine (last (metric_lines m False)) =
    Inr (empty_spec\<lparr>spec_name := metric_name m, spec_labels := metric_labels m, spec_value := metric_value m\<rparr>)"
proof -
  have "last (metric_lines m False) = metric_name m @ braced (metric_labels m) @ '' '' @ show_double (metric_value m)"
    using assms(3) by (cases m) simp_all
  moreover have "stod (show_double (metric_value m)) = Inr (metric_value m)"
    using stod_show_double [OF wf_metric_value [OF assms(2)]] assms(4) reread_whole [OF assms(5), of s] by simp
  ultimately show ?thesis
    using assms(1) by (simp only:) (intro parseSampleLine_series; simp add: scrape_safe_def show_double_text)
qed

end
