(* ===== verification/Logger.thy ===== *)
theory Logger
  imports Prelude
begin

section \<open>Logging (logger.hpp, logger.cpp)\<close>

text \<open>
  The levels with their order, the parser of level names, and the process-wide logger: its
  threshold, its optional file, and the line a message produces. The local time stamp is an
  argument; the line goes to standard error and, when a log file is set and can be opened, is
  appended to it.
\<close>

datatype LogLevel = Debug | Info | Warning | Error | Fatal

fun level_number :: "LogLevel \<Rightarrow> nat" where
  "level_number Debug = 0"
| "level_number Info = 1"
| "level_number Warning = 2"
| "level_number Error = 3"
| "level_number Fatal = 4"

lemma level_number_inject [simp]: "level_number a = level_number b \<longleftrightarrow> a = b"
  by (cases a; cases b) simp_all

instantiation LogLevel :: linorder
begin

definition less_LogLevel :: "LogLevel \<Rightarrow> LogLevel \<Rightarrow> bool" where
  "less_LogLevel a b \<longleftrightarrow> level_number a < level_number b"

definition less_eq_LogLevel :: "LogLevel \<Rightarrow> LogLevel \<Rightarrow> bool" where
  "less_eq_LogLevel a b \<longleftrightarrow> level_number a \<le> level_number b"

instance
  by standard (auto simp: less_LogLevel_def less_eq_LogLevel_def)

end

type_synonym log_messages = "(LogLevel \<times> string) list"

fun levelName :: "LogLevel \<Rightarrow> string" where
  "levelName Debug = ''DEBUG''"
| "levelName Info = ''INFO''"
| "levelName Warning = ''WARN''"
| "levelName Error = ''ERROR''"
| "levelName Fatal = ''FATAL''"

definition parseLogLevel :: "string \<Rightarrow> LogLevel option" where
  "parseLogLevel name =
     (let lower = lowerCopy name
      in if lower = ''debug'' then Some Debug
         else if lower = ''info'' then Some Info
         else if lower = ''warning'' \<or> lower = ''warn'' then Some Warning
         else if lower = ''error'' then Some Error
         else if lower = ''fatal'' then Some Fatal
         else None)"

record Logger =
  log_threshold :: LogLevel
  log_path :: string

definition Logger_new :: Logger where
  "Logger_new = \<lparr>log_threshold = Info, log_path = []\<rparr>"

definition setLevel :: "Logger \<Rightarrow> LogLevel \<Rightarrow> Logger" where
  "setLevel l level = l\<lparr>log_threshold := level\<rparr>"

definition Logger_level :: "Logger \<Rightarrow> LogLevel" where
  "Logger_level l = log_threshold l"

definition setLogFile :: "Logger \<Rightarrow> string \<Rightarrow> Logger" where
  "setLogFile l path = l\<lparr>log_path := path\<rparr>"

definition log_line :: "string \<Rightarrow> LogLevel \<Rightarrow> string \<Rightarrow> string" where
  "log_line stamp level message = stamp @ '' ['' @ levelName level @ ''] '' @ message"

text \<open>Standard error and the contents of the files that can be opened for appending.\<close>

record log_sinks =
  log_stderr :: string
  log_files :: "string \<rightharpoonup> string"

definition Logger_log :: "Logger \<Rightarrow> string \<Rightarrow> LogLevel \<Rightarrow> string \<Rightarrow> log_sinks \<Rightarrow> log_sinks" where
  "Logger_log l stamp level message sinks =
     (if level < log_threshold l then sinks
      else
        let line = log_line stamp level message @ [newline];
            sinks = sinks\<lparr>log_stderr := log_stderr sinks @ line\<rparr>
        in if log_path l = [] then sinks
           else case log_files sinks (log_path l) of
             None \<Rightarrow> sinks
           | Some contents \<Rightarrow> sinks\<lparr>log_files := (log_files sinks)(log_path l \<mapsto> contents @ line)\<rparr>)"

definition Logger_debug :: "Logger \<Rightarrow> string \<Rightarrow> string \<Rightarrow> log_sinks \<Rightarrow> log_sinks" where
  "Logger_debug l stamp message = Logger_log l stamp Debug message"

definition Logger_info :: "Logger \<Rightarrow> string \<Rightarrow> string \<Rightarrow> log_sinks \<Rightarrow> log_sinks" where
  "Logger_info l stamp message = Logger_log l stamp Info message"

definition Logger_warning :: "Logger \<Rightarrow> string \<Rightarrow> string \<Rightarrow> log_sinks \<Rightarrow> log_sinks" where
  "Logger_warning l stamp message = Logger_log l stamp Warning message"

definition Logger_error :: "Logger \<Rightarrow> string \<Rightarrow> string \<Rightarrow> log_sinks \<Rightarrow> log_sinks" where
  "Logger_error l stamp message = Logger_log l stamp Error message"

definition Logger_fatal :: "Logger \<Rightarrow> string \<Rightarrow> string \<Rightarrow> log_sinks \<Rightarrow> log_sinks" where
  "Logger_fatal l stamp message = Logger_log l stamp Fatal message"

text \<open>A fatal message is never filtered, whatever level is set.\<close>

lemma fatal_always_shown: "log_stderr (Logger_fatal (setLevel l level) stamp message sinks) =
    log_stderr sinks @ log_line stamp Fatal message @ [newline]"
  by (cases level) (simp_all add: Logger_fatal_def Logger_log_def setLevel_def less_LogLevel_def Let_def split: option.split)

definition Logger_all :: "Logger \<Rightarrow> string \<Rightarrow> log_messages \<Rightarrow> log_sinks \<Rightarrow> log_sinks" where
  "Logger_all l stamp messages sinks = fold (\<lambda>(level, m). Logger_log l stamp level m) messages sinks"

definition shown :: "Logger \<Rightarrow> log_messages \<Rightarrow> log_messages" where
  "shown l messages = filter (\<lambda>(level, m). log_threshold l \<le> level) messages"

definition log_text :: "string \<Rightarrow> log_messages \<Rightarrow> string" where
  "log_text stamp messages = concat (map (\<lambda>(level, m). log_line stamp level m @ [newline]) messages)"

lemma log_text_simps [simp]:
  "log_text stamp [] = []"
  "log_text stamp ((level, m) # ms) = log_line stamp level m @ newline # log_text stamp ms"
  by (simp_all add: log_text_def)

lemma Logger_all_sinks:
  "log_stderr (Logger_all l stamp messages sinks) = log_stderr sinks @ log_text stamp (shown l messages) \<and>
   log_files (Logger_all l stamp messages sinks) =
     (if log_path l = [] then log_files sinks
      else case log_files sinks (log_path l) of
        None \<Rightarrow> log_files sinks
      | Some c \<Rightarrow> (log_files sinks)(log_path l \<mapsto> c @ log_text stamp (shown l messages)))"
proof (induction messages arbitrary: sinks)
  case Nil
  then show ?case by (auto simp: Logger_all_def shown_def split: option.splits)
next
  case (Cons e messages)
  obtain level m where e: "e = (level, m)" by fastforce
  let ?s = "Logger_log l stamp level m sinks"
  have "Logger_all l stamp (e # messages) sinks = Logger_all l stamp messages ?s"
    by (simp add: Logger_all_def e)
  with Cons.IH [of ?s] show ?case
    by (auto simp: e Logger_log_def shown_def Let_def not_less split: option.splits)
qed

subsection \<open>Properties\<close>

text \<open>The logger writes exactly the messages at or above its level, each as one line, in order,
  to standard error and to its log file when there is one, and touches no other file.\<close>

lemma logger_filters_by_level:
  "log_stderr (fold (\<lambda>(level, m). Logger_log l stamp level m) messages sinks) =
     log_stderr sinks @ log_text stamp (filter (\<lambda>(level, m). log_threshold l \<le> level) messages) \<and>
   log_files (fold (\<lambda>(level, m). Logger_log l stamp level m) messages sinks) =
     (if log_path l = [] then log_files sinks
      else case log_files sinks (log_path l) of
        None \<Rightarrow> log_files sinks
      | Some c \<Rightarrow> (log_files sinks)(log_path l \<mapsto>
          c @ log_text stamp (filter (\<lambda>(level, m). log_threshold l \<le> level) messages)))"
  using Logger_all_sinks [of l stamp messages sinks] by (simp only: Logger_all_def shown_def)

end
