(* ===== verification/Ingest.thy ===== *)
theory Ingest
  imports Prom_Text Logger
begin

section \<open>Push ingest (ingest.hpp, ingest.cpp)\<close>

text \<open>
  \<^verbatim>\<open>ingestBody\<close> takes the body of a POST. A body with a HELP or TYPE line or a brace anywhere is
  merged as Prometheus text, all or nothing; any other body is read line by line, each line a
  \<^verbatim>\<open>name type value\<close> triple or a single Prometheus sample. The functions return the result, the
  registry and the messages handed to the logger. The counts are natural numbers: a body has far
  fewer than \<open>2 ^ 64\<close> lines.
\<close>

record IngestResult =
  accepted :: nat
  rejected :: nat
  last_error :: string

definition IngestResult_new :: IngestResult where
  "IngestResult_new = \<lparr>accepted = 0, rejected = 0, last_error = []\<rparr>"

text \<open>\<^verbatim>\<open>in >> name >> type >> value\<close>\<close>

definition three_tokens :: "string \<Rightarrow> (string \<times> string \<times> string) option" where
  "three_tokens line =
     (case next_token line of
        None \<Rightarrow> None
      | Some (name, r) \<Rightarrow>
          (case next_token r of
             None \<Rightarrow> None
           | Some (type, r') \<Rightarrow>
               (case next_token r' of
                  None \<Rightarrow> None
                | Some (value, r'') \<Rightarrow> Some (name, type, value))))"

definition looksLikeSimpleLine :: "string \<Rightarrow> bool" where
  "looksLikeSimpleLine line =
     (case three_tokens line of
        None \<Rightarrow> False
      | Some (name, type, value) \<Rightarrow>
          if parseMetricType type = Unknown then False
          else case stod value of Inl e \<Rightarrow> False | Inr v \<Rightarrow> True)"

definition ingestSimpleLine :: "MetricRegistry \<Rightarrow> string \<Rightarrow> (string + unit) \<times> MetricRegistry" where
  "ingestSimpleLine registry line =
     (case three_tokens line of
        None \<Rightarrow> (Inl ''expected name type value'', registry)
      | Some (name, type, value_token) \<Rightarrow>
          (case stod value_token of
             Inl e \<Rightarrow> (Inl ''invalid value'', registry)
           | Inr value \<Rightarrow>
               if parseMetricType type = Unknown then (Inl (''unknown type: '' @ type), registry)
               else
                 let (ok, registry') =
                   upsert registry (empty_spec\<lparr>spec_name := name, spec_type := type, spec_value := value\<rparr>)
                 in if \<not> ok then (Inl (''failed to upsert '' @ name), registry') else (Inr (), registry')))"

record ingest_state =
  ing_result :: IngestResult
  ing_registry :: MetricRegistry
  ing_log :: log_messages

definition ingest_accept :: "MetricRegistry \<Rightarrow> ingest_state \<Rightarrow> ingest_state" where
  "ingest_accept registry st =
     st\<lparr>ing_result := (ing_result st)\<lparr>accepted := accepted (ing_result st) + 1\<rparr>, ing_registry := registry\<rparr>"

definition ingest_reject :: "MetricRegistry \<Rightarrow> string \<Rightarrow> string \<Rightarrow> ingest_state \<Rightarrow> ingest_state" where
  "ingest_reject registry error message st =
     st\<lparr>ing_result := (ing_result st)\<lparr>rejected := rejected (ing_result st) + 1, last_error := error\<rparr>,
        ing_registry := registry, ing_log := ing_log st @ [(Error, ''ingest error: '' @ message)]\<rparr>"

text \<open>The body of the loop, for one line.\<close>

definition ingest_line :: "string \<Rightarrow> ingest_state \<Rightarrow> ingest_state" where
  "ingest_line raw st =
     (let line = trim (pop_cr raw); registry = ing_registry st
      in if line = [] \<or> hd line = CHR ''#'' then st
         else if looksLikeSimpleLine line then
           (case ingestSimpleLine registry line of
              (Inr u, registry') \<Rightarrow> ingest_accept registry' st
            | (Inl error, registry') \<Rightarrow>
                ingest_reject registry' error (error @ '' ('' @ line @ '')'') st)
         else
           (case parsePrometheusText (line @ [newline]) of
              (ok, specs, parse_error) \<Rightarrow>
                if \<not> ok \<or> specs = [] then
                  (let error = (if parse_error = [] then ''unrecognized ingest line'' else parse_error)
                   in ingest_reject registry error (error @ '' ('' @ line @ '')'') st)
                else
                  let (stored, registry') = upsert registry (hd specs)
                  in if stored then ingest_accept registry' st
                     else (let error = ''failed to upsert '' @ spec_name (hd specs)
                           in ingest_reject registry' error error st)))"

definition prefer_prom :: "string \<Rightarrow> bool" where
  "prefer_prom body \<longleftrightarrow> contains ''# TYPE '' body \<or> contains ''# HELP '' body \<or> CHR ''{'' \<in> set body"

definition ingest_start :: "MetricRegistry \<Rightarrow> ingest_state" where
  "ingest_start registry = \<lparr>ing_result = IngestResult_new, ing_registry = registry, ing_log = []\<rparr>"

definition ingestBody :: "MetricRegistry \<Rightarrow> string \<Rightarrow> ingest_state" where
  "ingestBody registry body =
     (let start = ingest_start registry
      in if prefer_prom body then
           (case mergePrometheusText registry body of
              (merged, registry', error) \<Rightarrow>
                if error \<noteq> [] then
                  start\<lparr>ing_result := IngestResult_new\<lparr>rejected := 1, last_error := error\<rparr>,
                        ing_registry := registry', ing_log := [(Error, ''ingest error: '' @ error)]\<rparr>
                else start\<lparr>ing_result := IngestResult_new\<lparr>accepted := merged\<rparr>, ing_registry := registry'\<rparr>)
         else fold ingest_line (text_lines body) start)"

subsection \<open>What a line stands for\<close>

text \<open>The reference reading of a line: nothing, a specification to store, or a refusal.\<close>

datatype line_meaning = Blank | Store MetricSpec | Refuse

definition simple_spec :: "string \<Rightarrow> MetricSpec option" where
  "simple_spec line =
     (case three_tokens line of
        None \<Rightarrow> None
      | Some (name, type, value) \<Rightarrow>
          (case stod value of
             Inl e \<Rightarrow> None
           | Inr v \<Rightarrow>
               if parseMetricType type = Unknown then None
               else Some (empty_spec\<lparr>spec_name := name, spec_type := type, spec_value := v\<rparr>)))"

definition line_meaning_of :: "string \<Rightarrow> line_meaning" where
  "line_meaning_of raw =
     (let line = trim raw
      in if line = [] \<or> hd line = CHR ''#'' then Blank
         else case simple_spec line of
           Some spec \<Rightarrow> Store spec
         | None \<Rightarrow>
             (case parseSampleLine line of
                Inr spec \<Rightarrow> Store (spec\<lparr>spec_type := ''gauge''\<rparr>)
              | Inl e \<Rightarrow> Refuse))"

definition stored_specs :: "string list \<Rightarrow> MetricSpec list" where
  "stored_specs ls = concat (map (\<lambda>l. case line_meaning_of l of Store s \<Rightarrow> [s] | _ \<Rightarrow> []) ls)"

definition refused_lines :: "string list \<Rightarrow> nat" where
  "refused_lines ls = length (filter (\<lambda>l. line_meaning_of l = Refuse) ls)"

lemma three_tokens_name: "three_tokens line = Some (name, type, value) \<Longrightarrow> name \<noteq> []"
  using next_token_SomeD(1) [of line] by (auto simp: three_tokens_def split: option.splits)

lemma parse_one_line:
  assumes "trimmed line" "line \<noteq> []" "hd line \<noteq> CHR ''#''" "newline \<notin> set line"
  shows "parsePrometheusText (line @ [newline]) =
    (case parseSampleLine line of
       Inr spec \<Rightarrow> (True, [complete_spec prom_init spec], [])
     | Inl e \<Rightarrow> (False, [], e))"
proof -
  have "\<not> starts_with ''# HELP '' line" "\<not> starts_with ''# TYPE '' line"
    using assms(2,3) by (cases line; simp)+
  then have "prom_line line prom_init = (case parseSampleLine line of Inl e \<Rightarrow> Inl e
      | Inr spec \<Rightarrow> Inr (prom_init\<lparr>ps_out := ps_out prom_init @ [complete_spec prom_init spec]\<rparr>))"
    using assms(1-3) by (simp add: prom_line_def)
  moreover have "text_lines (line @ [newline]) = [line]"
    using getlines_append_delim [OF assms(4), of "[]"] by simp
  ultimately show ?thesis
    by (simp add: parsePrometheusText_def prom_init_def split: sum.splits)
qed

lemma parseSampleLine_plain:
  "parseSampleLine line = Inr spec \<Longrightarrow>
     spec_help spec = [] \<and> complete_spec prom_init spec = spec\<lparr>spec_type := ''gauge''\<rparr>"
  by (auto simp: parseSampleLine_def Let_def complete_spec_def prom_init_def empty_spec_def
      split: if_splits option.splits sum.splits)

lemma simple_spec_iff: "simple_spec line \<noteq> None \<longleftrightarrow> looksLikeSimpleLine line"
  by (auto simp: simple_spec_def looksLikeSimpleLine_def split: option.splits sum.splits)

lemma simple_spec_accepted: "simple_spec line = Some spec \<Longrightarrow> accepted_spec spec"
  using three_tokens_name [of line]
  by (auto simp: simple_spec_def accepted_spec_def split: option.splits sum.splits if_splits)

lemma ingestSimpleLine_stores:
  assumes "simple_spec line = Some spec"
  shows "ingestSimpleLine registry line = (Inr (), snd (upsert registry spec))"
proof -
  have "fst (upsert registry spec)"
    using registry.store_accepted simple_spec_accepted [OF assms] by blast
  with assms show ?thesis
    by (auto simp: simple_spec_def ingestSimpleLine_def case_prod_beta Let_def
        split: option.splits sum.splits if_splits)
qed

lemma line_meaning_accepted: "line_meaning_of raw = Store spec \<Longrightarrow> accepted_spec spec"
  using simple_spec_accepted [of "trim raw"] parseSampleLine_name [of "trim raw"]
  by (auto simp: line_meaning_of_def accepted_spec_def Let_def split: if_splits option.splits sum.splits)

lemma set_trim: "set (trim s) \<subseteq> set s"
  by (auto simp: trim_def dest!: set_dropWhileD)

lemma parseSampleLine_error: "parseSampleLine line = Inl e \<Longrightarrow> e \<noteq> []"
  by (auto simp: parseSampleLine_def Let_def split: if_splits option.splits sum.splits)

lemma ingest_line_meaning:
  assumes "newline \<notin> set raw"
  shows "ingest_line raw st =
    (case line_meaning_of raw of
       Blank \<Rightarrow> st
     | Store spec \<Rightarrow> ingest_accept (snd (upsert (ing_registry st) spec)) st
     | Refuse \<Rightarrow> (let error = projl (parseSampleLine (trim raw))
                 in ingest_reject (ing_registry st) error (error @ '' ('' @ trim raw @ '')'') st))"
proof (cases "line_meaning_of raw = Blank")
  case True
  then show ?thesis
    by (auto simp: line_meaning_of_def ingest_line_def Let_def split: if_splits option.splits sum.splits)
next
  case False
  define line where "line = trim raw"
  have line: "line \<noteq> []" "hd line \<noteq> CHR ''#''" "trimmed line" "newline \<notin> set line"
    using False assms set_trim [of raw]
    by (auto simp: line_meaning_of_def line_def Let_def split: if_splits)
  show ?thesis
  proof (cases "simple_spec line")
    case (Some spec)
    then have "looksLikeSimpleLine line" using simple_spec_iff [of line] by simp
    moreover have "line_meaning_of raw = Store spec"
      using Some line by (simp add: line_meaning_of_def line_def)
    ultimately show ?thesis
      using line ingestSimpleLine_stores [OF Some]
      by (simp add: ingest_line_def line_def [symmetric])
  next
    case None
    then have ns: "\<not> looksLikeSimpleLine line" using simple_spec_iff [of line] by simp
    show ?thesis
    proof (cases "parseSampleLine line")
      case (Inl e)
      then show ?thesis
        using None ns line parse_one_line [OF line(3,1,2,4)] parseSampleLine_error [OF Inl]
        by (simp add: ingest_line_def line_meaning_of_def line_def [symmetric] Let_def)
    next
      case (Inr spec)
      let ?spec = "spec\<lparr>spec_type := ''gauge''\<rparr>"
      have m: "line_meaning_of raw = Store ?spec"
        using None line Inr by (simp add: line_meaning_of_def line_def [symmetric] Let_def)
      have "fst (upsert (ing_registry st) ?spec)"
        using line_meaning_accepted [OF m] registry.store_accepted by blast
      then show ?thesis
        using m ns line Inr parse_one_line [OF line(3,1,2,4)] parseSampleLine_plain [OF Inr]
        by (simp add: ingest_line_def line_def [symmetric] Let_def case_prod_beta)
    qed
  qed
qed

subsection \<open>What a body does\<close>

lemma ingest_lines_meaning:
  assumes "\<forall>l \<in> set ls. newline \<notin> set l"
  shows "ing_registry (fold ingest_line ls st) =
      fold (\<lambda>spec r. snd (upsert r spec)) (stored_specs ls) (ing_registry st)"
    and "accepted (ing_result (fold ingest_line ls st)) =
      accepted (ing_result st) + length (stored_specs ls)"
    and "rejected (ing_result (fold ingest_line ls st)) = rejected (ing_result st) + refused_lines ls"
    and "length (ing_log (fold ingest_line ls st)) = length (ing_log st) + refused_lines ls"
  using assms
  by (induction ls arbitrary: st)
    (simp_all add: ingest_line_meaning stored_specs_def refused_lines_def ingest_accept_def
      ingest_reject_def Let_def split: line_meaning.splits)

lemma body_lines_clean: "\<forall>l \<in> set (text_lines body). newline \<notin> set l"
  using getlines_no_delim_in by blast

lemma ingest_simple_body:
  assumes "\<not> prefer_prom body"
  shows "ing_registry (ingestBody r body) = fold (\<lambda>spec r. snd (upsert r spec)) (stored_specs (text_lines body)) r"
    and "accepted (ing_result (ingestBody r body)) = length (stored_specs (text_lines body))"
    and "rejected (ing_result (ingestBody r body)) = refused_lines (text_lines body)"
    and "length (ing_log (ingestBody r body)) = refused_lines (text_lines body)"
  using assms ingest_lines_meaning [OF body_lines_clean, of body]
  by (simp_all add: ingestBody_def ingest_start_def IngestResult_new_def)

lemma ingest_prom_body:
  assumes "prefer_prom body" "parsePrometheusText body = (ok, specs, error)"
  shows "ingestBody r body =
    (if ok
     then \<lparr>ing_result = \<lparr>accepted = length specs, rejected = 0, last_error = []\<rparr>,
           ing_registry = fold (\<lambda>spec r. snd (upsert r spec)) specs r, ing_log = []\<rparr>
     else \<lparr>ing_result = \<lparr>accepted = 0, rejected = 1, last_error = error\<rparr>, ing_registry = r,
           ing_log = [(Error, ''ingest error: '' @ error)]\<rparr>)"
  using assms parse_error_iff [OF assms(2)] upsert_all_accepted [OF parse_accepted [OF assms(2)]]
  by (auto simp: ingestBody_def mergePrometheusText_def ingest_start_def IngestResult_new_def)

subsection \<open>The registry stays well formed\<close>

lemma ingestSimpleLine_wf: "wf_registry r \<Longrightarrow> wf_registry (snd (ingestSimpleLine r line))"
  by (auto simp: ingestSimpleLine_def case_prod_beta Let_def wf_spec_def empty_spec_def
      intro!: wf_upsert dest: stod_wf split: option.splits sum.splits)

lemma ingest_line_wf:
  assumes "wf_registry (ing_registry st)"
  shows "wf_registry (ing_registry (ingest_line raw st))"
proof -
  define line where "line = trim (pop_cr raw)"
  have reg: "ing_registry (ingest_accept r st) = r" "ing_registry (ingest_reject r e m st) = r" for r e m
    by (simp_all add: ingest_accept_def ingest_reject_def)
  obtain res r1 where s: "ingestSimpleLine (ing_registry st) line = (res, r1)" by fastforce
  have r1: "wf_registry r1" using ingestSimpleLine_wf [OF assms, of line] by (simp add: s)
  obtain ok specs e where p: "parsePrometheusText (line @ [newline]) = (ok, specs, e)" by (metis prod_cases3)
  obtain stored r2 where u: "upsert (ing_registry st) (hd specs) = (stored, r2)" by fastforce
  have r2: "wf_registry r2" if "specs \<noteq> []"
    using wf_upsert [OF assms, of "hd specs"] parse_wf [OF p] that u by (cases specs) simp_all
  show ?thesis
    unfolding ingest_line_def line_def [symmetric] Let_def s p u prod.case
    using assms r1 r2 by (cases res) (simp_all add: reg)
qed

lemma ingestBody_wf: "wf_registry r \<Longrightarrow> wf_registry (ing_registry (ingestBody r content))"
proof -
  assume r: "wf_registry r"
  have "wf_registry (ing_registry (fold ingest_line ls st))" if "wf_registry (ing_registry st)" for ls st
    using that by (induction ls arbitrary: st) (simp_all add: ingest_line_wf)
  with r merge_wf [OF r, of content] show ?thesis
    by (auto simp: ingestBody_def ingest_start_def Let_def split: prod.splits)
qed

subsection \<open>Properties\<close>

lemma ingest_accounts_for_every_line_parts:
  assumes "\<not> prefer_prom body"
  shows "accepted (ing_result (ingestBody r body)) = length (stored_specs (text_lines body))"
    and "rejected (ing_result (ingestBody r body)) = length (ing_log (ingestBody r body))"
    and "accepted (ing_result (ingestBody r body)) + rejected (ing_result (ingestBody r body)) =
      length (filter (\<lambda>l. trim l \<noteq> [] \<and> hd (trim l) \<noteq> CHR ''#'') (text_lines body))"
    and "ing_registry (ingestBody r body) =
      fold (\<lambda>spec r. snd (upsert r spec)) (stored_specs (text_lines body)) r"
proof -
  have blank: "trim l \<noteq> [] \<and> hd (trim l) \<noteq> CHR ''#'' \<longleftrightarrow> line_meaning_of l \<noteq> Blank" for l
    by (auto simp: line_meaning_of_def Let_def split: option.splits sum.splits)
  have "length (stored_specs ls) + refused_lines ls =
      length (filter (\<lambda>l. line_meaning_of l \<noteq> Blank) ls)" for ls
    by (induction ls) (auto simp: stored_specs_def refused_lines_def split: line_meaning.splits)
  with ingest_simple_body [OF assms, of r] show
    "accepted (ing_result (ingestBody r body)) = length (stored_specs (text_lines body))"
    "rejected (ing_result (ingestBody r body)) = length (ing_log (ingestBody r body))"
    "accepted (ing_result (ingestBody r body)) + rejected (ing_result (ingestBody r body)) =
      length (filter (\<lambda>l. trim l \<noteq> [] \<and> hd (trim l) \<noteq> CHR ''#'') (text_lines body))"
    "ing_registry (ingestBody r body) =
      fold (\<lambda>spec r. snd (upsert r spec)) (stored_specs (text_lines body)) r"
    by (simp_all add: blank)
qed

text \<open>C37: Line-wise ingest accounts for every line: each line that is neither blank nor a comment is
  counted once, as accepted when it names a series and a value, as rejected (with one log
  message) otherwise, and the registry is the one that upserting the accepted lines in order gives.\<close>

theorem ingest_accounts_for_every_line:
  assumes "\<not> prefer_prom body"
  shows "(accepted (ing_result (ingestBody r body)) = length (stored_specs (text_lines body))) \<and>
    (rejected (ing_result (ingestBody r body)) = length (ing_log (ingestBody r body))) \<and>
    (accepted (ing_result (ingestBody r body)) + rejected (ing_result (ingestBody r body)) =
      length (filter (\<lambda>l. trim l \<noteq> [] \<and> hd (trim l) \<noteq> CHR ''#'') (text_lines body))) \<and>
    (ing_registry (ingestBody r body) =
      fold (\<lambda>spec r. snd (upsert r spec)) (stored_specs (text_lines body)) r)"
  by (intro conjI ingest_accounts_for_every_line_parts [OF assms])

theorem ingest_accounts_for_every_line_witness:
  "let body = ''# note'' @ [newline] @ ''a gauge'' @ [newline] @ [newline] @ ''- -'' @ [newline]
   in \<not> prefer_prom body \<and>
      accepted (ing_result (ingestBody registry_empty body)) + rejected (ing_result (ingestBody registry_empty body)) = 2"
proof -
  let ?body = "''# note'' @ [newline] @ ''a gauge'' @ [newline] @ [newline] @ ''- -'' @ [newline]"
  have np: "\<not> prefer_prom ?body" by (simp add: prefer_prom_def starts_with_def)
  have "length (filter (\<lambda>l. trim l \<noteq> [] \<and> hd (trim l) \<noteq> CHR ''#'') (text_lines ?body)) = 2"
    by (simp add: trim_def isspace_def)
  moreover have "accepted (ing_result (ingestBody registry_empty ?body)) + rejected (ing_result (ingestBody registry_empty ?body)) =
      length (filter (\<lambda>l. trim l \<noteq> [] \<and> hd (trim l) \<noteq> CHR ''#'') (text_lines ?body))"
    using ingest_accounts_for_every_line [OF np, of registry_empty] by blast
  ultimately show ?thesis unfolding Let_def using np by (simp only: simp_thms)
qed

lemma ingest_prometheus_all_or_nothing_parts:
  assumes "prefer_prom body"
  shows "ing_registry (ingestBody r body) = fst (snd (mergePrometheusText r body))"
    and "if fst (parsePrometheusText body)
      then ing_result (ingestBody r body) =
        \<lparr>accepted = length (fst (snd (parsePrometheusText body))), rejected = 0, last_error = []\<rparr>
      else ing_registry (ingestBody r body) = r \<and> ing_result (ingestBody r body) =
        \<lparr>accepted = 0, rejected = 1, last_error = snd (snd (parsePrometheusText body))\<rparr>"
proof -
  obtain ok specs error where p: "parsePrometheusText body = (ok, specs, error)" by (metis prod_cases3)
  have m: "fst (snd (mergePrometheusText r body)) =
      (if ok then fold (\<lambda>spec r. snd (upsert r spec)) specs r else r)"
    using upsert_all_accepted [OF parse_accepted [OF p], of 0 r] by (simp add: mergePrometheusText_def p)
  show "ing_registry (ingestBody r body) = fst (snd (mergePrometheusText r body))"
    using ingest_prom_body [OF assms p, of r] m by simp
  show "if fst (parsePrometheusText body)
      then ing_result (ingestBody r body) =
        \<lparr>accepted = length (fst (snd (parsePrometheusText body))), rejected = 0, last_error = []\<rparr>
      else ing_registry (ingestBody r body) = r \<and> ing_result (ingestBody r body) =
        \<lparr>accepted = 0, rejected = 1, last_error = snd (snd (parsePrometheusText body))\<rparr>"
    using ingest_prom_body [OF assms p, of r] by (simp add: p)
qed

subsection \<open>Sizes\<close>

lemma length_getlines: "length (getlines d s) \<le> length s"
  by (induction s) (auto split: list.splits)

lemma prom_loop_length: "prom_loop ls st = (e, st') \<Longrightarrow> length (ps_out st') \<le> length (ps_out st) + length ls"
proof (induction ls arbitrary: st)
  case (Cons l ls)
  show ?case
  proof (cases "prom_line l st")
    case (Inr st1)
    then have "length (ps_out st1) \<le> Suc (length (ps_out st))" using prom_line_out by fastforce
    moreover have "length (ps_out st') \<le> length (ps_out st1) + length ls" using Cons Inr by simp
    ultimately show ?thesis by simp
  qed (use Cons.prems in simp)
qed simp

lemma parse_length: "length (fst (snd (parsePrometheusText body))) \<le> length body"
proof -
  obtain e st where p: "prom_loop (text_lines body) prom_init = (e, st)" by fastforce
  have "length (ps_out st) \<le> length (text_lines body)" using prom_loop_length [OF p] by (simp add: prom_init_def)
  also have "\<dots> \<le> length body" by (rule length_getlines)
  finally show ?thesis by (simp add: parsePrometheusText_def p split: option.splits)
qed

lemma ingest_counts_le: "accepted (ing_result (ingestBody r body)) + rejected (ing_result (ingestBody r body)) \<le> Suc (length body)"
proof (cases "prefer_prom body")
  case True
  then show ?thesis
    using ingest_prometheus_all_or_nothing_parts(2) [OF True, of r] parse_length [of body]
    by (simp split: if_splits)
next
  case False
  have "length (filter (\<lambda>l. trim l \<noteq> [] \<and> hd (trim l) \<noteq> CHR ''#'') (text_lines body)) \<le> length (text_lines body)"
    by (rule length_filter_le)
  also have "\<dots> \<le> length body" by (rule length_getlines)
  finally show ?thesis using ingest_accounts_for_every_line_parts(3) [OF False, of r] by simp
qed

lemma sample_error_short: "parseSampleLine l = Inl e \<Longrightarrow> length e \<le> 30"
  by (auto simp: parseSampleLine_def Let_def split: if_splits option.splits sum.splits)

lemma prom_error_short: "prom_loop ls st = (Some e, st') \<Longrightarrow> length e \<le> 30"
proof (induction ls arbitrary: st)
  case (Cons l ls)
  then show ?case
    by (auto simp: prom_line_def Let_def dest: sample_error_short split: sum.splits if_splits option.splits)
qed simp

lemma refuse_error: "line_meaning_of raw = Refuse \<Longrightarrow> length (projl (parseSampleLine (trim raw))) \<le> 30"
  by (auto simp: line_meaning_of_def Let_def dest: sample_error_short split: if_splits option.splits sum.splits)

lemma ingest_lines_error:
  assumes "\<forall>l \<in> set ls. newline \<notin> set l" "length (last_error (ing_result st)) \<le> 30"
  shows "length (last_error (ing_result (fold ingest_line ls st))) \<le> 30"
  using assms
proof (induction ls arbitrary: st)
  case (Cons l ls)
  have "length (last_error (ing_result (ingest_line l st))) \<le> 30"
    using Cons.prems refuse_error [of l]
    by (auto simp: ingest_line_meaning ingest_accept_def ingest_reject_def Let_def split: line_meaning.splits)
  with Cons show ?case by simp
qed simp

lemma ingest_error_short: "length (last_error (ing_result (ingestBody r body))) \<le> 30"
proof (cases "prefer_prom body")
  case True
  obtain e st where p: "prom_loop (text_lines body) prom_init = (e, st)" by fastforce
  have "length (snd (snd (parsePrometheusText body))) \<le> 30"
    using prom_error_short [of "text_lines body" prom_init _ st] by (auto simp: parsePrometheusText_def p split: option.splits)
  then show ?thesis
    using ingest_prometheus_all_or_nothing_parts(2) [OF True, of r] by (simp split: if_splits)
next
  case False
  then show ?thesis
    using ingest_lines_error [OF body_lines_clean, of "ingest_start r" body]
    by (simp add: ingestBody_def ingest_start_def IngestResult_new_def)
qed

end
