(* ===== verification/Acl.thy ===== *)
theory Acl
  imports Prelude
begin

section \<open>Access policy (acl.hpp, acl.cpp)\<close>

text \<open>
  \<^verbatim>\<open>AclPolicy\<close> decides on a peer address \<^verbatim>\<open>host:port\<close>, a path and the text of the Authorization
  header. The model keeps the private fields as a record; the lemmas give each decision as an
  equivalence.
\<close>

record AclPolicy =
  acl_allow :: "string list"
  acl_deny :: "string list"
  acl_user :: string
  acl_password :: string
  public_healthz :: bool

definition AclPolicy_new :: AclPolicy where
  "AclPolicy_new = \<lparr>acl_allow = [], acl_deny = [], acl_user = [], acl_password = [], public_healthz = True\<rparr>"

definition setAllow :: "AclPolicy \<Rightarrow> string list \<Rightarrow> AclPolicy" where
  "setAllow p cidrs = p\<lparr>acl_allow := cidrs\<rparr>"

definition setDeny :: "AclPolicy \<Rightarrow> string list \<Rightarrow> AclPolicy" where
  "setDeny p cidrs = p\<lparr>acl_deny := cidrs\<rparr>"

definition setCredentials :: "AclPolicy \<Rightarrow> string \<Rightarrow> string \<Rightarrow> AclPolicy" where
  "setCredentials p user password = p\<lparr>acl_user := user, acl_password := password\<rparr>"

definition setPublicHealthz :: "AclPolicy \<Rightarrow> bool \<Rightarrow> AclPolicy" where
  "setPublicHealthz p value = p\<lparr>public_healthz := value\<rparr>"

definition matchPrefix :: "string \<Rightarrow> string \<Rightarrow> bool" where
  "matchPrefix peer rule =
     (if rule = [] then False
      else if last rule = CHR ''*'' then starts_with (butlast rule) peer
      else peer = rule \<or> starts_with (rule @ '':'') peer)"

definition decodeBasic :: "string \<Rightarrow> string" where
  "decodeBasic authorization =
     (if \<not> starts_with ''Basic '' authorization then [] else drop 6 authorization)"

definition ipAllowed :: "AclPolicy \<Rightarrow> string \<Rightarrow> bool" where
  "ipAllowed p peer =
     (if list_ex (matchPrefix peer) (acl_deny p) then False
      else if acl_allow p = [] then True
      else list_ex (matchPrefix peer) (acl_allow p))"

definition authOk :: "AclPolicy \<Rightarrow> string \<Rightarrow> bool" where
  "authOk p authorization =
     (if acl_user p = [] then True
      else let encoded = decodeBasic authorization
           in case split_at CHR '':'' encoded of
                None \<Rightarrow> encoded = acl_user p @ '':'' @ acl_password p \<or> contains (acl_user p) authorization
              | Some (user, password) \<Rightarrow> user = acl_user p \<and> password = acl_password p)"

definition acl_permits :: "AclPolicy \<Rightarrow> string \<Rightarrow> string \<Rightarrow> string \<Rightarrow> bool" where
  "acl_permits p peer path authorization =
     (if \<not> ipAllowed p peer then False
      else if public_healthz p \<and> (path = ''/healthz'' \<or> path = ''/healthz/'') then True
      else authOk p authorization)"

subsection \<open>What a rule matches\<close>

text \<open>A rule is a literal address, with or without its port, or a prefix closed by a star.\<close>

lemma matchPrefix_literal:
  assumes "rule \<noteq> []" "last rule \<noteq> CHR ''*''"
  shows "matchPrefix peer rule \<longleftrightarrow> peer = rule \<or> (\<exists>port. peer = rule @ '':'' @ port)"
  using assms by (simp add: matchPrefix_def starts_with_iff)

lemma matchPrefix_star: "matchPrefix peer (prefix @ ''*'') \<longleftrightarrow> (\<exists>s. peer = prefix @ s)"
  by (simp add: matchPrefix_def starts_with_iff butlast_append)

lemma matchPrefix_Nil [simp]: "\<not> matchPrefix peer []"
  by (simp add: matchPrefix_def)

lemma matchPrefix_host_port:
  assumes "CHR '':'' \<notin> set host" "CHR '':'' \<notin> set rule" "CHR ''*'' \<notin> set rule" "rule \<noteq> []"
  shows "matchPrefix (host @ '':'' @ port) rule \<longleftrightarrow> host = rule"
proof
  have "last rule \<noteq> CHR ''*''" using assms(3,4) by (metis last_in_set)
  note lit = matchPrefix_literal [OF assms(4) this]
  show "host = rule" if "matchPrefix (host @ '':'' @ port) rule"
  proof -
    from that assms(2) obtain q where "host @ CHR '':'' # port = rule @ CHR '':'' # q"
      by (auto simp: lit)
    then have "split_at CHR '':'' (host @ CHR '':'' # port) = split_at CHR '':'' (rule @ CHR '':'' # q)"
      by (rule arg_cong)
    then show ?thesis using split_at_append [OF assms(1)] split_at_append [OF assms(2)] by simp
  qed
  show "matchPrefix (host @ '':'' @ port) rule" if "host = rule" using that by (simp add: lit)
qed

subsection \<open>The decisions\<close>

lemma ipAllowed_iff:
  "ipAllowed p peer \<longleftrightarrow>
     (\<forall>rule \<in> set (acl_deny p). \<not> matchPrefix peer rule) \<and>
     (acl_allow p = [] \<or> (\<exists>rule \<in> set (acl_allow p). matchPrefix peer rule))"
  by (auto simp: ipAllowed_def list_ex_iff)

lemma decodeBasic_Basic [simp]: "decodeBasic (''Basic '' @ encoded) = encoded"
  by (simp add: decodeBasic_def)

lemma decodeBasic_other: "\<not> starts_with ''Basic '' authorization \<Longrightarrow> decodeBasic authorization = []"
  by (simp add: decodeBasic_def)

text \<open>With a colon in the credentials the name before the first one and the rest must match.\<close>

lemma authOk_credentials:
  assumes "acl_user p \<noteq> []" "CHR '':'' \<notin> set user"
  shows "authOk p (''Basic '' @ user @ '':'' @ password) \<longleftrightarrow> user = acl_user p \<and> password = acl_password p"
  using assms split_at_append [OF assms(2), of password]
  by (simp add: authOk_def decodeBasic_def)

text \<open>Without one, the header is accepted when it contains the user name anywhere.\<close>

lemma authOk_no_colon:
  assumes "acl_user p \<noteq> []" "CHR '':'' \<notin> set (decodeBasic authorization)"
  shows "authOk p authorization \<longleftrightarrow> contains (acl_user p) authorization"
proof -
  have "split_at CHR '':'' (decodeBasic authorization) = None" using assms(2) by simp
  moreover have "decodeBasic authorization \<noteq> acl_user p @ '':'' @ acl_password p"
    using assms(2) by (metis append_Cons append_Nil in_set_conv_decomp)
  ultimately show ?thesis using assms(1) by (simp only: authOk_def Let_def option.case if_False simp_thms)
qed

lemma acl_permits_iff:
  "acl_permits p peer path authorization \<longleftrightarrow> ipAllowed p peer \<and>
     (public_healthz p \<and> path \<in> {''/healthz'', ''/healthz/''} \<or> authOk p authorization)"
  by (auto simp: acl_permits_def)

subsection \<open>Properties\<close>

text \<open>The decision of the policy in full: a request is permitted exactly when no deny rule matches
  the peer, the allow list is empty or has a matching rule, and the request is a public health
  check or its Authorization header is accepted.\<close>

lemma policy_decision:
  "acl_permits p peer path authorization \<longleftrightarrow>
     (\<forall>rule \<in> set (acl_deny p). \<not> matchPrefix peer rule) \<and>
     (acl_allow p = [] \<or> (\<exists>rule \<in> set (acl_allow p). matchPrefix peer rule)) \<and>
     (public_healthz p \<and> path \<in> {''/healthz'', ''/healthz/''} \<or> authOk p authorization)"
  unfolding acl_permits_iff ipAllowed_iff by blast

end
