(* ===== verification/Rate_Limiter.thy ===== *)
theory Rate_Limiter
  imports Metric
begin

section \<open>Rate limiter (rate_limiter.hpp, rate_limiter.cpp)\<close>

text \<open>
  \<^verbatim>\<open>RateLimiter\<close> keeps, for each client, the start of its current one-minute window and the
  calls it let through in it. \<^verbatim>\<open>allow\<close> reads the clock before it takes the mutex, so its time is
  an argument. A client without a bucket gets a fresh one, as \<^verbatim>\<open>buckets_[client_id]\<close> does.
\<close>

record Bucket =
  window_start :: time_point
  bucket_count :: "32 word"

definition Bucket_new :: Bucket where
  "Bucket_new = \<lparr>window_start = 0, bucket_count = 0\<rparr>"

record RateLimiter =
  max_per_minute :: "32 word"
  buckets :: "string \<rightharpoonup> Bucket"

definition kWindow :: int where
  "kWindow = 60000000000"

definition RateLimiter_new :: "32 word \<Rightarrow> RateLimiter" where
  "RateLimiter_new m = \<lparr>max_per_minute = m, buckets = Map.empty\<rparr>"

definition setMaxPerMinute :: "RateLimiter \<Rightarrow> 32 word \<Rightarrow> RateLimiter" where
  "setMaxPerMinute r m = r\<lparr>max_per_minute := m, buckets := Map.empty\<rparr>"

definition limiter_allow :: "RateLimiter \<Rightarrow> string \<Rightarrow> time_point \<Rightarrow> bool \<times> RateLimiter" where
  "limiter_allow r client_id now =
     (if max_per_minute r = 0 then (True, r)
      else
        let bucket = (case buckets r client_id of Some b \<Rightarrow> b | None \<Rightarrow> Bucket_new);
            bucket = (if window_start bucket = 0 \<or> elapsed_ns now (window_start bucket) \<ge> kWindow
                      then bucket\<lparr>window_start := now, bucket_count := 0\<rparr> else bucket)
        in if bucket_count bucket \<ge> max_per_minute r
           then (False, r\<lparr>buckets := (buckets r)(client_id \<mapsto> bucket)\<rparr>)
           else (True, r\<lparr>buckets := (buckets r)(client_id \<mapsto> bucket\<lparr>bucket_count := bucket_count bucket + 1\<rparr>)\<rparr>))"

text \<open>The answers of a run of calls, each a client and a time.\<close>

fun limiter_run :: "RateLimiter \<Rightarrow> (string \<times> time_point) list \<Rightarrow> bool list \<times> RateLimiter" where
  "limiter_run r [] = ([], r)"
| "limiter_run r ((client, now) # calls) =
     (let (a, r1) = limiter_allow r client now; (answers, r2) = limiter_run r1 calls in (a # answers, r2))"

text \<open>The calls of one client that were let through.\<close>

definition admitted :: "RateLimiter \<Rightarrow> string \<Rightarrow> (string \<times> time_point) list \<Rightarrow> nat" where
  "admitted r client calls =
     length (filter (\<lambda>((c, t), a). c = client \<and> a) (zip calls (fst (limiter_run r calls))))"

subsection \<open>The invariant and the effect of a call\<close>

definition limiter_inv :: "RateLimiter \<Rightarrow> bool" where
  "limiter_inv r \<longleftrightarrow> (\<forall>client b. buckets r client = Some b \<longrightarrow> bucket_count b \<le> max_per_minute r)"

lemma limiter_inv_new [simp]: "limiter_inv (RateLimiter_new m)" "limiter_inv (setMaxPerMinute r m)"
  by (simp_all add: limiter_inv_def RateLimiter_new_def setMaxPerMinute_def)

lemma limiter_allow_frame [simp]:
  "max_per_minute (snd (limiter_allow r client now)) = max_per_minute r"
  "c \<noteq> client \<Longrightarrow> buckets (snd (limiter_allow r client now)) c = buckets r c"
  by (simp_all add: limiter_allow_def Let_def)

lemma word_below_inc:
  fixes n m :: "'a::len word"
  assumes "\<not> m \<le> n"
  shows "unat (n + 1) = Suc (unat n)" "n + 1 \<le> m"
proof -
  have "unat n < unat m" using assms by (simp add: word_le_nat_alt)
  moreover have "unat m < 2 ^ LENGTH('a)" by simp
  ultimately have "Suc (unat n) < 2 ^ LENGTH('a)" by linarith
  then show suc: "unat (n + 1) = Suc (unat n)" by (simp add: unat_word_ariths unat_1)
  with \<open>unat n < unat m\<close> show "n + 1 \<le> m" by (simp add: word_le_nat_alt)
qed

lemma limiter_inv_allow:
  assumes "limiter_inv r"
  shows "limiter_inv (snd (limiter_allow r client now))"
proof -
  have "1 \<le> max_per_minute r" if "max_per_minute r \<noteq> 0"
    using that word_below_inc(2) [of "max_per_minute r" 0] by (simp add: word_gt_0)
  then show ?thesis
    using assms word_below_inc(2)
    by (auto simp: limiter_inv_def limiter_allow_def Let_def Bucket_new_def
        intro: order_antisym split: option.splits)
qed

text \<open>What the limiter may still admit for a client in its current window.\<close>

definition room :: "RateLimiter \<Rightarrow> string \<Rightarrow> nat" where
  "room r client = (case buckets r client of
     None \<Rightarrow> unat (max_per_minute r) | Some b \<Rightarrow> unat (max_per_minute r) - unat (bucket_count b))"

definition in_window :: "RateLimiter \<Rightarrow> string \<Rightarrow> time_point \<Rightarrow> bool" where
  "in_window r client now \<longleftrightarrow>
     (\<exists>b. buckets r client = Some b \<and> window_start b \<noteq> 0 \<and> elapsed_ns now (window_start b) < kWindow)"

lemma allow_in_window:
  assumes "limiter_inv r" "max_per_minute r \<noteq> 0" "in_window r client now"
  shows "fst (limiter_allow r client now) \<longleftrightarrow> room r client > 0"
    and "room (snd (limiter_allow r client now)) client = room r client - 1"
    and "map_option window_start (buckets (snd (limiter_allow r client now)) client) =
      map_option window_start (buckets r client)"
proof -
  obtain b where b: "buckets r client = Some b" "window_start b \<noteq> 0"
      "elapsed_ns now (window_start b) < kWindow"
    using assms(3) by (auto simp: in_window_def)
  define n where "n = bucket_count b"
  have le: "unat n \<le> unat (max_per_minute r)"
    using assms(1) b(1) by (auto simp: limiter_inv_def n_def word_le_nat_alt)
  note suc = word_below_inc(1) [of "max_per_minute r" n]
  show "fst (limiter_allow r client now) \<longleftrightarrow> room r client > 0"
    using assms(2) b by (simp add: limiter_allow_def room_def Let_def word_le_nat_alt n_def)
  show "room (snd (limiter_allow r client now)) client = room r client - 1"
    using assms(2) b le suc by (auto simp: limiter_allow_def room_def Let_def word_le_nat_alt n_def)
  show "map_option window_start (buckets (snd (limiter_allow r client now)) client) =
      map_option window_start (buckets r client)"
    using assms(2) b by (simp add: limiter_allow_def Let_def)
qed

lemma allow_new_window:
  assumes "max_per_minute r \<noteq> 0" "\<not> in_window r client now"
  shows "fst (limiter_allow r client now)"
    and "room (snd (limiter_allow r client now)) client = unat (max_per_minute r) - 1"
    and "map_option window_start (buckets (snd (limiter_allow r client now)) client) = Some now"
  using assms
  by (auto simp: limiter_allow_def room_def in_window_def Let_def Bucket_new_def split: option.splits)

lemma room_le: "room r client \<le> unat (max_per_minute r)"
  by (simp add: room_def split: option.splits)

subsection \<open>Runs of calls\<close>

lemma limiter_run_length: "length (fst (limiter_run r calls)) = length calls"
  by (induction calls arbitrary: r) (auto simp: case_prod_beta Let_def)

lemma admitted_Nil [simp]: "admitted r client [] = 0"
  by (simp add: admitted_def)

lemma admitted_Cons:
  "admitted r client ((c, t) # calls) =
     (if c = client \<and> fst (limiter_allow r c t) then 1 else 0) + admitted (snd (limiter_allow r c t)) client calls"
  by (auto simp: admitted_def case_prod_beta Let_def)

text \<open>Calls of other clients do not touch a client's bucket, and its own answers depend on nothing else.\<close>

lemma limiter_allow_local:
  assumes "max_per_minute r = max_per_minute r'" "buckets r client = buckets r' client"
  shows "fst (limiter_allow r client t) = fst (limiter_allow r' client t)"
    and "buckets (snd (limiter_allow r client t)) client = buckets (snd (limiter_allow r' client t)) client"
  using assms by (simp_all add: limiter_allow_def Let_def)

lemma admitted_isolated:
  assumes "max_per_minute r = max_per_minute r'" "buckets r client = buckets r' client"
  shows "admitted r client calls = admitted r' client (filter (\<lambda>(c, t). c = client) calls)"
  using assms
proof (induction calls arbitrary: r r')
  case Nil
  then show ?case by simp
next
  case (Cons call calls)
  obtain c t where call: "call = (c, t)" by fastforce
  show ?case
  proof (cases "c = client")
    case True
    then have "call = (client, t)" by (simp add: call)
    with Cons.prems limiter_allow_local [of r r' client t]
      Cons.IH [of "snd (limiter_allow r client t)" "snd (limiter_allow r' client t)"]
    show ?thesis by (simp add: admitted_Cons)
  next
    case False
    with Cons.prems Cons.IH [of "snd (limiter_allow r c t)" r'] show ?thesis
      by (simp add: call admitted_Cons)
  qed
qed

subsection \<open>Bounds over a minute\<close>

lemma elapsed_ns_diff:
  assumes "unat a < 2 ^ 63" "unat b < 2 ^ 63"
  shows "elapsed_ns a b = int (unat a) - int (unat b)"
proof -
  define x y where "x = int (unat a)" and "y = int (unat b)"
  have "x < int (2 ^ 63)" "y < int (2 ^ 63)"
    unfolding x_def y_def by (simp_all only: of_nat_less_iff assms)
  moreover have "0 \<le> x" "0 \<le> y" by (simp_all add: x_def y_def)
  ultimately have "- (2 ^ 63) \<le> x - y" "x - y < 2 ^ 63" by simp_all
  then have "signed_take_bit 63 (x - y) = x - y" by (intro signed_take_bit_int_eq_self) simp_all
  moreover have "sint (word_of_int z :: 64 word) = signed_take_bit 63 z" for z
    by (simp add: sint_sbintrunc')
  moreover have "a - b = word_of_int (x - y)" by (simp add: x_def y_def)
  ultimately show ?thesis by (simp only: elapsed_ns_def x_def y_def)
qed

text \<open>All calls fall into one minute, on a clock that has not reached \<open>2 ^ 63\<close> nanoseconds.\<close>

definition within_minute :: "nat \<Rightarrow> (string \<times> time_point) list \<Rightarrow> bool" where
  "within_minute t0 calls \<longleftrightarrow> 0 < t0 \<and> t0 + 60000000000 \<le> 2 ^ 63 \<and>
     (\<forall>(c, t) \<in> set calls. t0 \<le> unat t \<and> unat t < t0 + 60000000000)"

lemma within_minute_window:
  assumes "within_minute t0 ((c, t) # calls)" "buckets r client = Some b"
    "t0 \<le> unat (window_start b)" "unat (window_start b) < t0 + 60000000000"
  shows "in_window r client t"
proof -
  have "elapsed_ns t (window_start b) = int (unat t) - int (unat (window_start b))"
    using assms by (intro elapsed_ns_diff) (auto simp: within_minute_def)
  moreover have "window_start b \<noteq> 0" using assms(1,3) by (auto simp: within_minute_def)
  moreover have "int (unat t) - int (unat (window_start b)) < 60000000000"
    using assms by (auto simp: within_minute_def simp del: of_nat_unat)
  ultimately show ?thesis using assms(2) by (auto simp: in_window_def kWindow_def)
qed

lemma admitted_in_window:
  assumes "limiter_inv r" "max_per_minute r \<noteq> 0" "within_minute t0 calls"
    and "\<exists>b. buckets r client = Some b \<and> t0 \<le> unat (window_start b) \<and> unat (window_start b) < t0 + 60000000000"
  shows "admitted r client calls = min (room r client) (length (filter (\<lambda>(c, t). c = client) calls))"
  using assms
proof (induction calls arbitrary: r)
  case Nil
  then show ?case by simp
next
  case (Cons call calls)
  obtain c t where call: "call = (c, t)" by fastforce
  obtain b where b: "buckets r client = Some b" "t0 \<le> unat (window_start b)"
      "unat (window_start b) < t0 + 60000000000" using Cons.prems(4) by blast
  let ?r = "snd (limiter_allow r c t)"
  have rest: "within_minute t0 calls" using Cons.prems(3) by (auto simp: within_minute_def)
  note inv = limiter_inv_allow [OF Cons.prems(1), of c t]
  show ?case
  proof (cases "c = client")
    case True
    note win = within_minute_window [OF Cons.prems(3) [unfolded call] b]
    note step = allow_in_window [OF Cons.prems(1,2) win]
    have "\<exists>b. buckets ?r client = Some b \<and> t0 \<le> unat (window_start b) \<and> unat (window_start b) < t0 + 60000000000"
      using step(3) b True by auto
    from Cons.IH [OF inv _ rest this] Cons.prems(2) step(1,2) True show ?thesis
      by (auto simp: call admitted_Cons)
  next
    case False
    have "room ?r client = room r client" using False by (simp add: room_def split: option.split)
    moreover have "\<exists>b. buckets ?r client = Some b \<and> t0 \<le> unat (window_start b) \<and> unat (window_start b) < t0 + 60000000000"
      using False b by simp
    ultimately show ?thesis using Cons.IH [OF inv _ rest] Cons.prems(2) False by (simp add: call admitted_Cons)
  qed
qed

lemma admitted_minute:
  assumes "limiter_inv r" "max_per_minute r \<noteq> 0" "within_minute t0 calls"
  shows "admitted r client calls \<le> room r client + unat (max_per_minute r)"
  using assms
proof (induction calls arbitrary: r)
  case Nil
  then show ?case by simp
next
  case (Cons call calls)
  obtain c t where call: "call = (c, t)" by fastforce
  let ?r = "snd (limiter_allow r c t)"
  have rest: "within_minute t0 calls" using Cons.prems(3) by (auto simp: within_minute_def)
  note inv = limiter_inv_allow [OF Cons.prems(1), of c t]
  have IH: "admitted ?r client calls \<le> room ?r client + unat (max_per_minute r)"
    using Cons.IH [OF inv _ rest] Cons.prems(2) by simp
  consider "c \<noteq> client" | "c = client" "in_window r client t" | "c = client" "\<not> in_window r client t" by blast
  then show ?case
  proof cases
    case 1
    then have "room ?r client = room r client" by (simp add: room_def split: option.split)
    with 1 IH show ?thesis by (simp add: call admitted_Cons)
  next
    case 2
    with IH allow_in_window [OF Cons.prems(1,2) 2(2)] show ?thesis by (auto simp: call admitted_Cons)
  next
    case 3
    note step = allow_new_window [OF Cons.prems(2) 3(2)]
    have "unat (max_per_minute r) > 0" using Cons.prems(2) by (simp add: unat_gt_0)
    moreover have "\<exists>b. buckets ?r client = Some b \<and> t0 \<le> unat (window_start b) \<and> unat (window_start b) < t0 + 60000000000"
      using step(3) 3(1) Cons.prems(3) by (auto simp: call within_minute_def)
    from admitted_in_window [OF inv _ rest this] Cons.prems(2)
    have "admitted ?r client calls \<le> room ?r client" by simp
    ultimately show ?thesis using step 3(1) by (simp add: call admitted_Cons)
  qed
qed

lemma admitted_fresh:
  assumes "limiter_inv r" "max_per_minute r \<noteq> 0" "within_minute t0 calls" "buckets r client = None"
  shows "admitted r client calls = min (unat (max_per_minute r)) (length (filter (\<lambda>(c, t). c = client) calls))"
  using assms
proof (induction calls arbitrary: r)
  case Nil
  then show ?case by simp
next
  case (Cons call calls)
  obtain c t where call: "call = (c, t)" by fastforce
  let ?r = "snd (limiter_allow r c t)"
  have rest: "within_minute t0 calls" using Cons.prems(3) by (auto simp: within_minute_def)
  note inv = limiter_inv_allow [OF Cons.prems(1), of c t]
  show ?case
  proof (cases "c = client")
    case False
    with Cons.IH [OF inv _ rest] Cons.prems(2,4) show ?thesis by (simp add: call admitted_Cons)
  next
    case True
    have "\<not> in_window r client t" using Cons.prems(4) by (simp add: in_window_def)
    note step = allow_new_window [OF Cons.prems(2) this]
    have "unat (max_per_minute r) > 0" using Cons.prems(2) by (simp add: unat_gt_0)
    moreover have "\<exists>b. buckets ?r client = Some b \<and> t0 \<le> unat (window_start b) \<and> unat (window_start b) < t0 + 60000000000"
      using step(3) True Cons.prems(3) by (auto simp: call within_minute_def)
    from admitted_in_window [OF inv _ rest this] Cons.prems(2)
    have "admitted ?r client calls = min (room ?r client) (length (filter (\<lambda>(c, t). c = client) calls))" by simp
    ultimately show ?thesis using step True by (auto simp: call admitted_Cons)
  qed
qed

subsection \<open>Properties\<close>

text \<open>C34: From any state the limiter can reach, calls that all fall into one minute admit a client at
  most twice the configured number: the window is fixed, so a burst may straddle its end.\<close>

theorem at_most_two_windows_per_minute:
  assumes "limiter_inv r" "max_per_minute r \<noteq> 0" "within_minute t0 calls"
  shows "admitted r client calls \<le> 2 * unat (max_per_minute r)"
  using admitted_minute [OF assms, of client] room_le [of r client] by linarith

theorem at_most_two_windows_per_minute_witness:
  "admitted (RateLimiter_new 1) ''a'' [(''a'', 5), (''a'', 6), (''b'', 7)] \<le> 2 * unat (1 :: 32 word)"
  using at_most_two_windows_per_minute [of "RateLimiter_new 1" 1 "[(''a'', 5), (''a'', 6), (''b'', 7)]" "''a''"]
  by (simp add: within_minute_def RateLimiter_new_def limiter_inv_def)

text \<open>C35: A client the limiter has not seen is served exactly up to the limit in its first minute:
  of its calls the smaller of their number and the limit is admitted, whatever others do.\<close>

theorem first_minute_exact:
  assumes "limiter_inv r" "max_per_minute r \<noteq> 0" "within_minute t0 calls" "buckets r client = None"
  shows "admitted r client calls =
    min (unat (max_per_minute r)) (length (filter (\<lambda>(c, t). c = client) calls))"
  by (rule admitted_fresh [OF assms])

theorem first_minute_exact_witness:
  "admitted (RateLimiter_new 2) ''a'' [(''a'', 5), (''a'', 6), (''b'', 7), (''a'', 8)] = 2"
  using first_minute_exact [of "RateLimiter_new 2" 1 "[(''a'', 5), (''a'', 6), (''b'', 7), (''a'', 8)]" "''a''"]
  by (simp add: within_minute_def RateLimiter_new_def limiter_inv_def)

end
