(* ===== verification/Field_Scanner.thy ===== *)
theory Field_Scanner
  imports Prelude
begin

section \<open>Keyed fields of a line\<close>

text \<open>
  The scanner shared by \<^verbatim>\<open>parseMetricLine\<close> (config.cpp) and \<^verbatim>\<open>parseSnapshotLine\<close> (snapshot.cpp):
  after the name and the type a line holds fields \<^verbatim>\<open>key=text\<close>. The text of most fields is one
  word; that of \<^verbatim>\<open>help=\<close> runs up to a known key that follows white space.
\<close>

definition word_of :: "string \<Rightarrow> string" where
  "word_of s = takeWhile nonspace s"

definition after_word :: "string \<Rightarrow> string" where
  "after_word s = dropWhile nonspace s"

text \<open>The text of a help field and what follows it; the flag tells whether the previous byte of
  the field is white space.\<close>

fun scan_help :: "string list \<Rightarrow> bool \<Rightarrow> string \<Rightarrow> string \<times> string" where
  "scan_help keys sp [] = ([], [])"
| "scan_help keys sp (c # cs) =
     (if sp \<and> list_ex (\<lambda>k. starts_with k (c # cs)) keys then ([], c # cs)
      else let (h, r) = scan_help keys (isspace c) cs in (c # h, r))"

lemma length_after_word: "length (after_word s) \<le> length s"
  by (simp add: after_word_def length_dropWhile_le)

lemma length_after_word_less: "s \<noteq> [] \<Longrightarrow> nonspace (hd s) \<Longrightarrow> length (after_word s) < length s"
  by (cases s) (simp_all add: after_word_def le_imp_less_Suc length_dropWhile_le)

lemma length_scan_help: "length (snd (scan_help keys sp s)) \<le> length s"
  by (induction keys sp s rule: scan_help.induct) (auto simp: case_prod_beta Let_def)

lemma hd_skip_spaces: "dropWhile isspace s \<noteq> [] \<Longrightarrow> nonspace (hd (dropWhile isspace s))"
  by (rule hd_dropWhile)

text \<open>The field shortens what is left whatever its key.\<close>

lemma length_drop_skip:
  assumes "s = dropWhile isspace r" "s \<noteq> []" "0 < n"
  shows "length (drop n s) < length r"
proof -
  have "0 < length s" using assms(2) by simp
  with assms(3) have "length (drop n s) < length s" unfolding length_drop by linarith
  also have "length s \<le> length r" by (simp add: assms(1) length_dropWhile_le)
  finally show ?thesis .
qed

lemma length_drop_word:
  "s = dropWhile isspace r \<Longrightarrow> s \<noteq> [] \<Longrightarrow> 0 < n \<Longrightarrow> length (after_word (drop n s)) < length r"
  using length_drop_skip length_after_word by (metis order_le_less_trans)

lemma length_drop_help:
  "s = dropWhile isspace r \<Longrightarrow> s \<noteq> [] \<Longrightarrow> 0 < n \<Longrightarrow>
     length (snd (scan_help keys sp (drop n s))) < length r"
  using length_drop_skip length_scan_help by (metis order_le_less_trans)

lemma length_plain_word:
  "s = dropWhile isspace r \<Longrightarrow> s \<noteq> [] \<Longrightarrow> length (after_word s) < length r"
  using length_after_word_less [of s] hd_skip_spaces [of r] length_dropWhile_le [of isspace r] by auto

text \<open>A help text in which no key follows white space is scanned to its end.\<close>

definition key_free :: "string list \<Rightarrow> string \<Rightarrow> bool" where
  "key_free keys s \<longleftrightarrow> \<not> (\<exists>l c r k. s = l @ c # k @ r \<and> isspace c \<and> k \<in> set keys)"

lemma key_free_Cons: "key_free keys (c # s) \<Longrightarrow> key_free keys s"
  unfolding key_free_def by (metis append_Cons)

lemma key_free_head: "key_free keys (c # s) \<Longrightarrow> isspace c \<Longrightarrow> k \<in> set keys \<Longrightarrow> \<not> starts_with k s"
  unfolding key_free_def starts_with_iff by (metis append_Nil)

lemma scan_help_key_free:
  "key_free keys s \<Longrightarrow> (sp \<Longrightarrow> \<forall>k \<in> set keys. \<not> starts_with k s) \<Longrightarrow> scan_help keys sp s = (s, [])"
proof (induction s arbitrary: sp)
  case Nil
  then show ?case by simp
next
  case (Cons c s)
  have "scan_help keys (isspace c) s = (s, [])"
    using Cons.IH [OF key_free_Cons [OF Cons.prems(1)]] key_free_head [OF Cons.prems(1)] by blast
  moreover have "\<not> (sp \<and> list_ex (\<lambda>k. starts_with k (c # s)) keys)"
    using Cons.prems(2) by (auto simp: list_ex_iff)
  ultimately show ?case by simp
qed

text \<open>For evaluation on concrete text.\<close>

fun key_free_from :: "string list \<Rightarrow> string \<Rightarrow> bool" where
  "key_free_from keys [] = True"
| "key_free_from keys (c # s) =
     (\<not> (isspace c \<and> list_ex (\<lambda>k. starts_with k s) keys) \<and> key_free_from keys s)"

lemma key_free_code [code]: "key_free keys s = key_free_from keys s"
proof (induction s)
  case Nil
  then show ?case by (simp add: key_free_def)
next
  case (Cons c s)
  show ?case
  proof
    assume kf: "key_free keys (c # s)"
    with Cons.IH key_free_Cons [OF kf] key_free_head [OF kf] show "key_free_from keys (c # s)"
      by (auto simp: list_ex_iff)
  next
    assume kf: "key_free_from keys (c # s)"
    then have s: "key_free keys s" and h: "\<not> (isspace c \<and> list_ex (\<lambda>k. starts_with k s) keys)"
      using Cons.IH by simp_all
    show "key_free keys (c # s)"
      unfolding key_free_def
    proof (rule notI, elim exE conjE)
      fix l d r k assume e: "c # s = l @ d # k @ r" "isspace d" "k \<in> set keys"
      show False
      proof (cases l)
        case Nil
        with e h show False by (auto simp: list_ex_iff starts_with_iff)
      next
        case (Cons a l')
        with e s show False unfolding key_free_def by auto
      qed
    qed
  qed
qed

lemma word_of_append [scan_simps]:
  "\<forall>c \<in> set w. nonspace c \<Longrightarrow> r = [] \<or> isspace (hd r) \<Longrightarrow> word_of (w @ r) = w \<and> after_word (w @ r) = r"
  by (cases r) (auto simp: word_of_def after_word_def takeWhile_append2 dropWhile_append2)

end
