(* ===== verification/Net.thy ===== *)
theory Net
  imports Double_Text
begin

section \<open>Connections and the HTTP client (net.hpp, net.cpp)\<close>

text \<open>
  A plain TCP connection is the list of what its socket will deliver: a chunk of bytes that is
  available at once, or a stall, where \<^verbatim>\<open>poll\<close> times out before anything arrives. When the
  list is exhausted the peer has closed and \<^verbatim>\<open>recv\<close> returns zero. The functions below consume
  it the way \<^verbatim>\<open>recvLine\<close>, \<^verbatim>\<open>recvAvailable\<close> and \<^verbatim>\<open>recvExact\<close> do, and \<open>httpGet\<close> puts
  them together. The main facts are that complete input is read the same way however TCP has cut
  it into chunks. The branches for a TLS session are in \<open>Tls_Session\<close>.
\<close>

subsection \<open>Host and port\<close>

text \<open>\<^verbatim>\<open>std::stoi\<close> throws out of \<^verbatim>\<open>parseHostPort\<close>; the port is truncated to sixteen bits.
  On success the result is the returned flag with the host and the port.\<close>

type_synonym port_t = "16 word"

definition count_colons :: "string \<Rightarrow> nat" where
  "count_colons s = length (filter (\<lambda>c. c = CHR '':'') s)"

definition parseHostPort :: "string \<Rightarrow> port_t \<Rightarrow> std_exn + bool \<times> string \<times> port_t" where
  "parseHostPort target default_port =
     (if target = [] then Inr (False, [], 0)
      else if count_colons target = 1 then
        (case split_at CHR '':'' target of
           None \<Rightarrow> Inr (True, target, default_port)
         | Some (host, port_text) \<Rightarrow>
             (case stoi port_text of
                Inl e \<Rightarrow> Inl e
              | Inr n \<Rightarrow> Inr (host \<noteq> [], host, word_of_int n)))
      else Inr (True, target, default_port))"

subsection \<open>Receiving\<close>

datatype rx_event = Chunk string | Stall

type_synonym rx_stream = "rx_event list"

text \<open>\<^verbatim>\<open>poll\<close> and one \<^verbatim>\<open>recv\<close> of at most \<open>n\<close> bytes: the bytes, or nothing on a time-out or at
  the end of the stream.\<close>

fun recv_some :: "nat \<Rightarrow> rx_stream \<Rightarrow> string option \<times> rx_stream" where
  "recv_some n [] = (None, [])"
| "recv_some n (Stall # es) = (None, es)"
| "recv_some n (Chunk s # es) =
     (if s = [] then recv_some n es
      else (Some (take n s), if n < length s then Chunk (drop n s) # es else es))"

definition strip_line_end :: "string \<Rightarrow> string" where
  "strip_line_end line = rev (dropWhile (\<lambda>c. c = carriage_return \<or> c = newline) (rev line))"

text \<open>The loop of \<^verbatim>\<open>recvLine\<close>, with the bytes the line may still take.\<close>

fun recv_line_loop :: "nat \<Rightarrow> string \<Rightarrow> rx_stream \<Rightarrow> bool \<times> string \<times> rx_stream" where
  "recv_line_loop 0 line es = (False, line, es)"
| "recv_line_loop (Suc k) line es =
     (case recv_some 1 es of
        (None, es') \<Rightarrow> (False, line, es')
      | (Some bytes, es') \<Rightarrow>
          if bytes = [newline] then (True, strip_line_end line, es')
          else recv_line_loop k (line @ bytes) es')"

definition max_line :: nat where
  "max_line = 8192"

definition recvLine :: "rx_stream \<Rightarrow> bool \<times> string \<times> rx_stream" where
  "recvLine es = recv_line_loop max_line [] es"

definition recvAvailable :: "string \<Rightarrow> nat \<Rightarrow> rx_stream \<Rightarrow> bool \<times> string \<times> rx_stream" where
  "recvAvailable data max_bytes es =
     (case recv_some 4096 es of
        (None, es') \<Rightarrow> (False, data, es')
      | (Some bytes, es') \<Rightarrow> (length (data @ bytes) \<le> max_bytes, data @ bytes, es'))"

text \<open>The weight of a stream bounds the calls it can answer.\<close>

fun rx_weight :: "rx_stream \<Rightarrow> nat" where
  "rx_weight [] = 0"
| "rx_weight (Stall # es) = Suc (rx_weight es)"
| "rx_weight (Chunk s # es) = length s + rx_weight es"

lemma recv_some_weight:
  "recv_some n es = (Some bytes, es') \<Longrightarrow> 0 < n \<Longrightarrow> bytes \<noteq> [] \<and> rx_weight es' < rx_weight es"
  by (induction n es rule: recv_some.induct) (auto split: if_splits)

lemma recv_some_le: "recv_some n es = (r, es') \<Longrightarrow> rx_weight es' \<le> rx_weight es"
  by (induction n es rule: recv_some.induct) (auto split: if_splits)

function recv_exact_loop :: "string \<Rightarrow> nat \<Rightarrow> rx_stream \<Rightarrow> bool \<times> string \<times> rx_stream" where
  "recv_exact_loop data bytes es =
     (if length data < bytes then
        (case recv_some (min 4096 (bytes - length data)) es of
           (None, es') \<Rightarrow> (False, data, es')
         | (Some got, es') \<Rightarrow> recv_exact_loop (data @ got) bytes es')
      else (True, data, es))"
  by pat_completeness auto

termination
  by (relation "measure (\<lambda>(data, bytes, es). rx_weight es)") (auto dest: recv_some_weight [OF sym])

declare recv_exact_loop.simps [simp del]

definition recvExact :: "nat \<Rightarrow> rx_stream \<Rightarrow> bool \<times> string \<times> rx_stream" where
  "recvExact bytes es = recv_exact_loop [] bytes es"

subsection \<open>What a stream holds\<close>

text \<open>The bytes that arrive before the first stall or the end of the stream.\<close>

fun rx_bytes :: "rx_stream \<Rightarrow> string" where
  "rx_bytes [] = []"
| "rx_bytes (Stall # es) = []"
| "rx_bytes (Chunk s # es) = s @ rx_bytes es"

lemma recv_some_bytes:
  assumes "0 < n" "rx_bytes es \<noteq> []"
  obtains k es' where "recv_some n es = (Some (take k (rx_bytes es)), es')" "0 < k" "k \<le> n"
    "rx_bytes es' = drop k (rx_bytes es)" "k \<le> length (rx_bytes es)"
proof -
  have "\<exists>k es'. recv_some n es = (Some (take k (rx_bytes es)), es') \<and> 0 < k \<and> k \<le> n \<and>
      rx_bytes es' = drop k (rx_bytes es) \<and> k \<le> length (rx_bytes es)"
    using assms
  proof (induction n es rule: recv_some.induct)
    case (3 n s es)
    show ?case
    proof (cases "s = []")
      case True
      with 3 show ?thesis by simp
    next
      case False
      with 3(2) show ?thesis
        by (intro exI [of _ "min n (length s)"]) (auto simp: min_def)
    qed
  qed simp_all
  with that show ?thesis by blast
qed

lemma recv_some_end: "rx_bytes es = [] \<Longrightarrow> \<exists>es'. recv_some n es = (None, es')"
  by (induction n es rule: recv_some.induct) auto

lemma recv_one:
  assumes "rx_bytes es = c # cs"
  obtains es' where "recv_some 1 es = (Some [c], es')" "rx_bytes es' = cs"
proof -
  have "rx_bytes es \<noteq> []" using assms by simp
  from recv_some_bytes [OF zero_less_one this] obtain k es' where
    "recv_some 1 es = (Some (take k (rx_bytes es)), es')" "0 < k" "k \<le> 1"
    "rx_bytes es' = drop k (rx_bytes es)" by metis
  with that assms show ?thesis by (cases k) auto
qed

lemma recv_line_loop_bytes:
  assumes "rx_bytes es = l @ newline # rest" "newline \<notin> set l" "length l < k"
  shows "\<exists>es'. recv_line_loop k line es = (True, strip_line_end (line @ l), es') \<and> rx_bytes es' = rest"
  using assms
proof (induction l arbitrary: k line es)
  case Nil
  then obtain k' where k: "k = Suc k'" by (cases k) auto
  from Nil(1) obtain es' where "recv_some 1 es = (Some [newline], es')" "rx_bytes es' = rest"
    using recv_one by (metis append_Nil)
  then show ?case by (simp add: k)
next
  case (Cons c l)
  then obtain k' where k: "k = Suc k'" by (cases k) auto
  from Cons.prems(1) obtain es' where es': "recv_some 1 es = (Some [c], es')" "rx_bytes es' = l @ newline # rest"
    using recv_one by (metis append_Cons)
  from Cons.IH [OF es'(2), of k' "line @ [c]"] Cons.prems(2,3) es'(1) show ?case by (auto simp: k)
qed

lemma recvLine_bytes:
  assumes "rx_bytes es = l @ newline # rest" "newline \<notin> set l" "length l < max_line"
  obtains es' where "recvLine es = (True, strip_line_end l, es')" "rx_bytes es' = rest"
  using recv_line_loop_bytes [OF assms, of "[]"] by (auto simp: recvLine_def)

lemma recv_line_loop_weight: "recv_line_loop k line es = (True, l, es') \<Longrightarrow> rx_weight es' < rx_weight es"
proof (induction k line es rule: recv_line_loop.induct)
  case (2 k line es)
  obtain r es1 where r: "recv_some 1 es = (r, es1)" by fastforce
  with 2 show ?case
    using recv_some_weight [of 1 es _ es1]
    by (cases r) (auto split: if_splits intro: less_trans)
qed simp

lemma recvLine_weight: "recvLine es = (True, l, es') \<Longrightarrow> rx_weight es' < rx_weight es"
  by (simp add: recvLine_def recv_line_loop_weight)

lemma recv_exact_loop_bytes:
  assumes "bytes - length data \<le> length (rx_bytes es)" "length data \<le> bytes"
  shows "\<exists>es'. recv_exact_loop data bytes es = (True, data @ take (bytes - length data) (rx_bytes es), es') \<and>
    rx_bytes es' = drop (bytes - length data) (rx_bytes es)"
  using assms
proof (induction data bytes es rule: recv_exact_loop.induct)
  case (1 data bytes es)
  show ?case
  proof (cases "length data < bytes")
    case False
    then show ?thesis using "1.prems" by (simp add: recv_exact_loop.simps)
  next
    case True
    then have "0 < min 4096 (bytes - length data)" "rx_bytes es \<noteq> []" using "1.prems" by auto
    from recv_some_bytes [OF this] obtain k es1 where
      k: "recv_some (min 4096 (bytes - length data)) es = (Some (take k (rx_bytes es)), es1)"
        "0 < k" "k \<le> min 4096 (bytes - length data)" "rx_bytes es1 = drop k (rx_bytes es)"
        "k \<le> length (rx_bytes es)" .
    let ?data = "data @ take k (rx_bytes es)"
    have len: "length ?data = length data + k" using k(5) by simp
    have left: "bytes - length ?data \<le> length (rx_bytes es1)" "length ?data \<le> bytes"
      using k(3-5) "1.prems"(1) True unfolding len by (simp, arith)
    obtain es' where es': "recv_exact_loop ?data bytes es1 =
        (True, ?data @ take (bytes - length ?data) (rx_bytes es1), es')"
      "rx_bytes es' = drop (bytes - length ?data) (rx_bytes es1)"
      using "1.IH" [OF True k(1) [symmetric] refl left] by blast
    have "recv_exact_loop data bytes es = recv_exact_loop ?data bytes es1"
      using True k(1) by (simp add: recv_exact_loop.simps [of data])
    moreover have "bytes - length data = k + (bytes - length ?data)" using left(2) len by simp
    ultimately show ?thesis
      using es' k(4) by (simp add: take_add add.commute)
  qed
qed

lemma recvExact_bytes:
  assumes "n \<le> length (rx_bytes es)"
  obtains es' where "recvExact n es = (True, take n (rx_bytes es), es')" "rx_bytes es' = drop n (rx_bytes es)"
  using recv_exact_loop_bytes [of n "[]" es] assms by (auto simp: recvExact_def)

subsection \<open>The HTTP client\<close>

record HttpResponse =
  status :: int
  body :: string
  resp_error :: string

definition HttpResponse_new :: HttpResponse where
  "HttpResponse_new = \<lparr>status = 0, body = [], resp_error = []\<rparr>"

text \<open>\<^verbatim>\<open>in >> n\<close> for an \<^verbatim>\<open>int\<close>: zero when there are no digits, clamped on overflow.\<close>

definition istream_int :: "string \<Rightarrow> int" where
  "istream_int s =
     (let (neg, r) = scan_sign (dropWhile isspace s); ds = takeWhile isdigit r;
          n = (if neg then - int (digits_val ds) else int (digits_val ds))
      in if ds = [] then 0 else max (- (2 ^ 31)) (min (2 ^ 31 - 1) n))"

definition status_of :: "string \<Rightarrow> int" where
  "status_of line = (case next_token line of None \<Rightarrow> 0 | Some (http, r) \<Rightarrow> istream_int r)"

text \<open>\<^verbatim>\<open>while (recvLine(line) && !line.empty()) {}\<close>\<close>

function skip_headers :: "rx_stream \<Rightarrow> rx_stream" where
  "skip_headers es =
     (case recvLine es of (ok, line, es') \<Rightarrow> if ok \<and> line \<noteq> [] then skip_headers es' else es')"
  by pat_completeness auto

termination
  by (relation "measure rx_weight") (auto dest: recvLine_weight [OF sym])

declare skip_headers.simps [simp del]

definition max_body :: nat where
  "max_body = 1024 * 1024"

text \<open>\<^verbatim>\<open>while (recvAvailable(body)) {}\<close>\<close>

lemma recvAvailable_weight:
  "(True, data', es') = recvAvailable data m es \<Longrightarrow> rx_weight es' < rx_weight es"
  using recv_some_weight [of 4096 es] by (auto simp: recvAvailable_def split: option.splits prod.splits)

function read_body :: "string \<Rightarrow> rx_stream \<Rightarrow> string" where
  "read_body data es =
     (case recvAvailable data max_body es of (ok, data', es') \<Rightarrow> if ok then read_body data' es' else data')"
  by pat_completeness auto

termination
  by (relation "measure (\<lambda>(data, es). rx_weight es)") (auto dest: recvAvailable_weight)

declare read_body.simps [simp del]

text \<open>How far the exchange gets: the name does not resolve, no address accepts, the request is
  not sent, or the peer answers with a stream.\<close>

datatype http_link = Resolve_Fails | Connect_Fails | Send_Fails | Answers rx_stream

definition crlf :: string where
  "crlf = [carriage_return, newline]"

definition get_request :: "string \<Rightarrow> string \<Rightarrow> string" where
  "get_request host path =
     ''GET '' @ (if path = [] then ''/'' else path) @ '' HTTP/1.1'' @ crlf @ ''Host: '' @ host @ crlf @
     ''Connection: close'' @ crlf @ crlf"

definition post_request :: "string \<Rightarrow> string \<Rightarrow> string \<Rightarrow> string" where
  "post_request host path content =
     ''POST '' @ (if path = [] then ''/'' else path) @ '' HTTP/1.1'' @ crlf @ ''Host: '' @ host @ crlf @
     ''Content-Type: text/plain'' @ crlf @ ''Content-Length: '' @ show_nat (length content) @ crlf @
     ''Connection: close'' @ crlf @ crlf @ content"

definition read_response :: "rx_stream \<Rightarrow> HttpResponse" where
  "read_response es =
     (case recvLine es of
        (ok, line, es') \<Rightarrow>
          if \<not> ok \<or> \<not> starts_with ''HTTP/'' line then HttpResponse_new\<lparr>resp_error := ''bad status line''\<rparr>
          else HttpResponse_new\<lparr>status := status_of line, body := read_body [] (skip_headers es')\<rparr>)"

text \<open>\<^verbatim>\<open>httpGet\<close> and \<^verbatim>\<open>httpPost\<close>: the network answers a request with a link.\<close>

definition http_send :: "(string \<Rightarrow> port_t \<Rightarrow> string \<Rightarrow> http_link) \<Rightarrow> string \<Rightarrow> port_t \<Rightarrow> string \<Rightarrow> HttpResponse" where
  "http_send network host port request =
     (case network host port request of
        Resolve_Fails \<Rightarrow> HttpResponse_new\<lparr>resp_error := ''resolve failed''\<rparr>
      | Connect_Fails \<Rightarrow> HttpResponse_new\<lparr>resp_error := ''connect failed''\<rparr>
      | Send_Fails \<Rightarrow> HttpResponse_new\<lparr>resp_error := ''send failed''\<rparr>
      | Answers es \<Rightarrow> read_response es)"

definition httpGet :: "(string \<Rightarrow> port_t \<Rightarrow> string \<Rightarrow> http_link) \<Rightarrow> string \<Rightarrow> port_t \<Rightarrow> string \<Rightarrow> HttpResponse" where
  "httpGet network host port path = http_send network host port (get_request host path)"

definition httpPost :: "(string \<Rightarrow> port_t \<Rightarrow> string \<Rightarrow> http_link) \<Rightarrow> string \<Rightarrow> port_t \<Rightarrow> string \<Rightarrow> string \<Rightarrow> HttpResponse" where
  "httpPost network host port path content = http_send network host port (post_request host path content)"

subsection \<open>Reading a well-formed response\<close>

definition clean_line :: "string \<Rightarrow> bool" where
  "clean_line l \<longleftrightarrow> newline \<notin> set l \<and> (l = [] \<or> last l \<noteq> carriage_return) \<and> length l + 1 < max_line"

lemma strip_line_end_cr: "clean_line l \<Longrightarrow> strip_line_end (l @ [carriage_return]) = l"
  by (cases l rule: rev_cases) (auto simp: strip_line_end_def clean_line_def)

lemma recvLine_crlf:
  assumes "clean_line l" "rx_bytes es = l @ crlf @ rest"
  obtains es' where "recvLine es = (True, l, es')" "rx_bytes es' = rest"
proof -
  have b: "rx_bytes es = (l @ [carriage_return]) @ newline # rest" using assms(2) by (simp add: crlf_def)
  have n: "newline \<notin> set (l @ [carriage_return])" using assms(1) by (simp add: clean_line_def)
  have m: "length (l @ [carriage_return]) < max_line" using assms(1) by (simp add: clean_line_def)
  from recvLine_bytes [OF b n m] that strip_line_end_cr [OF assms(1)] show ?thesis by metis
qed

lemma skip_headers_bytes:
  assumes "\<forall>h \<in> set hs. clean_line h \<and> h \<noteq> []"
    and "rx_bytes es = concat (map (\<lambda>h. h @ crlf) hs) @ crlf @ rest"
  shows "rx_bytes (skip_headers es) = rest"
  using assms
proof (induction hs arbitrary: es)
  case Nil
  have cl: "clean_line []" by (simp add: clean_line_def max_line_def)
  have b: "rx_bytes es = [] @ crlf @ rest" using Nil.prems(2) by simp
  obtain es' where "recvLine es = (True, [], es')" "rx_bytes es' = rest" by (rule recvLine_crlf [OF cl b])
  then show ?case by (simp add: skip_headers.simps [of es])
next
  case (Cons h hs)
  have cl: "clean_line h" using Cons.prems(1) by simp
  have b: "rx_bytes es = h @ crlf @ concat (map (\<lambda>h. h @ crlf) hs) @ crlf @ rest" using Cons.prems(2) by simp
  obtain es' where es': "recvLine es = (True, h, es')" "rx_bytes es' = concat (map (\<lambda>h. h @ crlf) hs) @ crlf @ rest"
    by (rule recvLine_crlf [OF cl b])
  have "rx_bytes (skip_headers es') = rest" using Cons.IH [OF _ es'(2)] Cons.prems(1) by simp
  with es'(1) Cons.prems(1) show ?case by (simp add: skip_headers.simps [of es])
qed

lemma read_body_bytes:
  assumes "length (data @ rx_bytes es) \<le> max_body"
  shows "read_body data es = data @ rx_bytes es"
  using assms
proof (induction data es rule: read_body.induct)
  case (1 data es)
  show ?case
  proof (cases "rx_bytes es = []")
    case True
    then obtain es' where "recv_some 4096 es = (None, es')" using recv_some_end by blast
    then have "recvAvailable data max_body es = (False, data, es')" by (simp add: recvAvailable_def)
    with True show ?thesis by (simp add: read_body.simps [of data])
  next
    case False
    have "(0 :: nat) < 4096" by simp
    from recv_some_bytes [OF this False] obtain k es' where
      k: "recv_some 4096 es = (Some (take k (rx_bytes es)), es')" "rx_bytes es' = drop k (rx_bytes es)"
        "k \<le> length (rx_bytes es)" by metis
    have r: "recvAvailable data max_body es = (True, data @ take k (rx_bytes es), es')"
      using k(1,3) "1.prems" by (simp add: recvAvailable_def)
    have len: "length ((data @ take k (rx_bytes es)) @ rx_bytes es') \<le> max_body"
      using "1.prems" k(2) by simp
    have "read_body (data @ take k (rx_bytes es)) es' = (data @ take k (rx_bytes es)) @ rx_bytes es'"
      using "1.IH" [OF r [symmetric] refl] len by simp
    with r k(2) show ?thesis by (simp add: read_body.simps [of data])
  qed
qed

text \<open>Whatever arrives, the body is a prefix of the bytes before the first stall.\<close>

lemma read_body_prefix: "\<exists>k. read_body data es = data @ take k (rx_bytes es)"
proof (induction data es rule: read_body.induct)
  case (1 data es)
  show ?case
  proof (cases "rx_bytes es = []")
    case True
    then obtain es' where "recv_some 4096 es = (None, es')" using recv_some_end by blast
    then show ?thesis by (simp add: read_body.simps [of data] recvAvailable_def)
  next
    case False
    have "(0 :: nat) < 4096" by simp
    from recv_some_bytes [OF this False] obtain k es' where
      k: "recv_some 4096 es = (Some (take k (rx_bytes es)), es')" "rx_bytes es' = drop k (rx_bytes es)" by metis
    define ok where "ok \<longleftrightarrow> length (data @ take k (rx_bytes es)) \<le> max_body"
    have r: "recvAvailable data max_body es = (ok, data @ take k (rx_bytes es), es')"
      using k(1) by (simp add: recvAvailable_def ok_def)
    show ?thesis
    proof (cases ok)
      case True
      obtain j where "read_body (data @ take k (rx_bytes es)) es' = (data @ take k (rx_bytes es)) @ take j (rx_bytes es')"
        using "1.IH" [OF r [symmetric] refl True] by blast
      then have "read_body data es = data @ take (k + j) (rx_bytes es)"
        using r True k(2) by (simp add: read_body.simps [of data] take_add)
      then show ?thesis by blast
    next
      case False
      then show ?thesis using r by (auto simp: read_body.simps [of data])
    qed
  qed
qed

definition response_head :: "string \<Rightarrow> string list \<Rightarrow> string" where
  "response_head line headers = line @ crlf @ concat (map (\<lambda>h. h @ crlf) headers) @ crlf"

lemma read_response_bytes:
  assumes "clean_line line" "starts_with ''HTTP/'' line" "\<forall>h \<in> set headers. clean_line h \<and> h \<noteq> []"
    and "rx_bytes es = response_head line headers @ content" "length content \<le> max_body"
  shows "read_response es = \<lparr>status = status_of line, body = content, resp_error = []\<rparr>"
proof -
  have b: "rx_bytes es = line @ crlf @ concat (map (\<lambda>h. h @ crlf) headers) @ crlf @ content"
    using assms(4) by (simp add: response_head_def)
  obtain es' where es': "recvLine es = (True, line, es')"
      "rx_bytes es' = concat (map (\<lambda>h. h @ crlf) headers) @ crlf @ content"
    by (rule recvLine_crlf [OF assms(1) b])
  have "rx_bytes (skip_headers es') = content" by (rule skip_headers_bytes [OF assms(3) es'(2)])
  then show ?thesis
    using es'(1) assms(2,5) by (simp add: read_response_def read_body_bytes HttpResponse_new_def)
qed

subsection \<open>Properties\<close>

text \<open>C39: Reading is independent of how TCP cuts the data: as soon as a full line, or the requested
  number of bytes, arrives before any stall, it is returned exactly and the rest stays unread,
  whatever the chunks.\<close>

theorem receive_ignores_chunking:
  "(\<forall>l rest. rx_bytes es = l @ newline # rest \<and> newline \<notin> set l \<and> length l < 8192 \<longrightarrow>
      (\<exists>es'. recvLine es = (True, strip_line_end l, es') \<and> rx_bytes es' = rest)) \<and>
   (\<forall>n. n \<le> length (rx_bytes es) \<longrightarrow>
      (\<exists>es'. recvExact n es = (True, take n (rx_bytes es), es') \<and> rx_bytes es' = drop n (rx_bytes es)))"
proof (intro conjI allI impI)
  fix l rest assume l: "rx_bytes es = l @ newline # rest \<and> newline \<notin> set l \<and> length l < 8192"
  then have b: "rx_bytes es = l @ newline # rest" "newline \<notin> set l" "length l < max_line"
    by (simp_all add: max_line_def)
  from recvLine_bytes [OF b] show "\<exists>es'. recvLine es = (True, strip_line_end l, es') \<and> rx_bytes es' = rest" by blast
next
  fix n assume "n \<le> length (rx_bytes es)"
  from recvExact_bytes [OF this]
  show "\<exists>es'. recvExact n es = (True, take n (rx_bytes es), es') \<and> rx_bytes es' = drop n (rx_bytes es)" by blast
qed

theorem receive_ignores_chunking_witness:
  "\<exists>es'. recvLine [Chunk ''GE'', Chunk [], Chunk (''T'' @ [carriage_return]), Chunk ([newline] @ ''x''), Stall] =
     (True, ''GET'', es') \<and> rx_bytes es' = ''x''"
  using receive_ignores_chunking [of "[Chunk ''GE'', Chunk [], Chunk (''T'' @ [carriage_return]), Chunk ([newline] @ ''x''), Stall]",
      THEN conjunct1, rule_format, of "''GET'' @ [carriage_return]" "''x''"]
  by (simp add: strip_line_end_def)

text \<open>The client does not notice a truncated response: when the connection stalls or closes in the
  middle of the body, the part received so far is returned with the announced status and no
  error, whatever length the headers declared.\<close>

lemma truncated_response_accepted:
  assumes "clean_line line" "starts_with ''HTTP/'' line" "\<forall>h \<in> set headers. clean_line h \<and> h \<noteq> []"
    and "network host port (get_request host path) = Answers es"
    and "rx_bytes es = line @ crlf @ concat (map (\<lambda>h. h @ crlf) headers) @ crlf @ part" "length part \<le> 1024 * 1024"
  shows "httpGet network host port path = \<lparr>status = status_of line, body = part, resp_error = []\<rparr>"
proof -
  have b: "rx_bytes es = response_head line headers @ part" using assms(5) by (simp add: response_head_def)
  have len: "length part \<le> max_body" using assms(6) by (simp add: max_body_def)
  show ?thesis
    using read_response_bytes [OF assms(1-3) b len] assms(4) by (simp add: httpGet_def http_send_def)
qed

end
