(* ===== verification/Transition.thy ===== *)
theory Transition
  imports Main
begin

section \<open>Transition systems, their invariants and their refinement\<close>

text \<open>
  The components that run concurrently, or that their clients call in any order, are transition
  systems: a predicate on initial states and a step relation. The locale \<open>invariant_system\<close> is
  the contract of an invariant; \<open>refined_system\<close> extends it with an abstract system that every
  step follows or leaves alone.
\<close>

definition reachable :: "('s \<Rightarrow> bool) \<Rightarrow> ('s \<Rightarrow> 's \<Rightarrow> bool) \<Rightarrow> 's \<Rightarrow> bool" where
  "reachable init step t \<longleftrightarrow> (\<exists>s. init s \<and> step\<^sup>*\<^sup>* s t)"

lemma reachable_init: "init s \<Longrightarrow> reachable init step s"
  unfolding reachable_def by blast

lemma reachable_step: "reachable init step s \<Longrightarrow> step s t \<Longrightarrow> reachable init step t"
  unfolding reachable_def by (blast intro: rtranclp.rtrancl_into_rtrancl)

lemma reachable_induct [consumes 1, case_names init step]:
  assumes "reachable init step t"
    and "\<And>s. init s \<Longrightarrow> P s"
    and "\<And>s t. reachable init step s \<Longrightarrow> P s \<Longrightarrow> step s t \<Longrightarrow> P t"
  shows "P t"
proof -
  from assms(1) obtain s where s: "init s" "step\<^sup>*\<^sup>* s t" unfolding reachable_def by blast
  from s(2) show ?thesis
  proof (induction rule: rtranclp_induct)
    case base
    show ?case by (rule assms(2) [OF s(1)])
  next
    case (step y z)
    have "reachable init step y" using s(1) step.hyps(1) unfolding reachable_def by blast
    from assms(3) [OF this step.IH step.hyps(2)] show ?case .
  qed
qed

locale invariant_system =
  fixes init :: "'s \<Rightarrow> bool" and step :: "'s \<Rightarrow> 's \<Rightarrow> bool" and inv :: "'s \<Rightarrow> bool"
  assumes inv_init: "init s \<Longrightarrow> inv s"
    and inv_step: "inv s \<Longrightarrow> step s t \<Longrightarrow> inv t"
begin

lemma reachable_inv: "reachable init step t \<Longrightarrow> inv t"
  by (induction rule: reachable_induct) (rule inv_init, assumption, rule inv_step)

end

text \<open>Every step of the system is a step of the abstract one, or leaves the abstraction as it is.\<close>

locale refined_system = invariant_system init step inv
  for init :: "'s \<Rightarrow> bool" and step :: "'s \<Rightarrow> 's \<Rightarrow> bool" and inv :: "'s \<Rightarrow> bool" +
  fixes ainit :: "'a \<Rightarrow> bool" and astep :: "'a \<Rightarrow> 'a \<Rightarrow> bool" and abs :: "'s \<Rightarrow> 'a"
  assumes abs_init: "init s \<Longrightarrow> ainit (abs s)"
    and abs_step: "inv s \<Longrightarrow> step s t \<Longrightarrow> abs t = abs s \<or> astep (abs s) (abs t)"
begin

lemma reachable_abs: "reachable init step t \<Longrightarrow> reachable ainit astep (abs t)"
proof (induction rule: reachable_induct)
  case (init s)
  then show ?case by (intro reachable_init abs_init)
next
  case (step s t)
  from abs_step [OF reachable_inv [OF step.hyps(1)] step.hyps(2)] step.IH
  show ?case by (metis reachable_step)
qed

end

end
