(* ===== verification/Sockets.thy ===== *)
theory Sockets
  imports Net Transition "HOL-Library.Multiset"
begin

section \<open>Connections and listeners as owners of sockets (net.hpp, net.cpp)\<close>

text \<open>
  A \<^verbatim>\<open>TcpConnection\<close> owns a socket and, after a handshake, a TLS session; it can be moved and not
  copied. Every operation returns, beside the objects, the system calls it makes on what they own.
  What the socket and TLS libraries answer is an argument.
\<close>

subsection \<open>Connections\<close>

type_synonym socket_t = int

definition invalid_socket :: socket_t where
  "invalid_socket = -1"

record TcpConnection =
  conn_fd :: socket_t
  conn_peer :: string
  conn_ssl :: "nat option"

text \<open>The calls that release something: \<^verbatim>\<open>SSL_free\<close> and \<^verbatim>\<open>CLOSE_SOCKET\<close>.\<close>

datatype release = Ssl_Free nat | Close_Socket socket_t

definition TcpConnection_default :: TcpConnection where
  "TcpConnection_default = \<lparr>conn_fd = invalid_socket, conn_peer = [], conn_ssl = None\<rparr>"

definition TcpConnection_new :: "socket_t \<Rightarrow> string \<Rightarrow> TcpConnection" where
  "TcpConnection_new s p = \<lparr>conn_fd = s, conn_peer = p, conn_ssl = None\<rparr>"

definition conn_valid :: "TcpConnection \<Rightarrow> bool" where
  "conn_valid c \<longleftrightarrow> conn_fd c \<noteq> invalid_socket"

definition conn_close :: "TcpConnection \<Rightarrow> TcpConnection \<times> release list" where
  "conn_close c =
     (c\<lparr>conn_ssl := None, conn_fd := invalid_socket\<rparr>,
      (case conn_ssl c of None \<Rightarrow> [] | Some h \<Rightarrow> [Ssl_Free h]) @
      (if conn_fd c \<noteq> invalid_socket then [Close_Socket (conn_fd c)] else []))"

text \<open>The move constructor: the new connection, and what is left of the other.\<close>

definition move_construct :: "TcpConnection \<Rightarrow> TcpConnection \<times> TcpConnection" where
  "move_construct other = (other, other\<lparr>conn_fd := invalid_socket, conn_ssl := None, conn_peer := []\<rparr>)"

text \<open>Move assignment of different objects; on itself the operator does nothing.\<close>

definition move_assign :: "TcpConnection \<Rightarrow> TcpConnection \<Rightarrow> TcpConnection \<times> TcpConnection \<times> release list" where
  "move_assign this other =
     (let (closed, calls) = conn_close this
      in (closed\<lparr>conn_fd := conn_fd other, conn_peer := conn_peer other, conn_ssl := conn_ssl other\<rparr>,
          other\<lparr>conn_fd := invalid_socket, conn_ssl := None, conn_peer := []\<rparr>, calls))"

text \<open>The handshake: what \<^verbatim>\<open>SSL_accept\<close> or \<^verbatim>\<open>SSL_connect\<close> answers each time, with whether the
  socket becomes readable in time when it wants to read. The answer is \<open>None\<close> while it goes on.\<close>

datatype handshake_answer = Established | Want_Read bool | Want_Write | Handshake_Error

fun handshake_loop :: "handshake_answer list \<Rightarrow> bool option" where
  "handshake_loop [] = None"
| "handshake_loop (Established # as) = Some True"
| "handshake_loop (Want_Read readable # as) = (if readable then handshake_loop as else Some False)"
| "handshake_loop (Want_Write # as) = handshake_loop as"
| "handshake_loop (Handshake_Error # as) = Some False"

text \<open>What \<^verbatim>\<open>SSL_new\<close> answers: there is no context to call it with, it makes no session, or it makes one.
  Whatever it answers goes into the object, over the session that is there.\<close>

datatype new_session = No_Context | No_Session | New_Session nat

definition handshakeTls :: "new_session \<Rightarrow> handshake_answer list \<Rightarrow> TcpConnection \<Rightarrow> (bool \<times> TcpConnection \<times> release list) option" where
  "handshakeTls session answers c =
     (case session of
        No_Context \<Rightarrow> Some (False, c, [])
      | No_Session \<Rightarrow> Some (False, c\<lparr>conn_ssl := None\<rparr>, [])
      | New_Session h \<Rightarrow>
          (let c' = c\<lparr>conn_ssl := Some h\<rparr>
           in case handshake_loop answers of
             None \<Rightarrow> None
           | Some True \<Rightarrow> Some (True, c', [])
           | Some False \<Rightarrow> (case conn_close c' of (c'', calls) \<Rightarrow> Some (False, c'', calls))))"

text \<open>\<^verbatim>\<open>sendBytes\<close>: the answers of \<^verbatim>\<open>send\<close>, at most the length it was given; the result with the
  bytes the kernel has taken. No further answer is an error.\<close>

fun sendBytes :: "string \<Rightarrow> int list \<Rightarrow> bool \<times> string" where
  "sendBytes data [] = (data = [], [])"
| "sendBytes data (n # ns) =
     (if data = [] then (True, [])
      else if n \<le> 0 then (False, [])
      else (let (ok, taken) = sendBytes (drop (nat n) data) ns in (ok, take (nat n) data @ taken)))"

lemma sendBytes_taken:
  "\<exists>rest. data = snd (sendBytes data ns) @ rest \<and> (fst (sendBytes data ns) \<longleftrightarrow> rest = [])"
proof (induction data ns rule: sendBytes.induct)
  case (1 data)
  then show ?case by simp
next
  case (2 data n ns)
  show ?case
  proof (cases "data = [] \<or> n \<le> 0")
    case True
    then show ?thesis by auto
  next
    case False
    with 2 obtain rest where rest: "drop (nat n) data = snd (sendBytes (drop (nat n) data) ns) @ rest"
        "fst (sendBytes (drop (nat n) data) ns) \<longleftrightarrow> rest = []" by auto
    have "data = (take (nat n) data @ snd (sendBytes (drop (nat n) data) ns)) @ rest"
      using rest(1) by (metis append.assoc append_take_drop_id)
    with False rest(2) show ?thesis by (auto simp: case_prod_beta Let_def)
  qed
qed

subsection \<open>Listeners\<close>

record TcpListener =
  listen_fd :: socket_t
  bound_port :: port_t

definition TcpListener_new :: TcpListener where
  "TcpListener_new = \<lparr>listen_fd = invalid_socket, bound_port = 0\<rparr>"

definition isOpen :: "TcpListener \<Rightarrow> bool" where
  "isOpen l \<longleftrightarrow> listen_fd l \<noteq> invalid_socket"

definition listener_close :: "TcpListener \<Rightarrow> TcpListener \<times> release list" where
  "listener_close l =
     (if listen_fd l \<noteq> invalid_socket then (l\<lparr>listen_fd := invalid_socket\<rparr>, [Close_Socket (listen_fd l)]) else (l, []))"

text \<open>One address of \<^verbatim>\<open>getaddrinfo\<close>: the socket made for it, whether \<^verbatim>\<open>bind\<close> and \<^verbatim>\<open>listen\<close> succeed,
  and the port \<^verbatim>\<open>getsockname\<close> reports, if any.\<close>

record address_try =
  try_socket :: "socket_t option"
  try_listens :: bool
  try_port :: "port_t option"

fun bind_first :: "address_try list \<Rightarrow> TcpListener \<Rightarrow> bool \<times> TcpListener \<times> release list" where
  "bind_first [] l = (False, l, [])"
| "bind_first (a # as) l =
     (case try_socket a of
        None \<Rightarrow> bind_first as (l\<lparr>listen_fd := invalid_socket\<rparr>)
      | Some s \<Rightarrow>
          if try_listens a then
            (True, (case try_port a of None \<Rightarrow> l\<lparr>listen_fd := s\<rparr> | Some p \<Rightarrow> l\<lparr>listen_fd := s, bound_port := p\<rparr>), [])
          else (case bind_first as (l\<lparr>listen_fd := invalid_socket\<rparr>) of (ok, l', calls) \<Rightarrow> (ok, l', Close_Socket s # calls)))"

text \<open>\<open>tries\<close> is empty when the address does not resolve.\<close>

definition bindAndListen :: "address_try list \<Rightarrow> TcpListener \<Rightarrow> bool \<times> TcpListener \<times> release list" where
  "bindAndListen tries l =
     (let (l', calls) = listener_close l; (ok, l'', calls') = bind_first tries l' in (ok, l'', calls @ calls'))"

text \<open>\<open>ready\<close>: the socket became readable in time; \<open>client\<close>: the accepted socket; \<open>name\<close>: its
  numeric host and port.\<close>

definition acceptConnection :: "int \<Rightarrow> bool \<Rightarrow> socket_t option \<Rightarrow> (string \<times> string) option \<Rightarrow> TcpListener \<Rightarrow> TcpConnection option" where
  "acceptConnection timeout_ms ready client name l =
     (if \<not> isOpen l then None
      else if timeout_ms \<ge> 0 \<and> \<not> ready then None
      else case client of
        None \<Rightarrow> None
      | Some s \<Rightarrow>
          Some (TcpConnection_new s (case name of None \<Rightarrow> [] | Some (host, serv) \<Rightarrow> host @ '':'' @ serv)))"

subsection \<open>The first address that listens\<close>

definition usable_address :: "address_try \<Rightarrow> bool" where
  "usable_address a \<longleftrightarrow> try_socket a \<noteq> None \<and> try_listens a"

lemma bind_first_usable:
  assumes "listen_fd l = invalid_socket"
  shows "bind_first tries l =
    (case dropWhile (\<lambda>a. \<not> usable_address a) tries of
       [] \<Rightarrow> (False, l, map Close_Socket (List.map_filter try_socket (takeWhile (\<lambda>a. \<not> usable_address a) tries)))
     | a # _ \<Rightarrow>
         (True, l\<lparr>listen_fd := the (try_socket a), bound_port := (case try_port a of None \<Rightarrow> bound_port l | Some p \<Rightarrow> p)\<rparr>,
          map Close_Socket (List.map_filter try_socket (takeWhile (\<lambda>a. \<not> usable_address a) tries))))"
proof (induction tries)
  case Nil
  show ?case by (simp add: map_filter_simps)
next
  case (Cons a tries)
  have l: "l\<lparr>listen_fd := invalid_socket\<rparr> = l" using assms by simp
  show ?case
  proof (cases "try_socket a")
    case None
    then have "\<not> usable_address a" by (simp add: usable_address_def)
    with None Cons show ?thesis
      by (cases "dropWhile (\<lambda>a. \<not> usable_address a) tries") (simp_all add: l map_filter_simps del: dropWhile_eq_Nil_conv)
  next
    case (Some s)
    show ?thesis
    proof (cases "try_listens a")
      case True
      with Some show ?thesis by (simp add: usable_address_def map_filter_simps split: option.split)
    next
      case False
      then have "\<not> usable_address a" by (simp add: usable_address_def)
      with Some False Cons show ?thesis
        by (cases "dropWhile (\<lambda>a. \<not> usable_address a) tries") (simp_all add: l map_filter_simps del: dropWhile_eq_Nil_conv)
    qed
  qed
qed

subsection \<open>Objects and what they own\<close>

text \<open>The connections of a program, by number; a destroyed object is like a default one. The program
  creates objects, moves between them, closes and destroys them in any order, and handshakes on them as often
  as it likes.\<close>

record conn_heap =
  conns :: "TcpConnection list"
  acquired :: "release multiset"
  released :: "release multiset"
  leaked :: "release multiset"

datatype conn_op =
    Op_Create socket_t string
  | Op_Move_New nat
  | Op_Move_Assign nat nat
  | Op_Close nat
  | Op_Handshake nat new_session "handshake_answer list"

definition has_conn :: "conn_heap \<Rightarrow> nat \<Rightarrow> bool" where
  "has_conn h i \<longleftrightarrow> i < length (conns h)"

text \<open>\<open>acquired\<close> and \<open>released\<close> record what has to be released and what has been, \<open>leaked\<close> the sessions that
  a second handshake has overwritten: no pointer to them is left. While a handshake has not returned, its
  session is in the object.\<close>

fun made :: "new_session \<Rightarrow> release multiset" where
  "made (New_Session n) = {#Ssl_Free n#}"
| "made _ = {#}"

fun overwritten :: "new_session \<Rightarrow> TcpConnection \<Rightarrow> release multiset" where
  "overwritten No_Context c = {#}"
| "overwritten _ c = (case conn_ssl c of None \<Rightarrow> {#} | Some m \<Rightarrow> {#Ssl_Free m#})"

fun in_handshake :: "new_session \<Rightarrow> TcpConnection \<Rightarrow> TcpConnection" where
  "in_handshake (New_Session n) c = c\<lparr>conn_ssl := Some n\<rparr>"
| "in_handshake _ c = c"

fun conn_apply :: "conn_op \<Rightarrow> conn_heap \<Rightarrow> conn_heap" where
  "conn_apply (Op_Create s p) h =
     h\<lparr>conns := conns h @ [TcpConnection_new s p],
       acquired := (if s = invalid_socket then acquired h else add_mset (Close_Socket s) (acquired h))\<rparr>"
| "conn_apply (Op_Move_New i) h =
     (if has_conn h i then
        (case move_construct (conns h ! i) of (new, old) \<Rightarrow> h\<lparr>conns := (conns h)[i := old] @ [new]\<rparr>)
      else h)"
| "conn_apply (Op_Move_Assign i j) h =
     (if has_conn h i \<and> has_conn h j \<and> i \<noteq> j then
        (case move_assign (conns h ! i) (conns h ! j) of (this, other, calls) \<Rightarrow>
           h\<lparr>conns := (conns h)[i := this, j := other], released := released h + mset calls\<rparr>)
      else h)"
| "conn_apply (Op_Close i) h =
     (if has_conn h i then
        (case conn_close (conns h ! i) of (c, calls) \<Rightarrow> h\<lparr>conns := (conns h)[i := c], released := released h + mset calls\<rparr>)
      else h)"
| "conn_apply (Op_Handshake i session answers) h =
     (if has_conn h i then
        (case (case handshakeTls session answers (conns h ! i) of
            None \<Rightarrow> (in_handshake session (conns h ! i), [])
          | Some (ok, c, calls) \<Rightarrow> (c, calls)) of (c, calls) \<Rightarrow>
           h\<lparr>conns := (conns h)[i := c], released := released h + mset calls, acquired := acquired h + made session,
             leaked := leaked h + overwritten session (conns h ! i)\<rparr>)
      else h)"

definition heap_start :: conn_heap where
  "heap_start = \<lparr>conns = [], acquired = {#}, released = {#}, leaked = {#}\<rparr>"

definition owns :: "TcpConnection \<Rightarrow> release multiset" where
  "owns c = mset (snd (conn_close c))"

definition owned :: "TcpConnection list \<Rightarrow> release multiset" where
  "owned cs = sum_list (map owns cs)"

text \<open>Nothing is released twice: what was acquired has been released, has exactly one owner, or is a session that
  has been overwritten.\<close>

definition heap_inv :: "conn_heap \<Rightarrow> bool" where
  "heap_inv h \<longleftrightarrow> acquired h = released h + owned (conns h) + leaked h \<and> set_mset (leaked h) \<subseteq> range Ssl_Free"

lemma owns_empty [simp]: "owns (c\<lparr>conn_fd := invalid_socket, conn_ssl := None, conn_peer := p\<rparr>) = {#}"
  "owns (c\<lparr>conn_ssl := None, conn_fd := invalid_socket\<rparr>) = {#}"
  by (simp_all add: owns_def conn_close_def)

lemma owns_close [simp]: "owns (fst (conn_close c)) = {#}"
  by (simp add: owns_def conn_close_def)

lemma owned_append [simp]: "owned (cs @ ds) = owned cs + owned ds" "owned [c] = owns c" "owned [] = {#}"
  by (simp_all add: owned_def)

lemma owned_update:
  "i < length cs \<Longrightarrow> owned (cs[i := c]) + owns (cs ! i) = owned cs + owns c"
proof (induction cs arbitrary: i)
  case (Cons d cs)
  then show ?case
  proof (cases i)
    case 0
    then show ?thesis by (simp add: owned_def ac_simps)
  next
    case (Suc k)
    with Cons show ?thesis by (simp add: owned_def ac_simps)
  qed
qed simp

lemma multiset_swap:
  fixes a :: "'a multiset"
  assumes "a + c = b" "b + d = e + c"
  shows "a + d = e"
proof -
  have "(a + d) + c = (a + c) + d" by (simp add: ac_simps)
  also have "\<dots> = e + c" using assms by simp
  finally show ?thesis by simp
qed

lemma heap_inv_start: "heap_inv heap_start"
  by (simp add: heap_inv_def heap_start_def)

lemma heap_inv_create: "heap_inv h \<Longrightarrow> heap_inv (conn_apply (Op_Create s p) h)"
  by (simp add: heap_inv_def owns_def conn_close_def TcpConnection_new_def)

lemma heap_inv_update:
  assumes "heap_inv h" "has_conn h i" "owns (conns h ! i) + extra = mset calls + (owns c + lost)" "set_mset lost \<subseteq> range Ssl_Free"
  shows "heap_inv (h\<lparr>conns := (conns h)[i := c], released := released h + mset calls, acquired := acquired h + extra,
    leaked := leaked h + lost\<rparr>)"
proof -
  have "owned ((conns h)[i := c]) + owns (conns h ! i) = owned (conns h) + owns c"
    using assms(2) by (simp add: owned_update has_conn_def)
  then have "owned ((conns h)[i := c]) + (owns (conns h ! i) + extra) = (owned (conns h) + extra) + owns c"
    by (simp add: ac_simps)
  then have "(owned ((conns h)[i := c]) + mset calls + lost) + owns c = (owned (conns h) + extra) + owns c"
    unfolding assms(3) by (simp add: ac_simps)
  then have "owned ((conns h)[i := c]) + mset calls + lost = owned (conns h) + extra" by (rule add_right_imp_eq)
  with assms(1,4) show ?thesis by (simp add: heap_inv_def ac_simps)
qed

lemma heap_inv_close: "heap_inv h \<Longrightarrow> heap_inv (conn_apply (Op_Close i) h)"
  using heap_inv_update [of h i "{#}" "snd (conn_close (conns h ! i))" "fst (conn_close (conns h ! i))" "{#}"]
  by (auto simp: case_prod_beta owns_def [of "conns h ! i"])

lemma heap_inv_move_new:
  assumes "heap_inv h"
  shows "heap_inv (conn_apply (Op_Move_New i) h)"
proof (cases "has_conn h i")
  case True
  let ?old = "(conns h ! i)\<lparr>conn_fd := invalid_socket, conn_ssl := None, conn_peer := []\<rparr>"
  have "owned ((conns h)[i := ?old]) + owns (conns h ! i) = owned (conns h)"
    using owned_update [of i "conns h" ?old] True by (simp add: has_conn_def)
  with True assms show ?thesis by (simp add: move_construct_def heap_inv_def)
qed (use assms in simp)

lemma heap_inv_move_assign:
  assumes "heap_inv h"
  shows "heap_inv (conn_apply (Op_Move_Assign i j) h)"
proof (cases "has_conn h i \<and> has_conn h j \<and> i \<noteq> j")
  case True
  let ?new = "(fst (conn_close (conns h ! i)))\<lparr>conn_fd := conn_fd (conns h ! j), conn_peer := conn_peer (conns h ! j), conn_ssl := conn_ssl (conns h ! j)\<rparr>"
  let ?other = "(conns h ! j)\<lparr>conn_fd := invalid_socket, conn_ssl := None, conn_peer := []\<rparr>"
  have new: "owns ?new = owns (conns h ! j)" by (simp add: owns_def conn_close_def)
  have "owned ((conns h)[i := ?new, j := ?other]) + owns (conns h ! j) = owned ((conns h)[i := ?new])"
    using owned_update [of j "(conns h)[i := ?new]" ?other] True by (simp add: has_conn_def)
  moreover have "owned ((conns h)[i := ?new]) + owns (conns h ! i) = owned (conns h) + owns (conns h ! j)"
    using owned_update [of i "conns h" ?new] True by (simp add: has_conn_def new)
  ultimately have "owned ((conns h)[i := ?new, j := ?other]) + owns (conns h ! i) = owned (conns h)"
    by (rule multiset_swap)
  with True assms show ?thesis
    by (simp add: heap_inv_def move_assign_def case_prod_beta owns_def ac_simps)
qed (use assms in auto)

lemma owns_handshake:
  assumes "handshakeTls session answers c = Some (ok, c', calls)"
  shows "owns c + made session = mset calls + (owns c' + overwritten session c)"
proof (cases session)
  case (New_Session n)
  with assms show ?thesis
    by (cases "handshake_loop answers") (auto simp: handshakeTls_def Let_def owns_def conn_close_def split: bool.splits option.splits)
qed (use assms in \<open>auto simp: handshakeTls_def owns_def conn_close_def split: option.splits\<close>)

lemma owns_in_handshake:
  "handshakeTls session answers c = None \<Longrightarrow>
     owns c + made session = mset [] + (owns (in_handshake session c) + overwritten session c)"
  by (cases session) (auto simp: handshakeTls_def owns_def conn_close_def split: option.splits)

lemma overwritten_sessions: "set_mset (overwritten session c) \<subseteq> range Ssl_Free"
  by (cases session) (auto split: option.splits)

lemma heap_inv_handshake:
  assumes "heap_inv h"
  shows "heap_inv (conn_apply (Op_Handshake i session answers) h)"
proof (cases "has_conn h i")
  case True
  show ?thesis
  proof (cases "handshakeTls session answers (conns h ! i)")
    case None
    from heap_inv_update [OF assms True owns_in_handshake [OF None] overwritten_sessions] None True
    show ?thesis by simp
  next
    case (Some r)
    obtain ok c calls where r: "r = (ok, c, calls)" by (metis prod_cases3)
    from heap_inv_update [OF assms True owns_handshake overwritten_sessions, of session answers ok c calls] True Some r
    show ?thesis by simp
  qed
next
  case False
  with assms show ?thesis by (simp only: conn_apply.simps if_False)
qed

lemma heap_inv_apply: "heap_inv h \<Longrightarrow> heap_inv (conn_apply op h)"
proof (cases op)
  case (Op_Create s p)
  assume "heap_inv h" then show ?thesis unfolding Op_Create by (rule heap_inv_create)
next
  case (Op_Move_New i)
  assume "heap_inv h" then show ?thesis unfolding Op_Move_New by (rule heap_inv_move_new)
next
  case (Op_Move_Assign i j)
  assume "heap_inv h" then show ?thesis unfolding Op_Move_Assign by (rule heap_inv_move_assign)
next
  case (Op_Close i)
  assume "heap_inv h" then show ?thesis unfolding Op_Close by (rule heap_inv_close)
next
  case (Op_Handshake i session answers)
  assume "heap_inv h" then show ?thesis unfolding Op_Handshake by (rule heap_inv_handshake)
qed

interpretation connections: invariant_system "\<lambda>h. h = heap_start" "\<lambda>h h'. \<exists>op. h' = conn_apply op h" heap_inv
  by unfold_locales (auto simp: heap_inv_start heap_inv_apply)

lemma reachable_fold: "reachable (\<lambda>h. h = heap_start) (\<lambda>h h'. \<exists>op. h' = conn_apply op h) (fold conn_apply ops heap_start)"
proof (induction ops rule: rev_induct)
  case Nil
  show ?case by (rule reachable_init) simp
next
  case (snoc op ops)
  then show ?case by (rule reachable_step) auto
qed

lemma owned_idle: "list_all (\<lambda>c. conn_fd c = invalid_socket \<and> conn_ssl c = None) cs \<Longrightarrow> owned cs = {#}"
  by (induction cs) (simp_all add: owned_def owns_def conn_close_def)

text \<open>A program whose handshakes all start on an object without a session.\<close>

fun fresh_op :: "conn_op \<Rightarrow> conn_heap \<Rightarrow> bool" where
  "fresh_op (Op_Handshake i session answers) h \<longleftrightarrow> (has_conn h i \<longrightarrow> conn_ssl (conns h ! i) = None)"
| "fresh_op _ h \<longleftrightarrow> True"

fun handshakes_fresh :: "conn_op list \<Rightarrow> conn_heap \<Rightarrow> bool" where
  "handshakes_fresh [] h \<longleftrightarrow> True"
| "handshakes_fresh (op # ops) h \<longleftrightarrow> fresh_op op h \<and> handshakes_fresh ops (conn_apply op h)"

lemma overwritten_fresh: "conn_ssl c = None \<Longrightarrow> overwritten session c = {#}"
  by (cases session) simp_all

lemma fresh_op_leaks_nothing: "fresh_op op h \<Longrightarrow> leaked (conn_apply op h) = leaked h"
  by (cases op) (auto simp: case_prod_beta overwritten_fresh)

lemma fresh_leaks_nothing: "handshakes_fresh ops h \<Longrightarrow> leaked (fold conn_apply ops h) = leaked h"
  by (induction ops arbitrary: h) (simp_all add: fresh_op_leaks_nothing)

subsection \<open>Properties\<close>

text \<open>C19: Connections own what they hold: however a program creates, moves, assigns, closes and
  handshakes them, no socket and no TLS session is released more often than it was acquired.
  Once every object has been closed or destroyed, every socket has been released exactly as often, and so has every
  session but the leaked ones, those that a second handshake on the same object overwrote; a program that
  handshakes only on objects without a session, as the server and the client do, leaks none.\<close>

theorem connections_release_once:
  "let h = fold conn_apply ops heap_start; idle = list_all (\<lambda>c. conn_fd c = invalid_socket \<and> conn_ssl c = None) (conns h)
   in released h \<subseteq># acquired h \<and>
      (idle \<longrightarrow> acquired h = released h + leaked h \<and>
         (\<forall>s. count (released h) (Close_Socket s) = count (acquired h) (Close_Socket s))) \<and>
      (handshakes_fresh ops heap_start \<longrightarrow> leaked h = {#})"
proof -
  let ?h = "fold conn_apply ops heap_start"
  have inv: "heap_inv ?h" by (rule connections.reachable_inv [OF reachable_fold])
  then have "count (leaked ?h) (Close_Socket s) = 0" for s by (auto simp: heap_inv_def count_eq_zero_iff)
  with inv show ?thesis using owned_idle fresh_leaks_nothing [of ops heap_start]
    by (auto simp: heap_inv_def Let_def heap_start_def)
qed

text \<open>Two connections, one of them with a session, are released exactly once; a second handshake on one object
  leaks its first session.\<close>

theorem connections_release_once_witness:
  "(let h = fold conn_apply [Op_Create 5 ''a:1'', Op_Create 6 ''b:2'', Op_Handshake 0 (New_Session 1) [Want_Write, Established],
        Op_Move_Assign 1 0, Op_Close 0, Op_Close 1] heap_start
    in released h = {#Close_Socket 5, Ssl_Free 1, Close_Socket 6#} \<and> acquired h = released h) \<and>
   (let h = fold conn_apply [Op_Create 5 ''a:1'', Op_Handshake 0 (New_Session 1) [Established],
        Op_Handshake 0 (New_Session 2) [Established], Op_Close 0] heap_start
    in acquired h = {#Close_Socket 5, Ssl_Free 1, Ssl_Free 2#} \<and> acquired h = add_mset (Ssl_Free 1) (released h))"
  using connections_release_once [of "[Op_Create 5 ''a:1'', Op_Create 6 ''b:2'', Op_Handshake 0 (New_Session 1) [Want_Write, Established],
      Op_Move_Assign 1 0, Op_Close 0, Op_Close 1]"]
    connections_release_once [of "[Op_Create 5 ''a:1'', Op_Handshake 0 (New_Session 1) [Established],
        Op_Handshake 0 (New_Session 2) [Established], Op_Close 0]"]
  by (simp add: heap_start_def has_conn_def TcpConnection_new_def handshakeTls_def move_assign_def conn_close_def invalid_socket_def)

text \<open>C23: Listening: the listener ends up on the first address that can be bound, in the order of
  \<^verbatim>\<open>getaddrinfo\<close>, with the port the kernel reports when it does; the socket it held before and those of
  the addresses that failed are closed, each once, and no other. When none can be bound it is left closed.\<close>

theorem listener_takes_first_usable:
  "bindAndListen tries l =
     (let closed = (if isOpen l then [Close_Socket (listen_fd l)] else []) @
            map Close_Socket (List.map_filter try_socket (takeWhile (\<lambda>a. \<not> usable_address a) tries))
      in case dropWhile (\<lambda>a. \<not> usable_address a) tries of
           [] \<Rightarrow> (False, l\<lparr>listen_fd := invalid_socket\<rparr>, closed)
         | a # _ \<Rightarrow>
             (True, l\<lparr>listen_fd := the (try_socket a), bound_port := (case try_port a of None \<Rightarrow> bound_port l | Some p \<Rightarrow> p)\<rparr>, closed))"
  by (cases "dropWhile (\<lambda>a. \<not> usable_address a) tries"; cases "isOpen l"; cases "try_port (hd (dropWhile (\<lambda>a. \<not> usable_address a) tries))")
    (simp_all add: bindAndListen_def listener_close_def isOpen_def bind_first_usable Let_def del: dropWhile_eq_Nil_conv)

end
