(* ===== verification/Metrics_Server.thy ===== *)
theory Metrics_Server
  imports Net Acl Rate_Limiter Ingest Exposition
begin

section \<open>The HTTP server (metrics_server.hpp, metrics_server.cpp)\<close>

text \<open>
  \<^verbatim>\<open>MetricsServer\<close> serves one connection at a time from its accept loop. \<open>handleClient\<close> is the
  whole handler: it reads the request from the connection, asks the access policy and the rate
  limiter, and answers; its result is the bytes sent, if any, with the new limiter, the new registry and
  the messages logged. The clock reading of the rate limiter is an argument.
\<close>

subsection \<open>Reading a request\<close>

definition isIngestPath :: "string \<Rightarrow> bool" where
  "isIngestPath path \<longleftrightarrow> path = ''/ingest'' \<or> path = ''/ingest/'' \<or> path = ''/api/v1/import'' \<or>
     path = ''/api/v1/import/''"

text \<open>\<^verbatim>\<open>req >> method >> path >> http\<close>: what cannot be read stays empty.\<close>

definition request_line :: "string \<Rightarrow> string \<times> string" where
  "request_line line =
     (case next_token line of
        None \<Rightarrow> ([], [])
      | Some (method, r) \<Rightarrow> (method, case next_token r of None \<Rightarrow> [] | Some (path, r') \<Rightarrow> path))"

text \<open>One header line: the content length, zero when it cannot be read, and the credentials.\<close>

definition header_line :: "string \<Rightarrow> 64 word \<times> string \<Rightarrow> 64 word \<times> string" where
  "header_line line acc =
     (case acc of (content_length, authorization) \<Rightarrow>
        case split_at CHR '':'' line of
          None \<Rightarrow> acc
        | Some (k, v) \<Rightarrow>
            (let key = lowerCopy k
             in if key = ''content-length'' then
                  (case stoul v of Inl e \<Rightarrow> 0 | Inr n \<Rightarrow> n, authorization)
                else if key = ''authorization'' then (content_length, dropWhile isspace v)
                else acc))"

function read_headers :: "64 word \<times> string \<Rightarrow> rx_stream \<Rightarrow> (64 word \<times> string) \<times> rx_stream" where
  "read_headers acc es =
     (case recvLine es of
        (ok, line, es') \<Rightarrow> if ok \<and> line \<noteq> [] then read_headers (header_line line acc) es' else (acc, es'))"
  by pat_completeness auto

termination
  by (relation "measure (\<lambda>(acc, es). rx_weight es)") (auto dest: recvLine_weight [OF sym])

declare read_headers.simps [simp del]

record http_request =
  req_method :: string
  req_path :: string
  req_authorization :: string
  req_body :: string

text \<open>The request, or nothing when the handler gives up without an answer.\<close>

definition read_request :: "rx_stream \<Rightarrow> http_request option" where
  "read_request es =
     (case recvLine es of
        (ok, line, es1) \<Rightarrow>
          if \<not> ok then None
          else
            let (method, path) = request_line line; ((content_length, authorization), es2) = read_headers (0, []) es1
            in if content_length > 0 then
                 if content_length > 1024 * 1024 then None
                 else case recvExact (unat content_length) es2 of
                   (got, data, es3) \<Rightarrow>
                     if got then Some \<lparr>req_method = method, req_path = path, req_authorization = authorization, req_body = data\<rparr>
                     else None
               else Some \<lparr>req_method = method, req_path = path, req_authorization = authorization, req_body = []\<rparr>)"

subsection \<open>Answering\<close>

record MetricsServer =
  srv_address :: string
  srv_port :: port_t
  srv_tls :: bool
  srv_acl :: AclPolicy
  srv_limiter :: RateLimiter
  srv_listening :: bool
  srv_running :: bool
  srv_thread :: bool
  srv_bound_port :: port_t

definition MetricsServer_new :: "string \<Rightarrow> port_t \<Rightarrow> MetricsServer" where
  "MetricsServer_new address port =
     \<lparr>srv_address = address, srv_port = port, srv_tls = False, srv_acl = AclPolicy_new,
      srv_limiter = RateLimiter_new 0, srv_listening = False, srv_running = False, srv_thread = False,
      srv_bound_port = 0\<rparr>"

definition setTls :: "MetricsServer \<Rightarrow> bool \<Rightarrow> MetricsServer" where
  "setTls s tls = s\<lparr>srv_tls := tls\<rparr>"

definition setAcl :: "MetricsServer \<Rightarrow> AclPolicy \<Rightarrow> MetricsServer" where
  "setAcl s acl = s\<lparr>srv_acl := acl\<rparr>"

definition setRateLimit :: "MetricsServer \<Rightarrow> 32 word \<Rightarrow> MetricsServer" where
  "setRateLimit s m = s\<lparr>srv_limiter := setMaxPerMinute (srv_limiter s) m\<rparr>"

text \<open>\<open>bound\<close> is the port the listener reports, or nothing when it cannot be bound.\<close>

definition server_start :: "MetricsServer \<Rightarrow> port_t option \<Rightarrow> bool \<times> MetricsServer" where
  "server_start s bound =
     (case bound of
        None \<Rightarrow> (False, s)
      | Some port \<Rightarrow>
          (True, s\<lparr>srv_listening := True, srv_bound_port := (if port \<noteq> 0 then port else srv_port s),
                   srv_running := True, srv_thread := True\<rparr>))"

definition server_stop :: "MetricsServer \<Rightarrow> MetricsServer" where
  "server_stop s = s\<lparr>srv_running := False, srv_listening := False, srv_thread := False\<rparr>"

definition kVersion :: string where
  "kVersion = ''1.0.0''"

definition http_reply :: "string \<Rightarrow> string \<Rightarrow> string \<Rightarrow> string" where
  "http_reply status_text content_type content =
     ''HTTP/1.1 '' @ status_text @ crlf @ ''Content-Length: '' @ show_nat (length content) @ crlf @
     ''Content-Type: '' @ content_type @ crlf @ ''Connection: close'' @ crlf @ crlf @ content"

definition reason_phrase :: "nat \<Rightarrow> string" where
  "reason_phrase code =
     (if code = 200 then '' OK''
      else if code = 400 then '' Bad Request''
      else if code = 403 then '' Forbidden''
      else if code = 405 then '' Method Not Allowed''
      else '' Not Found'')"

definition status_text :: "nat \<Rightarrow> string" where
  "status_text code = show_nat code @ reason_phrase code"

definition metrics_type :: string where
  "metrics_type = ''text/plain; version=0.0.4''"

text \<open>The routes: code, content type, body, registry and messages.\<close>

definition route :: "MetricRegistry \<Rightarrow> port_t \<Rightarrow> string \<Rightarrow> string \<Rightarrow> string \<Rightarrow> nat \<times> string \<times> string \<times> MetricRegistry \<times> log_messages" where
  "route registry bound_port method path_only request_body =
     (if method = ''POST'' \<and> isIngestPath path_only then
        (let st = ingestBody registry request_body; result = ing_result st
         in if rejected result > 0 \<and> accepted result = 0
            then (400, ''text/plain'', ''ingest failed: '' @ last_error result @ [newline], ing_registry st, ing_log st)
            else (200, ''text/plain'',
              ''accepted='' @ show_nat (accepted result) @ '' rejected='' @ show_nat (rejected result) @ [newline],
              ing_registry st, ing_log st))
      else if method \<noteq> ''GET'' then (405, metrics_type, ''method not allowed'' @ [newline], registry, [])
      else if path_only = ''/metrics'' \<or> path_only = ''/metrics/'' then
        (200, metrics_type, renderPrometheusText registry True, registry, [])
      else if path_only = ''/healthz'' \<or> path_only = ''/healthz/'' then
        (200, metrics_type, ''ok'' @ [newline], registry, [])
      else if path_only = ''/status'' \<or> path_only = ''/status/'' then
        (200, ''application/json'',
         ''{'' @ [quote] @ ''version'' @ [quote] @ '':'' @ [quote] @ kVersion @ [quote] @ '','' @ [quote] @ ''metrics'' @ [quote] @
           '':'' @ show_nat (registry_size registry) @ '','' @ [quote] @ ''port'' @ [quote] @ '':'' @ show_nat (unat bound_port) @ ''}'',
         registry, [])
      else (404, metrics_type, ''not found'' @ [newline], registry, []))"

definition path_of :: "http_request \<Rightarrow> string" where
  "path_of req = takeWhile (\<lambda>c. c \<noteq> CHR ''?'') (req_path req)"

record served =
  sent :: "string option"
  new_limiter :: RateLimiter
  new_registry :: MetricRegistry
  logged :: log_messages

text \<open>What the handler does once the request is read, or cannot be read.\<close>

definition answer :: "MetricsServer \<Rightarrow> MetricRegistry \<Rightarrow> time_point \<Rightarrow> string \<Rightarrow> http_request option \<Rightarrow> served" where
  "answer s registry now peer request =
     (case request of
        None \<Rightarrow> \<lparr>sent = None, new_limiter = srv_limiter s, new_registry = registry, logged = []\<rparr>
      | Some req \<Rightarrow>
          if \<not> acl_permits (srv_acl s) peer (path_of req) (req_authorization req) then
            \<lparr>sent = Some (http_reply ''403 Forbidden'' ''text/plain'' (''forbidden'' @ [newline])),
             new_limiter = srv_limiter s, new_registry = registry, logged = []\<rparr>
          else
            let (allowed, limiter) = limiter_allow (srv_limiter s) peer now
            in if \<not> allowed then
                 \<lparr>sent = Some (http_reply ''429 Too Many Requests'' ''text/plain'' (''rate limit exceeded'' @ [newline])),
                  new_limiter = limiter, new_registry = registry, logged = []\<rparr>
               else
                 let (code, content_type, content, registry', msgs) =
                   route registry (srv_bound_port s) (req_method req) (path_of req) (req_body req)
                 in \<lparr>sent = Some (http_reply (status_text code) content_type content),
                     new_limiter = limiter, new_registry = registry', logged = msgs\<rparr>)"

definition handleClient :: "MetricsServer \<Rightarrow> MetricRegistry \<Rightarrow> time_point \<Rightarrow> string \<Rightarrow> rx_stream \<Rightarrow> served" where
  "handleClient s registry now peer es = answer s registry now peer (read_request es)"

lemmas handleClient_eq = handleClient_def [unfolded answer_def]

text \<open>One turn of the accept loop: no connection, a failed handshake, or a served client.\<close>

datatype accepted_conn = No_Connection | Client bool string rx_stream

definition accept_turn :: "MetricsServer \<Rightarrow> MetricRegistry \<Rightarrow> time_point \<Rightarrow> accepted_conn \<Rightarrow> MetricsServer \<times> MetricRegistry \<times> string option" where
  "accept_turn s registry now conn =
     (case conn of
        No_Connection \<Rightarrow> (s, registry, None)
      | Client handshake_ok peer es \<Rightarrow>
          if srv_tls s \<and> \<not> handshake_ok then (s, registry, None)
          else let out = handleClient s registry now peer es
               in (s\<lparr>srv_limiter := new_limiter out\<rparr>, new_registry out, sent out))"

subsection \<open>Requests of the client\<close>

lemma read_headers_bytes:
  assumes "\<forall>h \<in> set hs. clean_line h \<and> h \<noteq> []"
    and "rx_bytes es = concat (map (\<lambda>h. h @ crlf) hs) @ crlf @ rest"
  shows "\<exists>es'. read_headers acc es = (fold header_line hs acc, es') \<and> rx_bytes es' = rest"
  using assms
proof (induction hs arbitrary: acc es)
  case Nil
  have cl: "clean_line []" by (simp add: clean_line_def max_line_def)
  have b: "rx_bytes es = [] @ crlf @ rest" using Nil.prems(2) by simp
  obtain es' where "recvLine es = (True, [], es')" "rx_bytes es' = rest" by (rule recvLine_crlf [OF cl b])
  then show ?case by (simp add: read_headers.simps [of acc es])
next
  case (Cons h hs)
  have cl: "clean_line h" "h \<noteq> []" using Cons.prems(1) by simp_all
  have b: "rx_bytes es = h @ crlf @ concat (map (\<lambda>h. h @ crlf) hs) @ crlf @ rest" using Cons.prems(2) by simp
  obtain es' where es': "recvLine es = (True, h, es')" "rx_bytes es' = concat (map (\<lambda>h. h @ crlf) hs) @ crlf @ rest"
    by (rule recvLine_crlf [OF cl(1) b])
  from Cons.IH [OF _ es'(2), of "header_line h acc"] Cons.prems(1) es'(1) cl(2) show ?case
    by (simp add: read_headers.simps [of acc es])
qed

text \<open>A host name and a path that fit into a request.\<close>

definition clean_host :: "string \<Rightarrow> bool" where
  "clean_host host \<longleftrightarrow> newline \<notin> set host \<and> carriage_return \<notin> set host \<and> length host < 8000"

definition clean_path :: "string \<Rightarrow> bool" where
  "clean_path path \<longleftrightarrow> path \<noteq> [] \<and> list_all nonspace path \<and> length path < 8000"

lemma clean_headers:
  assumes "clean_host host"
  shows "clean_line (''Host: '' @ host) \<and> clean_line ''Connection: close'' \<and> clean_line ''Content-Type: text/plain''"
  using assms by (auto simp: clean_host_def clean_line_def max_line_def dest: last_in_set)

lemma clean_request_line:
  assumes "clean_path path" "newline \<notin> set method" "length method < 100"
  shows "clean_line (method @ '' '' @ path @ '' HTTP/1.1'')"
  using assms by (auto simp: clean_path_def clean_line_def max_line_def list_all_iff)

lemma request_line_tokens:
  assumes "clean_path path" "method \<noteq> []" "\<forall>c \<in> set method. nonspace c"
  shows "request_line (method @ '' '' @ path @ '' HTTP/1.1'') = (method, path)"
proof -
  have p: "path \<noteq> []" "\<forall>c \<in> set path. nonspace c" using assms(1) by (simp_all add: clean_path_def list_all_iff)
  have "next_token (method @ '' '' @ path @ '' HTTP/1.1'') = Some (method, '' '' @ path @ '' HTTP/1.1'')"
    by (rule next_token_word [OF assms(2,3)]) simp
  moreover have "next_token ('' '' @ path @ '' HTTP/1.1'') = Some (path, '' HTTP/1.1'')"
    using next_token_word [OF p, of "'' HTTP/1.1''"] by simp
  ultimately show ?thesis by (simp add: request_line_def)
qed

lemma header_line_other:
  "header_line (''Host: '' @ host) acc = acc" "header_line ''Connection: close'' acc = acc"
  "header_line ''Content-Type: text/plain'' acc = acc"
  by (cases acc; simp add: header_line_def lowerCopy_def tolower_def)+

lemma read_request_get:
  assumes "clean_host host" "clean_path path" "rx_bytes es = get_request host path"
  shows "read_request es = Some \<lparr>req_method = ''GET'', req_path = path, req_authorization = [], req_body = []\<rparr>"
proof -
  let ?line = "''GET '' @ path @ '' HTTP/1.1''" and ?hs = "[''Host: '' @ host, ''Connection: close'']"
  have cl: "clean_line ?line" using clean_request_line [OF assms(2), of "''GET''"] by simp
  have b: "rx_bytes es = ?line @ crlf @ concat (map (\<lambda>h. h @ crlf) ?hs) @ crlf"
    using assms(2,3) by (simp add: get_request_def clean_path_def)
  obtain es1 where es1: "recvLine es = (True, ?line, es1)"
      "rx_bytes es1 = concat (map (\<lambda>h. h @ crlf) ?hs) @ crlf"
    by (rule recvLine_crlf [OF cl b])
  have "\<forall>h \<in> set ?hs. clean_line h \<and> h \<noteq> []" using clean_headers [OF assms(1)] by simp
  from read_headers_bytes [OF this, of es1 "[]" "(0, [])"] es1(2)
  obtain es2 where "read_headers (0, []) es1 = ((0, []), es2)"
    by (auto simp: header_line_other simp del: append_assoc append_Cons)
  moreover have "request_line ?line = (''GET'', path)"
    using request_line_tokens [OF assms(2), of "''GET''"] by (simp add: isspace_def)
  ultimately show ?thesis using es1(1) unfolding read_request_def by simp
qed

lemma length_show_nat_le: "n < 10 ^ k \<Longrightarrow> 0 < k \<Longrightarrow> length (show_nat n) \<le> k"
proof (induction k arbitrary: n)
  case (Suc k)
  show ?case
  proof (cases "n < 10")
    case True
    then show ?thesis by (simp add: show_nat.simps [of n])
  next
    case False
    then have "0 < k" using Suc.prems by (cases k) auto
    moreover have "n div 10 < 10 ^ k" using Suc.prems(1) by (simp add: less_mult_imp_div_less)
    ultimately show ?thesis using Suc.IH [of "n div 10"] False by (simp add: show_nat.simps [of n])
  qed
qed simp

lemma stoul_space_show_nat:
  assumes "n < 2 ^ 64"
  shows "stoul (CHR '' '' # show_nat n) = Inr (of_nat n)"
proof -
  obtain c r where cr: "show_nat n = c # r" using show_nat_not_Nil by (meson list.exhaust)
  have dig: "\<forall>c \<in> set (show_nat n). isdigit c" using show_nat_digits by blast
  then have c: "isdigit c" "nonspace c" "c \<noteq> CHR ''-''" "c \<noteq> CHR ''+''"
    by (auto simp: cr isdigit_def)
  have "\<forall>d \<in> set (CHR '' '' # show_nat n). d \<noteq> CHR 0x00"
    using dig by (auto simp: isdigit_def)
  then have "c_str (CHR '' '' # show_nat n) = CHR '' '' # show_nat n"
    by (simp add: c_str_def takeWhile_eq_all_conv del: takeWhile.simps)
  moreover have "scan_sign (dropWhile isspace (CHR '' '' # show_nat n)) = (False, show_nat n)"
    using c by (simp add: cr scan_sign_def)
  ultimately show ?thesis using assms dig by (simp add: stoul_def takeWhile_digits Let_def)
qed

lemma lower_content_length: "lowerCopy ''Content-Length'' = ''content-length''"
  by code_simp

text \<open>The head of a POST: its lines, and what the server makes of them.\<close>

definition post_line :: "string \<Rightarrow> string" where
  "post_line path = ''POST '' @ path @ '' HTTP/1.1''"

definition post_headers :: "string \<Rightarrow> string \<Rightarrow> string list" where
  "post_headers host content =
     [''Host: '' @ host, ''Content-Type: text/plain'', ''Content-Length: '' @ show_nat (length content), ''Connection: close'']"

lemma post_head:
  assumes "clean_host host" "clean_path path" "length content \<le> 1024 * 1024"
  shows "post_request host path content =
      post_line path @ crlf @ concat (map (\<lambda>h. h @ crlf) (post_headers host content)) @ crlf @ content"
    and "clean_line (post_line path)" and "request_line (post_line path) = (''POST'', path)"
    and "\<forall>h \<in> set (post_headers host content). clean_line h \<and> h \<noteq> []"
    and "fold header_line (post_headers host content) (0, []) = (of_nat (length content), [])"
proof -
  let ?cl = "''Content-Length: '' @ show_nat (length content)"
  show "clean_line (post_line path)" using clean_request_line [OF assms(2), of "''POST''"] by (simp add: post_line_def)
  show "post_request host path content =
      post_line path @ crlf @ concat (map (\<lambda>h. h @ crlf) (post_headers host content)) @ crlf @ content"
    using assms(2) by (simp add: post_request_def clean_path_def post_line_def post_headers_def)
  show "request_line (post_line path) = (''POST'', path)"
    using request_line_tokens [OF assms(2), of "''POST''"] by (simp add: isspace_def post_line_def)
  have "length (show_nat (length content)) \<le> 7" using assms(3) by (intro length_show_nat_le) simp_all
  moreover have nd: "newline \<notin> set (show_nat n) \<and> carriage_return \<notin> set (show_nat n)" for n
    by (auto dest!: show_nat_digits simp: isdigit_def)
  moreover have "last (show_nat n) \<noteq> carriage_return" for n
    using nd last_in_set [OF show_nat_not_Nil] by metis
  ultimately have "clean_line ?cl" by (simp add: clean_line_def max_line_def)
  then show "\<forall>h \<in> set (post_headers host content). clean_line h \<and> h \<noteq> []"
    using clean_headers [OF assms(1)] by (simp add: post_headers_def)
  have "header_line ?cl (0, []) = (of_nat (length content), [])"
    using stoul_space_show_nat [of "length content"] assms(3)
    by (simp add: header_line_def lower_content_length)
  then show "fold header_line (post_headers host content) (0, []) = (of_nat (length content), [])"
    by (simp add: post_headers_def header_line_other del: append_assoc append_Cons)
qed

lemma read_request_post:
  assumes "clean_host host" "clean_path path" "rx_bytes es = post_request host path content"
    and "length content \<le> 1024 * 1024"
  shows "read_request es = Some \<lparr>req_method = ''POST'', req_path = path, req_authorization = [], req_body = content\<rparr>"
proof -
  note head = post_head [OF assms(1,2,4)]
  have b: "rx_bytes es = post_line path @ crlf @ concat (map (\<lambda>h. h @ crlf) (post_headers host content)) @ crlf @ content"
    by (simp only: assms(3) head(1))
  obtain es1 where es1: "recvLine es = (True, post_line path, es1)"
      "rx_bytes es1 = concat (map (\<lambda>h. h @ crlf) (post_headers host content)) @ crlf @ content"
    by (rule recvLine_crlf [OF head(2) b])
  obtain es2 where es2: "read_headers (0, []) es1 = ((of_nat (length content), []), es2)" "rx_bytes es2 = content"
    using read_headers_bytes [OF head(4) es1(2), of "(0, [])"] by (auto simp: head(5))
  note rl = head(3)
  show ?thesis
  proof (cases "content = []")
    case True
    then show ?thesis using es1(1) es2(1) rl unfolding read_request_def by simp
  next
    case False
    define n :: "64 word" where "n = of_nat (length content)"
    have un: "unat n = length content" using assms(4) by (simp add: n_def unat_of_nat_small)
    then have "0 < n" "\<not> n > 1024 * 1024"
      using False assms(4) by (simp_all add: word_less_nat_alt word_gt_0)
    moreover obtain es3 where "recvExact (unat n) es2 = (True, content, es3)"
      using recvExact_bytes [of "length content" es2] es2(2) un by (metis order_refl take_all)
    ultimately show ?thesis
      using es1(1) es2(1) rl unfolding read_request_def by (simp add: n_def)
  qed
qed

subsection \<open>Replies to the client\<close>

definition plain_header :: "string \<Rightarrow> bool" where
  "plain_header l \<longleftrightarrow> l \<noteq> [] \<and> newline \<notin> set l \<and> carriage_return \<notin> set l \<and> length l < 1000"

lemma plain_header_clean: "plain_header l \<Longrightarrow> length p < 1000 \<Longrightarrow> newline \<notin> set p \<Longrightarrow> clean_line (p @ l)"
  by (auto simp: plain_header_def clean_line_def max_line_def dest: last_in_set)

lemma show_nat_plain: "n < 10 ^ 7 \<Longrightarrow> plain_header (show_nat n)"
  using length_show_nat_le [of n 7]
  by (auto dest!: show_nat_digits simp: plain_header_def isdigit_def)

lemma http_reply_head:
  "http_reply st ct c =
     response_head (''HTTP/1.1 '' @ st)
       [''Content-Length: '' @ show_nat (length c), ''Content-Type: '' @ ct, ''Connection: close''] @ c"
  by (simp add: http_reply_def response_head_def)

lemma read_reply:
  assumes "plain_header st" "plain_header ct" "length c \<le> max_body" "rx_bytes es = http_reply st ct c"
  shows "read_response es = \<lparr>status = status_of (''HTTP/1.1 '' @ st), body = c, resp_error = []\<rparr>"
proof (rule read_response_bytes [OF _ _ _ assms(4) [unfolded http_reply_head] assms(3)])
  show "clean_line (''HTTP/1.1 '' @ st)" by (rule plain_header_clean [OF assms(1)]) simp_all
  have "plain_header (show_nat (length c))" using assms(3) by (intro show_nat_plain) (simp add: max_body_def)
  then have "clean_line (''Content-Length: '' @ show_nat (length c))" by (rule plain_header_clean) simp_all
  moreover have "clean_line (''Content-Type: '' @ ct)" by (rule plain_header_clean [OF assms(2)]) simp_all
  moreover have "clean_line ''Connection: close''" by (simp add: clean_line_def max_line_def)
  ultimately show "\<forall>h \<in> set [''Content-Length: '' @ show_nat (length c), ''Content-Type: '' @ ct, ''Connection: close''].
      clean_line h \<and> h \<noteq> []" by simp
qed simp

lemma istream_int_show_nat:
  assumes "n < 2 ^ 31" "r = [] \<or> \<not> isdigit (hd r)"
  shows "istream_int (CHR '' '' # show_nat n @ r) = int n"
proof -
  obtain c w where cw: "show_nat n = c # w" using show_nat_not_Nil by (meson list.exhaust)
  have dig: "\<forall>c \<in> set (show_nat n). isdigit c" using show_nat_digits by blast
  then have c: "nonspace c" "c \<noteq> CHR ''-''" "c \<noteq> CHR ''+''" by (simp add: cw, auto simp: cw isdigit_def)
  have "takeWhile isdigit (show_nat n @ r) = show_nat n"
    using dig assms(2) by (cases r) (auto simp: takeWhile_append2)
  moreover have "scan_sign (dropWhile isspace (CHR '' '' # show_nat n @ r)) = (False, show_nat n @ r)"
    using c by (simp add: cw scan_sign_def)
  ultimately show ?thesis using assms(1) by (simp add: istream_int_def Let_def)
qed

lemma reason_phrase_plain:
  "reason_phrase code \<noteq> [] \<and> \<not> isdigit (hd (reason_phrase code)) \<and> newline \<notin> set (reason_phrase code) \<and>
   carriage_return \<notin> set (reason_phrase code) \<and> length (reason_phrase code) < 50"
  by (simp add: reason_phrase_def isdigit_def)

lemma status_text_plain:
  assumes "code < 1000"
  shows "plain_header (status_text code)"
proof -
  have "plain_header (show_nat code)" using assms by (intro show_nat_plain) simp
  moreover have "length (show_nat code) \<le> 3" using assms by (intro length_show_nat_le) simp_all
  ultimately show ?thesis
    using reason_phrase_plain [of code] by (simp add: plain_header_def status_text_def)
qed

definition status_line :: "nat \<Rightarrow> string" where
  "status_line code = ''HTTP/1.1 '' @ status_text code"

lemma status_of_line:
  assumes "code < 1000"
  shows "status_of (status_line code) = int code"
proof -
  have "next_token (''HTTP/1.1'' @ CHR '' '' # status_text code) = Some (''HTTP/1.1'', CHR '' '' # status_text code)"
    by (rule next_token_word) (simp_all add: isspace_def)
  moreover have "istream_int (CHR '' '' # show_nat code @ reason_phrase code) = int code"
    using assms reason_phrase_plain [of code] by (intro istream_int_show_nat) simp_all
  ultimately show ?thesis by (simp add: status_of_def status_text_def status_line_def)
qed

lemma plain_types: "plain_header ''text/plain''" "plain_header metrics_type" "plain_header ''application/json''"
  by (simp_all add: plain_header_def metrics_type_def)

lemma route_frame:
  "case route r port verb path content of (code, ct, c, r', msgs) \<Rightarrow>
     code < 1000 \<and> plain_header ct \<and> (\<not> (verb = ''POST'' \<and> isIngestPath path) \<longrightarrow> r' = r)"
  unfolding route_def Let_def by (simp only: if_distrib [where f = "case_prod _"] prod.case if_cancel)
    (simp add: plain_types)

lemma route_plain:
  "route r port verb path content = (code, ct, c, r', msgs) \<Longrightarrow> code < 1000 \<and> plain_header ct"
  using route_frame [where r = r and port = port and verb = verb and path = path and content = content] by simp

lemma route_registry:
  "route r port verb path content = (code, ct, c, r', msgs) \<Longrightarrow> \<not> (verb = ''POST'' \<and> isIngestPath path) \<Longrightarrow> r' = r"
  using route_frame [where r = r and port = port and verb = verb and path = path and content = content] by simp

lemma handleClient_admitted:
  assumes "read_request es = Some req" "acl_permits (srv_acl s) peer (path_of req) (req_authorization req)"
    and "fst (limiter_allow (srv_limiter s) peer now)"
    and "route r (srv_bound_port s) (req_method req) (path_of req) (req_body req) = (code, ct, c, r', msgs)"
  shows "handleClient s r now peer es =
    \<lparr>sent = Some (http_reply (status_text code) ct c), new_limiter = snd (limiter_allow (srv_limiter s) peer now),
     new_registry = r', logged = msgs\<rparr>"
  using assms by (cases "limiter_allow (srv_limiter s) peer now")
    (simp add: handleClient_eq)

text \<open>An admitted request over the network: the client gets the code and the content of the route.\<close>

lemma exchange:
  assumes "read_request es_in = Some req" "acl_permits (srv_acl s) peer (path_of req) (req_authorization req)"
    and "fst (limiter_allow (srv_limiter s) peer now)"
    and "route r (srv_bound_port s) (req_method req) (path_of req) (req_body req) = (code, ct, c, r', msgs)"
    and "sent (handleClient s r now peer es_in) = Some (rx_bytes es_out)" "length c \<le> max_body"
  shows "read_response es_out = \<lparr>status = int code, body = c, resp_error = []\<rparr> \<and>
    new_registry (handleClient s r now peer es_in) = r'"
proof -
  note h = handleClient_admitted [OF assms(1-4)]
  note p = route_plain [OF assms(4)]
  have "rx_bytes es_out = http_reply (status_text code) ct c" using assms(5) by (simp add: h)
  from read_reply [OF status_text_plain _ assms(6) this] p
  have "read_response es_out = \<lparr>status = status_of (status_line code), body = c, resp_error = []\<rparr>"
    unfolding status_line_def by blast
  with p show ?thesis by (simp add: h status_of_line)
qed

lemma metrics_exchange:
  assumes "clean_host host" "rx_bytes es_in = get_request host ''/metrics''"
    and "acl_permits (srv_acl s) peer ''/metrics'' []" "fst (limiter_allow (srv_limiter s) peer now)"
    and "length (renderPrometheusText r True) \<le> 1024 * 1024"
    and "sent (handleClient s r now peer es_in) = Some (rx_bytes es_out)"
    and "network host port (get_request host ''/metrics'') = Answers es_out"
  shows "httpGet network host port ''/metrics'' = \<lparr>status = 200, body = renderPrometheusText r True, resp_error = []\<rparr> \<and>
    new_registry (handleClient s r now peer es_in) = r"
proof -
  let ?req = "\<lparr>req_method = ''GET'', req_path = ''/metrics'', req_authorization = [], req_body = []\<rparr>"
  have "clean_path ''/metrics''" by (simp add: clean_path_def isspace_def)
  then have req: "read_request es_in = Some ?req" using assms(1,2) by (intro read_request_get)
  have path: "path_of ?req = ''/metrics''" by (simp add: path_of_def)
  have rt: "route r (srv_bound_port s) (req_method ?req) (path_of ?req) (req_body ?req) =
      (200, metrics_type, renderPrometheusText r True, r, [])"
    by (simp add: route_def path)
  have len: "length (renderPrometheusText r True) \<le> max_body" using assms(5) by (simp add: max_body_def)
  have permit: "acl_permits (srv_acl s) peer (path_of ?req) (req_authorization ?req)" using assms(3) by (simp add: path)
  from exchange [OF req permit assms(4) rt assms(6) len] assms(7) show ?thesis
    by (simp add: httpGet_def http_send_def)
qed

subsection \<open>Properties\<close>

text \<open>C15: A scrape over the network: the client's GET of \<open>/metrics\<close>, cut into chunks in any way, is
  read by the server; if the policy permits it and the limiter admits it, the reply, again cut in
  any way, gives the client status 200 and exactly the exposition of the registry, which is unchanged.\<close>

theorem metrics_over_http:
  assumes "clean_host host" "rx_bytes es_in = get_request host ''/metrics''"
    and "acl_permits (srv_acl s) peer ''/metrics'' []" "fst (limiter_allow (srv_limiter s) peer now)"
    and "length (renderPrometheusText r True) \<le> 1024 * 1024"
    and "sent (handleClient s r now peer es_in) = Some (rx_bytes es_out)"
    and "network host port (get_request host ''/metrics'') = Answers es_out"
  shows "httpGet network host port ''/metrics'' = \<lparr>status = 200, body = renderPrometheusText r True, resp_error = []\<rparr> \<and>
    new_registry (handleClient s r now peer es_in) = r"
  by (rule metrics_exchange [where network = network and host = host and port = port, OF assms])

theorem metrics_over_http_witness:
  "let out = handleClient (MetricsServer_new ''0.0.0.0'' 19100) registry_empty 0 ''10.0.0.1:80''
         [Chunk (get_request ''h'' ''/metrics'')]
   in httpGet (\<lambda>h p r. Answers [Chunk (the (sent out))]) ''h'' 80 ''/metrics'' = \<lparr>status = 200, body = [], resp_error = []\<rparr>"
proof -
  let ?s = "MetricsServer_new ''0.0.0.0'' 19100" and ?es = "[Chunk (get_request ''h'' ''/metrics'')]"
  have host: "clean_host ''h''" by (simp add: clean_host_def)
  have permit: "acl_permits (srv_acl ?s) ''10.0.0.1:80'' ''/metrics'' []"
    by (simp add: MetricsServer_new_def AclPolicy_new_def acl_permits_def ipAllowed_def authOk_def)
  have admit: "fst (limiter_allow (srv_limiter ?s) ''10.0.0.1:80'' 0)"
    by (simp add: MetricsServer_new_def RateLimiter_new_def limiter_allow_def)
  have empty: "renderPrometheusText registry_empty True = []"
    by (simp add: renderPrometheusText_def sorted_metrics_def registry_list_def registry_empty_def)
  have path: "clean_path ''/metrics''" by (simp add: clean_path_def isspace_def)
  have "read_request ?es = Some \<lparr>req_method = ''GET'', req_path = ''/metrics'', req_authorization = [], req_body = []\<rparr>"
    by (rule read_request_get [OF host path]) simp
  then have "sent (handleClient ?s registry_empty 0 ''10.0.0.1:80'' ?es) \<noteq> None"
    by (simp add: handleClient_eq case_prod_beta Let_def)
  then show ?thesis
    using metrics_over_http [OF host _ permit admit, of ?es registry_empty
        "[Chunk (the (sent (handleClient ?s registry_empty 0 ''10.0.0.1:80'' ?es)))]"
        "\<lambda>h p r. Answers [Chunk (the (sent (handleClient ?s registry_empty 0 ''10.0.0.1:80'' ?es)))]" 80]
    by (simp add: empty)
qed

text \<open>C28: A push over the network: a POST of at most one mebibyte to an ingest path by a permitted and
  admitted client reaches the registry exactly as \<open>ingestBody\<close> takes it, and the client learns the
  outcome: 400 when every line was rejected, else 200.\<close>

theorem ingest_over_http:
  assumes "clean_host host" "clean_path path" "isIngestPath path" "length content \<le> 1024 * 1024"
    and "rx_bytes es_in = post_request host path content"
    and "acl_permits (srv_acl s) peer path []" "fst (limiter_allow (srv_limiter s) peer now)"
    and "sent (handleClient s r now peer es_in) = Some (rx_bytes es_out)"
    and "network host port (post_request host path content) = Answers es_out"
  shows "new_registry (handleClient s r now peer es_in) = ing_registry (ingestBody r content) \<and>
    status (httpPost network host port path content) =
      (if rejected (ing_result (ingestBody r content)) > 0 \<and> accepted (ing_result (ingestBody r content)) = 0
       then 400 else 200)"
proof -
  let ?req = "\<lparr>req_method = ''POST'', req_path = path, req_authorization = [], req_body = content\<rparr>"
  let ?st = "ingestBody r content"
  note req = read_request_post [OF assms(1,2,5,4)]
  have path: "path_of ?req = path" using assms(3) by (auto simp: path_of_def isIngestPath_def)
  have permit: "acl_permits (srv_acl s) peer (path_of ?req) (req_authorization ?req)" using assms(6) by (simp add: path)
  obtain code ct c r' msgs where rt: "route r (srv_bound_port s) (req_method ?req) (path_of ?req) (req_body ?req) = (code, ct, c, r', msgs)"
    by (metis prod_cases5)
  then have cr: "code = (if rejected (ing_result ?st) > 0 \<and> accepted (ing_result ?st) = 0 then 400 else 200)" "r' = ing_registry ?st"
      "c = ''ingest failed: '' @ last_error (ing_result ?st) @ [newline] \<or>
       c = ''accepted='' @ show_nat (accepted (ing_result ?st)) @ '' rejected='' @ show_nat (rejected (ing_result ?st)) @ [newline]"
    using assms(3) by (auto simp: route_def path Let_def split: if_splits)
  have small: "accepted (ing_result ?st) < 10 ^ 7" "rejected (ing_result ?st) < 10 ^ 7"
    using ingest_counts_le [of r content] assms(4) by simp_all
  have len: "length c \<le> max_body"
    using cr(3) ingest_error_short [of r content] length_show_nat_le [OF small(1)] length_show_nat_le [OF small(2)]
    by (auto simp: max_body_def)
  from exchange [OF req permit assms(7) rt assms(8) len] assms(9) cr show ?thesis
    by (simp add: httpPost_def http_send_def)
qed

theorem ingest_over_http_witness:
  "let out = handleClient (MetricsServer_new ''0.0.0.0'' 19100) registry_empty 0 ''10.0.0.1:80''
         [Chunk (post_request ''h'' ''/ingest'' [])]
   in status (httpPost (\<lambda>h p r. Answers [Chunk (the (sent out))]) ''h'' 80 ''/ingest'' []) = 200"
proof -
  let ?s = "MetricsServer_new ''0.0.0.0'' 19100" and ?es = "[Chunk (post_request ''h'' ''/ingest'' [])]"
  have host: "clean_host ''h''" by (simp add: clean_host_def)
  have path: "clean_path ''/ingest''" by (simp add: clean_path_def isspace_def)
  have ing: "isIngestPath ''/ingest''" by (simp add: isIngestPath_def)
  have permit: "acl_permits (srv_acl ?s) ''10.0.0.1:80'' ''/ingest'' []"
    by (simp add: MetricsServer_new_def AclPolicy_new_def acl_permits_def ipAllowed_def authOk_def)
  have admit: "fst (limiter_allow (srv_limiter ?s) ''10.0.0.1:80'' 0)"
    by (simp add: MetricsServer_new_def RateLimiter_new_def limiter_allow_def)
  have empty: "ing_result (ingestBody registry_empty []) = IngestResult_new"
    by (simp add: ingestBody_def prefer_prom_def ingest_start_def)
  have "read_request ?es = Some \<lparr>req_method = ''POST'', req_path = ''/ingest'', req_authorization = [], req_body = []\<rparr>"
    by (rule read_request_post [OF host path]) simp_all
  then have "sent (handleClient ?s registry_empty 0 ''10.0.0.1:80'' ?es) \<noteq> None"
    by (simp add: handleClient_eq case_prod_beta Let_def)
  then show ?thesis
    using ingest_over_http [OF host path ing _ _ permit admit, of "[]" ?es registry_empty
        "[Chunk (the (sent (handleClient ?s registry_empty 0 ''10.0.0.1:80'' ?es)))]"
        "\<lambda>h p r. Answers [Chunk (the (sent (handleClient ?s registry_empty 0 ''10.0.0.1:80'' ?es)))]" 80]
    by (simp add: empty IngestResult_new_def)
qed

lemma route_wf: "wf_registry r \<Longrightarrow> route r port verb path content = (code, ct, c, r', msgs) \<Longrightarrow> wf_registry r'"
  using route_registry [of r port verb path content code ct c r' msgs] ingestBody_wf [of r content]
  by (cases "verb = ''POST'' \<and> isIngestPath path") (auto simp: route_def Let_def split: if_splits)

lemma handleClient_wf:
  assumes "wf_registry r"
  shows "wf_registry (new_registry (handleClient s r now peer es))"
proof (cases "read_request es")
  case None
  with assms show ?thesis by (simp add: handleClient_eq)
next
  case (Some req)
  obtain code ct c r' msgs where rt: "route r (srv_bound_port s) (req_method req) (path_of req) (req_body req) = (code, ct, c, r', msgs)"
    by (metis prod_cases5)
  from route_wf [OF assms rt] assms show ?thesis
    by (simp add: handleClient_eq Some rt Let_def case_prod_beta)
qed

lemma accept_turn_wf: "wf_registry r \<Longrightarrow> wf_registry (fst (snd (accept_turn s r now conn)))"
  by (cases conn) (simp_all add: accept_turn_def Let_def handleClient_wf)

lemma handleClient_guards:
  assumes "read_request es = Some req"
  shows "(\<not> acl_permits (srv_acl s) peer (path_of req) (req_authorization req) \<longrightarrow>
      handleClient s r now peer es =
        \<lparr>sent = Some (http_reply ''403 Forbidden'' ''text/plain'' (''forbidden'' @ [newline])),
         new_limiter = srv_limiter s, new_registry = r, logged = []\<rparr>) \<and>
    (acl_permits (srv_acl s) peer (path_of req) (req_authorization req) \<and> \<not> fst (limiter_allow (srv_limiter s) peer now) \<longrightarrow>
      sent (handleClient s r now peer es) =
        Some (http_reply ''429 Too Many Requests'' ''text/plain'' (''rate limit exceeded'' @ [newline])) \<and>
      new_registry (handleClient s r now peer es) = r)"
  using assms by (simp add: handleClient_eq case_prod_beta Let_def)

text \<open>Access control comes first: a request that the policy does not permit is answered with 403 and
  leaves registry and limiter as they were; one the limiter rejects is answered with 429 and
  leaves the registry as it was.\<close>

lemma guards_protect_registry:
  assumes "read_request es = Some req"
  shows "(\<not> acl_permits (srv_acl s) peer (path_of req) (req_authorization req) \<longrightarrow>
      handleClient s r now peer es =
        \<lparr>sent = Some (http_reply ''403 Forbidden'' ''text/plain'' (''forbidden'' @ [newline])),
         new_limiter = srv_limiter s, new_registry = r, logged = []\<rparr>) \<and>
    (acl_permits (srv_acl s) peer (path_of req) (req_authorization req) \<and> \<not> fst (limiter_allow (srv_limiter s) peer now) \<longrightarrow>
      sent (handleClient s r now peer es) =
        Some (http_reply ''429 Too Many Requests'' ''text/plain'' (''rate limit exceeded'' @ [newline])) \<and>
      new_registry (handleClient s r now peer es) = r)"
  by (rule handleClient_guards [OF assms])

text \<open>C27: Only ingest writes: when handling a connection changes the registry, the request was a
  POST to an ingest path that the policy permits and the limiter admits.\<close>

theorem only_ingest_changes_registry:
  assumes "new_registry (handleClient s r now peer es) \<noteq> r"
  shows "\<exists>req. read_request es = Some req \<and> req_method req = ''POST'' \<and> isIngestPath (path_of req) \<and>
    acl_permits (srv_acl s) peer (path_of req) (req_authorization req) \<and>
    fst (limiter_allow (srv_limiter s) peer now) \<and>
    new_registry (handleClient s r now peer es) = ing_registry (ingestBody r (req_body req))"
proof (cases "read_request es")
  case None
  with assms show ?thesis by (simp add: handleClient_eq)
next
  case (Some req)
  have permit: "acl_permits (srv_acl s) peer (path_of req) (req_authorization req)"
    using assms handleClient_guards [OF Some, of s peer r now] by fastforce
  have admit: "fst (limiter_allow (srv_limiter s) peer now)"
    using assms permit handleClient_guards [OF Some, of s peer r now] by fastforce
  obtain code ct c r' msgs where rt: "route r (srv_bound_port s) (req_method req) (path_of req) (req_body req) = (code, ct, c, r', msgs)"
    by (metis prod_cases5)
  have new: "new_registry (handleClient s r now peer es) = r'"
    using handleClient_admitted [OF Some permit admit rt] by simp
  then have ing: "req_method req = ''POST'' \<and> isIngestPath (path_of req)"
    using assms route_registry [OF rt] by blast
  with rt have "r' = ing_registry (ingestBody r (req_body req))"
    by (auto simp: route_def Let_def split: if_splits)
  with Some permit admit new ing show ?thesis by simp
qed

theorem only_ingest_changes_registry_witness:
  "let out = handleClient (MetricsServer_new ''0.0.0.0'' 19100) registry_empty 0 ''10.0.0.1:80''
         [Chunk (post_request ''h'' ''/ingest'' ''a gauge 1'')]
   in new_registry out \<noteq> registry_empty \<and>
      new_registry out = ing_registry (ingestBody registry_empty ''a gauge 1'')"
proof -
  let ?s = "MetricsServer_new ''0.0.0.0'' 19100" and ?es = "[Chunk (post_request ''h'' ''/ingest'' ''a gauge 1'')]"
  let ?req = "\<lparr>req_method = ''POST'', req_path = ''/ingest'', req_authorization = [], req_body = ''a gauge 1''\<rparr>"
  have req: "read_request ?es = Some ?req"
    by (rule read_request_post) (simp_all add: clean_host_def clean_path_def isspace_def)
  have path: "path_of ?req = ''/ingest''" by (simp add: path_of_def)
  have permit: "acl_permits (srv_acl ?s) ''10.0.0.1:80'' (path_of ?req) (req_authorization ?req)"
    by (simp add: MetricsServer_new_def AclPolicy_new_def acl_permits_def ipAllowed_def authOk_def)
  have admit: "fst (limiter_allow (srv_limiter ?s) ''10.0.0.1:80'' 0)"
    by (simp add: MetricsServer_new_def RateLimiter_new_def limiter_allow_def)
  obtain code ct c r' msgs where rt: "route registry_empty (srv_bound_port ?s) (req_method ?req) (path_of ?req)
      (req_body ?req) = (code, ct, c, r', msgs)" by (metis prod_cases5)
  then have "r' = ing_registry (ingestBody registry_empty ''a gauge 1'')"
    by (auto simp: route_def path isIngestPath_def Let_def split: if_splits)
  then have new: "new_registry (handleClient ?s registry_empty 0 ''10.0.0.1:80'' ?es) =
      ing_registry (ingestBody registry_empty ''a gauge 1'')"
    using handleClient_admitted [OF req permit admit rt] by simp
  have "\<not> prefer_prom ''a gauge 1''" by (simp add: prefer_prom_def)
  moreover have "stored_specs (text_lines ''a gauge 1'') =
      [\<lparr>spec_name = ''a'', spec_type = ''gauge'', spec_help = [], spec_value = DFin False 1, spec_labels = [], spec_buckets = []\<rparr>]"
    by code_simp
  ultimately have "ing_registry (ingestBody registry_empty ''a gauge 1'') \<noteq> registry_empty"
    by (simp add: ingest_simple_body upsert_def makeMetric_def registry_empty_def)
  with new have ne: "new_registry (handleClient ?s registry_empty 0 ''10.0.0.1:80'' ?es) \<noteq> registry_empty" by simp
  with only_ingest_changes_registry [OF ne] req show ?thesis by (simp add: Let_def)
qed

end
