(* ===== verification/Snapshot.thy ===== *)
theory Snapshot
  imports Federation Field_Scanner Logger
begin

section \<open>Registry snapshots (snapshot.hpp, snapshot.cpp)\<close>

text \<open>
  \<^verbatim>\<open>SnapshotStore\<close> writes the registry to a text file, one metric per line, and reads it back
  at the next start. The file system is a map from paths to contents; what the operating system
  answers when the file is written is an argument of \<open>snapshot_save\<close>.
\<close>

subsection \<open>Reading a line\<close>

abbreviation help_keys :: "string list" where
  "help_keys \<equiv> [''labels='', ''value='']"

text \<open>The loop over the fields after name and type; the flag is \<^verbatim>\<open>have_value\<close>.\<close>

function snapshot_fields :: "string \<Rightarrow> MetricSpec \<Rightarrow> bool \<Rightarrow> string + MetricSpec \<times> bool" where
  "snapshot_fields rest spec have_value =
     (let s = dropWhile isspace rest
      in if s = [] then Inr (spec, have_value)
         else if starts_with ''help='' s then
           snapshot_fields (snd (scan_help help_keys False (drop 5 s)))
             (spec\<lparr>spec_help := trim (fst (scan_help help_keys False (drop 5 s)))\<rparr>) have_value
         else if starts_with ''labels='' s then
           snapshot_fields (after_word (drop 7 s)) (spec\<lparr>spec_labels := word_of (drop 7 s)\<rparr>) have_value
         else if starts_with ''value='' s then
           (case stod (word_of (drop 6 s)) of
              Inl e \<Rightarrow> Inl ''invalid value=''
            | Inr v \<Rightarrow> snapshot_fields (after_word (drop 6 s)) (spec\<lparr>spec_value := v\<rparr>) True)
         else
           (case stod (word_of s) of
              Inl e \<Rightarrow> Inl ''snapshot trailing field must be a number or help=/labels=/value=''
            | Inr v \<Rightarrow> snapshot_fields (after_word s) (spec\<lparr>spec_value := v\<rparr>) True))"
  by pat_completeness auto

termination
  by (relation "measure (\<lambda>(rest, spec, have_value). length rest)")
    (auto intro: length_drop_word length_drop_help length_plain_word simp del: dropWhile_eq_Nil_conv)

declare snapshot_fields.simps [simp del]

definition parseSnapshotLine :: "string \<Rightarrow> string + MetricSpec" where
  "parseSnapshotLine line =
     (case next_token line of
        None \<Rightarrow> Inl ''snapshot line needs name and type''
      | Some (name, r) \<Rightarrow>
          (case next_token r of
             None \<Rightarrow> Inl ''snapshot line needs name and type''
           | Some (type, r') \<Rightarrow>
               (case snapshot_fields (trim r') (empty_spec\<lparr>spec_name := name, spec_type := type\<rparr>) False of
                  Inl e \<Rightarrow> Inl e
                | Inr (spec, have_value) \<Rightarrow>
                    if \<not> have_value then Inl ''snapshot line missing value''
                    else if spec_name spec = [] \<or> parseMetricType (spec_type spec) = Unknown
                    then Inl (''unknown metric type: '' @ spec_type spec)
                    else Inr spec)))"

subsection \<open>The store\<close>

record SnapshotStore =
  snap_path :: string
  interval_sec :: int
  snap_running :: bool
  snap_thread :: bool

definition SnapshotStore_new :: "string \<Rightarrow> int \<Rightarrow> SnapshotStore" where
  "SnapshotStore_new path interval =
     \<lparr>snap_path = path, interval_sec = (if interval > 0 then interval else 60),
      snap_running = False, snap_thread = False\<rparr>"

definition cut_comment :: "string \<Rightarrow> string" where
  "cut_comment line = takeWhile (\<lambda>c. c \<noteq> CHR ''#'') line"

text \<open>One line of the file: the registry, the number loaded so far, and the messages.\<close>

definition load_line :: "string \<Rightarrow> MetricRegistry \<times> nat \<times> log_messages \<Rightarrow> MetricRegistry \<times> nat \<times> log_messages" where
  "load_line raw st =
     (case st of (registry, loaded, msgs) \<Rightarrow>
        let line = trim (cut_comment raw)
        in if line = [] then st
           else case parseSnapshotLine line of
             Inl error \<Rightarrow> (registry, loaded, msgs @ [(Warning, ''snapshot skip: '' @ error)])
           | Inr spec \<Rightarrow>
               (let (ok, registry') = upsert registry spec
                in (registry', if ok then loaded + 1 else loaded, msgs)))"

type_synonym file_system = "string \<rightharpoonup> string"

definition snapshot_load :: "SnapshotStore \<Rightarrow> file_system \<Rightarrow> MetricRegistry \<Rightarrow> bool \<times> MetricRegistry \<times> log_messages" where
  "snapshot_load s fs registry =
     (if snap_path s = [] then (True, registry, [])
      else case fs (snap_path s) of
        None \<Rightarrow> (True, registry, [(Info, ''snapshot file not found (starting empty): '' @ snap_path s)])
      | Some contents \<Rightarrow>
          (case fold load_line (text_lines contents) (registry, 0, []) of
             (registry', loaded, msgs) \<Rightarrow>
               (True, registry', msgs @ [(Info, ''loaded '' @ show_nat loaded @ '' metrics from snapshot '' @ snap_path s)])))"

definition snapshot_line :: "Metric \<Rightarrow> string" where
  "snapshot_line m =
     metric_name m @ '' '' @ toString (metric_type m) @ '' '' @ show_double (metric_value m) @
     (if metric_labels m \<noteq> [] then '' labels='' @ metric_labels m else []) @
     (if metric_help m \<noteq> [] then '' help='' @ metric_help m else [])"

definition snapshot_text :: "MetricRegistry \<Rightarrow> string" where
  "snapshot_text registry =
     ''# simple-metricd registry snapshot'' @ [newline] @ unlines (map snapshot_line (sorted_metrics registry))"

text \<open>What happens to the write: the temporary file does not open, its contents do not reach the
  disk in full, it cannot be renamed, or all goes well.\<close>

datatype save_outcome = Open_Fails | Write_Fails string | Rename_Fails | Save_Succeeds

definition snapshot_save :: "SnapshotStore \<Rightarrow> save_outcome \<Rightarrow> MetricRegistry \<Rightarrow> file_system \<Rightarrow> bool \<times> file_system \<times> log_messages" where
  "snapshot_save s outcome registry fs =
     (if snap_path s = [] then (True, fs, [])
      else
        let tmp = snap_path s @ ''.tmp'' in
        case outcome of
          Open_Fails \<Rightarrow> (False, fs, [(Error, ''failed to write snapshot temp file: '' @ tmp)])
        | Write_Fails partial_text \<Rightarrow>
            (False, fs(tmp \<mapsto> partial_text), [(Error, ''failed to flush snapshot temp file: '' @ tmp)])
        | Rename_Fails \<Rightarrow>
            (False, fs(tmp \<mapsto> snapshot_text registry), [(Error, ''failed to replace snapshot file: '' @ snap_path s)])
        | Save_Succeeds \<Rightarrow>
            (True, (fs(tmp := None))(snap_path s \<mapsto> snapshot_text registry),
             [(Debug, ''saved snapshot '' @ snap_path s @ '' ('' @ show_nat (length (registry_list registry)) @ '' metrics)'')]))"

definition snapshot_start :: "SnapshotStore \<Rightarrow> bool \<times> SnapshotStore" where
  "snapshot_start s =
     (if snap_path s = [] then (True, s)
      else if snap_running s then (True, s)
      else (True, s\<lparr>snap_running := True, snap_thread := True\<rparr>))"

text \<open>Stopping joins the thread, and saves when the store was running.\<close>

definition snapshot_stop :: "SnapshotStore \<Rightarrow> save_outcome \<Rightarrow> MetricRegistry \<Rightarrow> file_system \<Rightarrow> SnapshotStore \<times> file_system \<times> log_messages" where
  "snapshot_stop s outcome registry fs =
     (if \<not> snap_running s then (s\<lparr>snap_thread := False\<rparr>, fs, [])
      else case snapshot_save s outcome registry fs of
        (ok, fs', msgs) \<Rightarrow> (s\<lparr>snap_running := False, snap_thread := False\<rparr>, fs', msgs))"

text \<open>One turn of the background loop with deadline \<open>next\<close>: whether it saves, and the next deadline.
  The clock is read once for the test and again after the save.\<close>

definition interval_ns :: "SnapshotStore \<Rightarrow> time_point" where
  "interval_ns s = word_of_int (interval_sec s * 1000000000)"

definition snapshot_turn :: "SnapshotStore \<Rightarrow> time_point \<Rightarrow> time_point \<Rightarrow> time_point \<Rightarrow> bool \<times> time_point" where
  "snapshot_turn s next_save now later =
     (if sint now \<ge> sint next_save then (True, later + interval_ns s) else (False, next_save))"

subsection \<open>Reading what was saved\<close>

text \<open>What a saved metric loads as: a histogram's line carries its observation count only, which
  the loader puts into a new, empty histogram with the default buckets.\<close>

definition snapshot_spec :: "Metric \<Rightarrow> MetricSpec" where
  "snapshot_spec m =
     series (metric_name m) (toString (metric_type m)) (metric_help m) (metric_labels m)
       (reread_value (metric_value m))"

definition snapshot_safe :: "Metric \<Rightarrow> bool" where
  "snapshot_safe m \<longleftrightarrow>
     metric_name m \<noteq> [] \<and> list_all nonspace (metric_name m) \<and> CHR ''#'' \<notin> set (metric_name m) \<and>
     list_all nonspace (metric_labels m) \<and> CHR ''#'' \<notin> set (metric_labels m) \<and>
     trimmed (metric_help m) \<and> CHR ''#'' \<notin> set (metric_help m) \<and> newline \<notin> set (metric_help m) \<and>
     key_free help_keys (metric_help m) \<and> readable (metric_value m)"

lemma snapshot_fields_Nil: "snapshot_fields [] spec b = Inr (spec, b)"
  by (simp add: snapshot_fields.simps [of "[]"])

lemma snapshot_fields_value:
  assumes v: "show_double v = w" "stod w = Inr x" and r: "r = [] \<or> isspace (hd r)"
  shows "snapshot_fields (w @ r) spec b = snapshot_fields r (spec\<lparr>spec_value := x\<rparr>) True"
proof -
  have w: "w \<noteq> []" "\<forall>c \<in> set w. nonspace c" using v(1) show_double_text(1,2) [of v] by auto
  then obtain c w' where cw: "w = c # w'" "nonspace c" by (cases w) auto
  have "number_char c" using show_double_number [of c v] by (simp add: v(1) cw)
  then have "c \<noteq> CHR ''h''" "c \<noteq> CHR ''l''" "c \<noteq> CHR ''v''" by (auto simp: number_char_def isdigit_def)
  then have "\<not> starts_with ''help='' (w @ r)" "\<not> starts_with ''labels='' (w @ r)" "\<not> starts_with ''value='' (w @ r)"
    by (simp_all add: cw)
  moreover have "dropWhile isspace (w @ r) = w @ r" "w @ r \<noteq> []" using cw by simp_all
  moreover note word_of_append [OF w(2) r]
  ultimately show ?thesis
    using v(2) w(1) by (subst snapshot_fields.simps) (simp add: Let_def)
qed

lemma snapshot_fields_labels:
  assumes "list_all nonspace ls" "r = [] \<or> isspace (hd r)"
  shows "snapshot_fields ('' labels='' @ ls @ r) spec b = snapshot_fields r (spec\<lparr>spec_labels := ls\<rparr>) b"
proof -
  have "\<forall>c \<in> set ls. nonspace c" using assms(1) by (simp add: list_all_iff)
  note w = word_of_append [OF this assms(2)]
  have "nonspace CHR ''l''" by (simp add: isspace_def)
  with w show ?thesis
    by (subst snapshot_fields.simps) (simp add: Let_def)
qed

lemma snapshot_fields_help:
  assumes "trimmed h" "key_free help_keys h"
  shows "snapshot_fields ('' help='' @ h) spec b = Inr (spec\<lparr>spec_help := h\<rparr>, b)"
proof -
  have "scan_help help_keys False h = (h, [])" by (rule scan_help_key_free [OF assms(2)]) simp
  moreover have "nonspace CHR ''h''" by (simp add: isspace_def)
  ultimately show ?thesis
    using assms(1) by (subst snapshot_fields.simps) (simp add: snapshot_fields_Nil Let_def)
qed

definition labels_part :: "Metric \<Rightarrow> string" where
  "labels_part m = (if metric_labels m \<noteq> [] then '' labels='' @ metric_labels m else [])"

definition help_part :: "Metric \<Rightarrow> string" where
  "help_part m = (if metric_help m \<noteq> [] then '' help='' @ metric_help m else [])"

lemma parts_start:
  "help_part m = [] \<or> isspace (hd (help_part m))"
  "labels_part m @ help_part m = [] \<or> isspace (hd (labels_part m @ help_part m))"
  by (auto simp: labels_part_def help_part_def)

lemma snapshot_fields_line:
  assumes "snapshot_safe m" "wf_metric m"
  shows "snapshot_fields (show_double (metric_value m) @ labels_part m @ help_part m) spec b =
    Inr ((if metric_help m = [] then id else spec_help_update (\<lambda>_. metric_help m))
      ((if metric_labels m = [] then id else spec_labels_update (\<lambda>_. metric_labels m))
        (spec\<lparr>spec_value := reread_value (metric_value m)\<rparr>)), True)"
proof -
  have rd: "stod (show_double (metric_value m)) = Inr (reread_value (metric_value m))"
    using assms stod_show_double [OF wf_metric_value [OF assms(2)]]
    by (simp add: snapshot_safe_def readable_def reread_value_def split: sum.splits)
  have hlp: "snapshot_fields (help_part m) spec b =
      Inr ((if metric_help m = [] then id else spec_help_update (\<lambda>_. metric_help m)) spec, b)" for spec b
    using assms(1) snapshot_fields_help [of "metric_help m"]
    by (simp add: help_part_def snapshot_safe_def snapshot_fields_Nil)
  have "snapshot_fields (labels_part m @ help_part m) spec b =
      snapshot_fields (help_part m) ((if metric_labels m = [] then id else spec_labels_update (\<lambda>_. metric_labels m)) spec) b"
    for spec b
    using assms(1) snapshot_fields_labels [OF _ parts_start(1), of "metric_labels m"]
    by (simp add: labels_part_def snapshot_safe_def)
  then show ?thesis
    using snapshot_fields_value [OF refl rd parts_start(2)] hlp by simp
qed

lemma parseSnapshotLine_line:
  assumes safe: "snapshot_safe m" and wf: "wf_metric m"
  shows "parseSnapshotLine (snapshot_line m) = Inr (snapshot_spec m)"
proof -
  let ?rest = "show_double (metric_value m) @ labels_part m @ help_part m"
  have name: "metric_name m \<noteq> []" "\<forall>c \<in> set (metric_name m). nonspace c"
    using safe by (simp_all add: snapshot_safe_def list_all_iff)
  have tok: "toString t \<noteq> []" "\<forall>c \<in> set (toString t). nonspace c" for t
    using toString_token [of t] by (simp_all add: list_all_iff)
  have line: "snapshot_line m = metric_name m @ '' '' @ toString (metric_type m) @ '' '' @ ?rest"
    by (simp add: snapshot_line_def labels_part_def help_part_def)
  have t1: "next_token (snapshot_line m) = Some (metric_name m, '' '' @ toString (metric_type m) @ '' '' @ ?rest)"
    unfolding line by (rule next_token_word [OF name]) simp
  have t2: "next_token ('' '' @ toString (metric_type m) @ '' '' @ ?rest) = Some (toString (metric_type m), '' '' @ ?rest)"
    using next_token_word [OF tok, of "'' '' @ ?rest"] by simp
  have "trimmed ?rest"
  proof -
    have hd: "nonspace (hd ?rest)" "?rest \<noteq> []"
      using show_double_text(1,2) [of "metric_value m"] by (cases "show_double (metric_value m)"; simp)+
    have "nonspace (last ?rest)"
      using safe show_double_text(1,2) [of "metric_value m"] last_in_set
      by (auto simp: labels_part_def help_part_def snapshot_safe_def trimmed_def list_all_iff)
    with hd show ?thesis by (simp add: trimmed_def)
  qed
  then have t3: "trim ('' '' @ ?rest) = ?rest" by simp
  have "parseMetricType (toString (metric_type m)) \<noteq> Unknown" by (simp add: metric_type_known)
  then show ?thesis
    unfolding parseSnapshotLine_def t1 t2 option.case prod.case t3 snapshot_fields_line [OF safe wf] sum.case
    using name(1) by (auto simp: snapshot_spec_def series_def empty_spec_def)
qed

lemma snapshot_line_clean:
  assumes "snapshot_safe m"
  shows "CHR ''#'' \<notin> set (snapshot_line m)" "newline \<notin> set (snapshot_line m)" "trimmed (snapshot_line m)"
    "snapshot_line m \<noteq> []"
proof -
  have num: "CHR ''#'' \<notin> set (show_double v)" for v
    using show_double_number number_char_clean(2) by force
  have tok: "CHR ''#'' \<notin> set (toString t) \<and> newline \<notin> set (toString t)" for t by (cases t) simp_all
  show "CHR ''#'' \<notin> set (snapshot_line m)"
    using assms num tok by (simp add: snapshot_line_def snapshot_safe_def)
  have "newline \<notin> set (metric_name m)" "newline \<notin> set (metric_labels m)"
    using assms by (auto simp: snapshot_safe_def list_all_iff)
  then show "newline \<notin> set (snapshot_line m)"
    using assms tok show_double_text(4) by (simp add: snapshot_line_def snapshot_safe_def)
  show "snapshot_line m \<noteq> []" by (simp add: snapshot_line_def)
  have "nonspace (hd (snapshot_line m))"
    using assms by (cases "metric_name m") (simp_all add: snapshot_line_def snapshot_safe_def)
  moreover have "nonspace (last (snapshot_line m))"
    using assms show_double_text(1,2) [of "metric_value m"]
    by (auto simp: snapshot_line_def snapshot_safe_def trimmed_def list_all_iff)
  ultimately show "trimmed (snapshot_line m)" by (simp add: trimmed_def)
qed

lemma cut_comment_id: "CHR ''#'' \<notin> set l \<Longrightarrow> cut_comment l = l"
  by (auto simp: cut_comment_def takeWhile_eq_all_conv)

lemma snapshot_spec_accepted: "metric_name m \<noteq> [] \<Longrightarrow> accepted_spec (snapshot_spec m)"
  by (simp add: accepted_spec_def snapshot_spec_def series_def metric_type_known)

lemma load_line_saved:
  assumes "snapshot_safe m" "wf_metric m"
  shows "load_line (snapshot_line m) (r, n, msgs) = (snd (upsert r (snapshot_spec m)), n + 1, msgs)"
proof -
  have "metric_name m \<noteq> []" using assms(1) by (simp add: snapshot_safe_def)
  then have "fst (upsert r (snapshot_spec m))"
    using registry.store_accepted snapshot_spec_accepted by blast
  then show ?thesis
    using parseSnapshotLine_line [OF assms] snapshot_line_clean [OF assms(1)]
    by (simp add: load_line_def cut_comment_id case_prod_beta Let_def)
qed

lemma load_saved_lines:
  "\<forall>m \<in> set ms. snapshot_safe m \<and> wf_metric m \<Longrightarrow>
   fold load_line (map snapshot_line ms) (r, n, msgs) =
     (fold (\<lambda>spec r. snd (upsert r spec)) (map snapshot_spec ms) r, n + length ms, msgs)"
  by (induction ms arbitrary: r n) (simp_all add: load_line_saved)

definition snapshot_header :: string where
  "snapshot_header = ''# simple-metricd registry snapshot''"

lemma load_header: "load_line snapshot_header st = st"
  by (cases st) (simp add: load_line_def snapshot_header_def cut_comment_def)

lemma snapshot_text_lines:
  assumes "\<forall>m \<in> set (sorted_metrics r). snapshot_safe m"
  shows "text_lines (snapshot_text r) = snapshot_header # map snapshot_line (sorted_metrics r)"
proof -
  have tx: "snapshot_text r = concat (map (\<lambda>l. l @ [newline]) (snapshot_header # map snapshot_line (sorted_metrics r)))"
    by (simp only: snapshot_text_def unlines_def snapshot_header_def) simp
  have "newline \<notin> set snapshot_header" by (simp add: snapshot_header_def)
  then show ?thesis
    unfolding tx using assms snapshot_line_clean(2) by (intro getlines_concat) auto
qed

lemma wf_registry_sorted: "wf_registry r \<Longrightarrow> m \<in> set (sorted_metrics r) \<Longrightarrow> wf_metric m"
  by (auto simp: wf_registry_def registry_list_def list_all_iff)

lemma load_snapshot_text:
  assumes "wf_registry r" "list_all snapshot_safe (registry_list r)"
    and "snap_path s \<noteq> []" "fs (snap_path s) = Some (snapshot_text r)"
  shows "snapshot_load s fs r0 =
    (True, fold (\<lambda>spec r. snd (upsert r spec)) (map snapshot_spec (sorted_metrics r)) r0,
     [(Info, ''loaded '' @ show_nat (length (sorted_metrics r)) @ '' metrics from snapshot '' @ snap_path s)])"
proof -
  have safe: "\<forall>m \<in> set (sorted_metrics r). snapshot_safe m" using assms(2) by (simp add: list_all_iff)
  then have all: "\<forall>m \<in> set (sorted_metrics r). snapshot_safe m \<and> wf_metric m"
    using wf_registry_sorted [OF assms(1)] by blast
  show ?thesis
    using assms(3,4) load_saved_lines [OF all, of r0 0 "[]"]
    by (simp add: snapshot_load_def snapshot_text_lines [OF safe] load_header)
qed

lemma load_snapshot_find:
  assumes "wf_registry r" "list_all snapshot_safe (registry_list r)"
    and "snap_path s \<noteq> []" "fs (snap_path s) = Some (snapshot_text r)"
    and "registry_find r name = Some m"
  shows "registry_find (fst (snd (snapshot_load s fs r0))) name = Some (metric_of (snapshot_spec m))"
proof -
  have name: "metric_name m = name" "name \<noteq> []" using wf_registry_find [OF assms(1,5)] by simp_all
  then have mem: "m \<in> set (registry_list r)" using assms(5) registry_list_find [OF assms(1)] by simp
  obtain xs ys where s: "sorted_metrics r = xs @ m # ys" "\<forall>y \<in> set ys. metric_name m < metric_name y"
    using split_sorted_metrics [OF assms(1) mem] .
  have nm: "spec_name (snapshot_spec x) = metric_name x" for x by (simp add: snapshot_spec_def series_def)
  have last: "spec_name (snapshot_spec m) \<notin> spec_name ` set (map snapshot_spec ys)"
    using s(2) by (auto simp: nm)
  have acc: "accepted_spec (snapshot_spec m)" using name by (simp add: snapshot_spec_accepted)
  have "map snapshot_spec (sorted_metrics r) = map snapshot_spec xs @ snapshot_spec m # map snapshot_spec ys"
    by (simp add: s(1))
  from registry.store_all_last [OF this acc last] show ?thesis
    by (simp add: load_snapshot_text [of r s fs, OF assms(1-4)] nm name(1))
qed

lemma metric_of_snapshot_scalar:
  assumes "metric_type m \<noteq> Histogram" "wf_metric m"
  shows "metric_ident (metric_of (snapshot_spec m)) = metric_ident m \<and>
    metric_value (metric_of (snapshot_spec m)) = reread_value (metric_value m)"
  using assms reread_nonneg [of "metric_value m"]
  by (cases m) (simp_all add: metric_of_def makeMetric_def snapshot_spec_def series_def CounterMetric_new_def
      GaugeMetric_new_def metric_ident_def parseMetricType_toString [of Counter, simplified])

lemma metric_of_snapshot_histogram:
  "metric_of (snapshot_spec (HistogramObj h)) =
     HistogramObj (HistogramMetric_new (snapshot_spec (HistogramObj h)) defaultHistogramBounds)"
  by (simp add: metric_of_def makeMetric_def snapshot_spec_def series_def
      parseMetricType_toString [of Histogram, simplified])

subsection \<open>The registry stays well formed\<close>

lemma snapshot_fields_wf:
  "snapshot_fields rest spec have_value = Inr (spec', hv) \<Longrightarrow> wf_spec spec \<Longrightarrow> wf_spec spec'"
proof (induction rest spec have_value rule: snapshot_fields.induct)
  case (1 rest spec have_value)
  note IH = "1.IH" [OF refl]
  have wf: "wf_spec (spec\<lparr>spec_help := h\<rparr>)" "wf_spec (spec\<lparr>spec_labels := h\<rparr>)"
      "wf_double v \<Longrightarrow> wf_spec (spec\<lparr>spec_value := v\<rparr>)" for h v
    using "1.prems"(2) by (simp_all add: wf_spec_def)
  show ?case
    using "1.prems"(1) "1.prems"(2)
    by (subst (asm) snapshot_fields.simps)
      (auto simp: Let_def wf stod_wf IH split: if_splits sum.splits simp del: dropWhile_eq_Nil_conv)
qed

lemma parseSnapshotLine_wf: "parseSnapshotLine line = Inr spec \<Longrightarrow> wf_spec spec"
proof -
  assume p: "parseSnapshotLine line = Inr spec"
  then obtain name type r hv where f: "snapshot_fields r (empty_spec\<lparr>spec_name := name, spec_type := type\<rparr>) False = Inr (spec, hv)"
    by (auto simp: parseSnapshotLine_def split: option.splits prod.splits sum.splits if_splits)
  have "wf_spec (empty_spec\<lparr>spec_name := name, spec_type := type\<rparr>)" by (simp add: wf_spec_def empty_spec_def)
  from snapshot_fields_wf [OF f this] show ?thesis .
qed

lemma load_line_wf: "wf_registry (fst st) \<Longrightarrow> wf_registry (fst (load_line raw st))"
  by (cases st) (auto simp: load_line_def Let_def case_prod_beta intro!: wf_upsert dest: parseSnapshotLine_wf
      split: sum.splits)

lemma snapshot_load_wf: "wf_registry r \<Longrightarrow> wf_registry (fst (snd (snapshot_load s fs r)))"
proof -
  assume r: "wf_registry r"
  have "wf_registry (fst (fold load_line ls st))" if "wf_registry (fst st)" for ls st
    using that by (induction ls arbitrary: st) (simp_all add: load_line_wf)
  with r show ?thesis
    by (auto simp: snapshot_load_def case_prod_beta split: option.splits)
qed

subsection \<open>Properties\<close>

text \<open>Save and load: after a successful save, loading the file into any registry succeeds and puts
  back every counter and gauge of the saved one under its name, with the same type, help and
  labels and with the value that six significant digits can carry.\<close>

lemma snapshot_restores_scalars:
  assumes "wf_registry r" "list_all snapshot_safe (registry_list r)" "snap_path s \<noteq> []"
    and "registry_find r name = Some m" "metric_type m \<noteq> Histogram"
  shows "\<exists>m'. registry_find (fst (snd (snapshot_load s (fst (snd (snapshot_save s Save_Succeeds r fs))) r0))) name = Some m' \<and>
    metric_ident m' = metric_ident m \<and> metric_value m' = reread_value (metric_value m)"
proof -
  have fs: "fst (snd (snapshot_save s Save_Succeeds r fs)) (snap_path s) = Some (snapshot_text r)"
    using assms(3) by (simp add: snapshot_save_def Let_def)
  show ?thesis
    using load_snapshot_find [of r s "fst (snd (snapshot_save s Save_Succeeds r fs))", OF assms(1-3) fs assms(4)] metric_of_snapshot_scalar [OF assms(5)]
      wf_registry_find [OF assms(1,4)] by auto
qed

text \<open>A snapshot does not keep histograms: whatever a histogram had counted, it loads as an empty
  histogram over the default buckets, with its own bounds, counts and sum gone.\<close>

lemma snapshot_drops_histograms:
  assumes "wf_registry r" "list_all snapshot_safe (registry_list r)" "snap_path s \<noteq> []"
    and "registry_find r name = Some (HistogramObj h)"
  shows "\<exists>h'. registry_find (fst (snd (snapshot_load s (fst (snd (snapshot_save s Save_Succeeds r fs))) r0))) name =
      Some (HistogramObj h') \<and> h_count h' = 0 \<and> h_sum h' = dzero \<and>
      h_bounds h' = std_unique (std_sort defaultHistogramBounds) \<and> list_all (\<lambda>n. n = 0) (h_counts h')"
proof -
  have fs: "fst (snd (snapshot_save s Save_Succeeds r fs)) (snap_path s) = Some (snapshot_text r)"
    using assms(3) by (simp add: snapshot_save_def Let_def)
  show ?thesis
    using load_snapshot_find [of r s "fst (snd (snapshot_save s Save_Succeeds r fs))", OF assms(1-3) fs assms(4)]
    by (simp add: metric_of_snapshot_histogram HistogramMetric_new_def list_all_iff Let_def)
qed

end
