(* ===== verification/Config.thy ===== *)
theory Config
  imports Registry Field_Scanner Logger Net
begin

section \<open>Configuration (config.hpp, config.cpp)\<close>

text \<open>
  \<^verbatim>\<open>MetricConfig\<close> and its parser: the lines \<^verbatim>\<open>metric = ...\<close> and \<^verbatim>\<open>scrape_target = ...\<close>,
  the scalar settings, and the validation. A conversion outside a \<^verbatim>\<open>try\<close> block throws out of
  \<^verbatim>\<open>loadFromFile\<close>; the model returns the exception, with no configuration.
\<close>

subsection \<open>Words and lists\<close>

definition parseBool :: "string \<Rightarrow> bool" where
  "parseBool value =
     (let lower = lowerCopy value
      in lower = ''1'' \<or> lower = ''true'' \<or> lower = ''yes'' \<or> lower = ''on'')"

definition splitList :: "string \<Rightarrow> string list" where
  "splitList value = filter (\<lambda>t. t \<noteq> []) (map trim (getlines CHR '','' value))"

subsection \<open>Metric lines\<close>

abbreviation config_help_keys :: "string list" where
  "config_help_keys \<equiv> [''labels='', ''value='', ''buckets='']"

text \<open>The bounds of a \<^verbatim>\<open>buckets=\<close> field: the tokens between commas, each a number.\<close>

fun parse_bounds :: "string list \<Rightarrow> double list option" where
  "parse_bounds [] = Some []"
| "parse_bounds (t # ts) =
     (if trim t = [] then parse_bounds ts
      else case stod (trim t) of
        Inl e \<Rightarrow> None
      | Inr v \<Rightarrow> (case parse_bounds ts of None \<Rightarrow> None | Some vs \<Rightarrow> Some (v # vs)))"

function metric_fields :: "string \<Rightarrow> MetricSpec \<Rightarrow> string + MetricSpec" where
  "metric_fields rest spec =
     (let s = dropWhile isspace rest
      in if s = [] then Inr spec
         else if starts_with ''help='' s then
           metric_fields (snd (scan_help config_help_keys False (drop 5 s)))
             (spec\<lparr>spec_help := trim (fst (scan_help config_help_keys False (drop 5 s)))\<rparr>)
         else if starts_with ''labels='' s then
           metric_fields (after_word (drop 7 s)) (spec\<lparr>spec_labels := word_of (drop 7 s)\<rparr>)
         else if starts_with ''buckets='' s then
           (case parse_bounds (getlines CHR '','' (word_of (drop 8 s))) of
              None \<Rightarrow> Inl ''invalid buckets=''
            | Some bounds \<Rightarrow>
                if bounds = [] then Inl ''buckets= requires at least one bound''
                else metric_fields (after_word (drop 8 s)) (spec\<lparr>spec_buckets := bounds\<rparr>))
         else if starts_with ''value='' s then
           (case stod (word_of (drop 6 s)) of
              Inl e \<Rightarrow> Inl ''invalid value=''
            | Inr v \<Rightarrow> metric_fields (after_word (drop 6 s)) (spec\<lparr>spec_value := v\<rparr>))
         else
           (case stod (word_of s) of
              Inl e \<Rightarrow> Inl ''metric trailing field must be a number or help=/labels=/value=/buckets=''
            | Inr v \<Rightarrow> metric_fields (after_word s) (spec\<lparr>spec_value := v\<rparr>)))"
  by pat_completeness auto

termination
  by (relation "measure (\<lambda>(rest, spec). length rest)")
    (auto intro: length_drop_word length_drop_help length_plain_word simp del: dropWhile_eq_Nil_conv)

declare metric_fields.simps [simp del]

definition parseMetricLine :: "string \<Rightarrow> string + MetricSpec" where
  "parseMetricLine value =
     (case next_token value of
        None \<Rightarrow> Inl ''metric needs name and type''
      | Some (name, r) \<Rightarrow>
          (case next_token r of
             None \<Rightarrow> Inl ''metric needs name and type''
           | Some (type, r') \<Rightarrow>
               (case metric_fields (trim r') (empty_spec\<lparr>spec_name := name, spec_type := type\<rparr>) of
                  Inl e \<Rightarrow> Inl e
                | Inr spec \<Rightarrow>
                    if spec_name spec = [] \<or> parseMetricType (spec_type spec) = Unknown
                    then Inl (''unknown metric type: '' @ spec_type spec)
                    else Inr spec)))"

subsection \<open>Scrape targets\<close>

record ScrapeTarget =
  target_host :: string
  target_port :: port_t
  target_path :: string
  target_interval_sec :: int
  target_timeout_sec :: int

definition ScrapeTarget_new :: ScrapeTarget where
  "ScrapeTarget_new = \<lparr>target_host = [], target_port = 80, target_path = ''/metrics'', target_interval_sec = 15, target_timeout_sec = 5\<rparr>"

text \<open>The loop over \<^verbatim>\<open>interval=\<close> and \<^verbatim>\<open>timeout=\<close>; the fuel is the length of the text, of which
  every token takes at least one byte.\<close>

fun target_fields :: "nat \<Rightarrow> string \<Rightarrow> ScrapeTarget \<Rightarrow> string + ScrapeTarget" where
  "target_fields 0 r target = Inr target"
| "target_fields (Suc fuel) r target =
     (case next_token r of
        None \<Rightarrow> Inr target
      | Some (token, r') \<Rightarrow>
          if starts_with ''interval='' token then
            (case stoi (drop 9 token) of
               Inl e \<Rightarrow> Inl ''invalid interval=''
             | Inr n \<Rightarrow> target_fields fuel r' (target\<lparr>target_interval_sec := n\<rparr>))
          else if starts_with ''timeout='' token then
            (case stoi (drop 8 token) of
               Inl e \<Rightarrow> Inl ''invalid timeout=''
             | Inr n \<Rightarrow> target_fields fuel r' (target\<lparr>target_timeout_sec := n\<rparr>))
          else Inl (''unknown scrape_target field: '' @ token))"

text \<open>The outer sum is the exception \<^verbatim>\<open>std::stoi\<close> may throw out of \<^verbatim>\<open>parseHostPort\<close>.\<close>

definition parseScrapeTargetLine :: "string \<Rightarrow> std_exn + (string + ScrapeTarget)" where
  "parseScrapeTargetLine value =
     (case next_token value of
        None \<Rightarrow> Inr (Inl ''scrape_target needs host:port[/path]'')
      | Some (endpoint, r) \<Rightarrow>
          (let (hostport, p_path) =
             (case split_at CHR ''/'' endpoint of
                Some (hp, p) \<Rightarrow> (hp, CHR ''/'' # p)
              | None \<Rightarrow> (endpoint, ''/metrics''))
           in case parseHostPort hostport 80 of
                Inl e \<Rightarrow> Inl e
              | Inr (ok, h, p) \<Rightarrow>
                  if \<not> ok \<or> h = [] then Inr (Inl ''invalid scrape_target host:port'')
                  else case target_fields (length r) r (ScrapeTarget_new\<lparr>target_path := p_path, target_host := h, target_port := p\<rparr>) of
                    Inl e \<Rightarrow> Inr (Inl e)
                  | Inr target \<Rightarrow>
                      Inr (if target_interval_sec target \<le> 0 then Inl ''scrape_target interval must be > 0''
                           else if target_timeout_sec target \<le> 0 then Inl ''scrape_target timeout must be > 0''
                           else Inr target)))"

subsection \<open>The configuration\<close>

record MetricConfig =
  listen_address :: string
  listen_port :: port_t
  log_file :: string
  log_level :: string
  foreground :: bool
  config_metrics :: "MetricSpec list"
  metric_errors :: "string list"
  scrape_targets :: "ScrapeTarget list"
  scrape_errors :: "string list"
  snapshot_file :: string
  snapshot_interval_sec :: int
  tls_cert_file :: string
  tls_key_file :: string
  tls_ca_file :: string
  allow_ips :: "string list"
  deny_ips :: "string list"
  auth_user :: string
  auth_password :: string
  cfg_public_healthz :: bool
  rate_limit_per_minute :: "32 word"
  run_as_user :: string

definition MetricConfig_new :: MetricConfig where
  "MetricConfig_new =
     \<lparr>listen_address = ''0.0.0.0'', listen_port = 19100, log_file = [], log_level = ''info'', foreground = True,
      config_metrics = [], metric_errors = [], scrape_targets = [], scrape_errors = [],
      snapshot_file = [], snapshot_interval_sec = 60, tls_cert_file = [], tls_key_file = [], tls_ca_file = [],
      allow_ips = [], deny_ips = [], auth_user = [], auth_password = [], cfg_public_healthz = True,
      rate_limit_per_minute = 0, run_as_user = []\<rparr>"

definition tls_enabled :: "MetricConfig \<Rightarrow> bool" where
  "tls_enabled c \<longleftrightarrow> tls_cert_file c \<noteq> [] \<and> tls_key_file c \<noteq> []"

text \<open>One setting. Integers outside a \<^verbatim>\<open>try\<close> block throw; ports and limits are truncated.\<close>

definition apply_setting :: "string \<Rightarrow> string \<Rightarrow> MetricConfig \<Rightarrow> std_exn + MetricConfig" where
  "apply_setting key value c =
     (if key = ''listen_address'' then Inr (c\<lparr>listen_address := value\<rparr>)
      else if key = ''listen_port'' then
        (case stoi value of Inl e \<Rightarrow> Inl e | Inr n \<Rightarrow> Inr (c\<lparr>listen_port := word_of_int n\<rparr>))
      else if key = ''log_file'' then Inr (c\<lparr>log_file := value\<rparr>)
      else if key = ''log_level'' then Inr (c\<lparr>log_level := value\<rparr>)
      else if key = ''foreground'' then Inr (c\<lparr>foreground := parseBool value\<rparr>)
      else if key = ''tls_cert_file'' \<or> key = ''tls_cert'' then Inr (c\<lparr>tls_cert_file := value\<rparr>)
      else if key = ''tls_key_file'' \<or> key = ''tls_key'' then Inr (c\<lparr>tls_key_file := value\<rparr>)
      else if key = ''tls_ca_file'' \<or> key = ''tls_ca'' then Inr (c\<lparr>tls_ca_file := value\<rparr>)
      else if key = ''allow_ip'' \<or> key = ''allow_ips'' then Inr (c\<lparr>allow_ips := splitList value\<rparr>)
      else if key = ''deny_ip'' \<or> key = ''deny_ips'' then Inr (c\<lparr>deny_ips := splitList value\<rparr>)
      else if key = ''auth_user'' then Inr (c\<lparr>auth_user := value\<rparr>)
      else if key = ''auth_password'' then Inr (c\<lparr>auth_password := value\<rparr>)
      else if key = ''public_healthz'' then Inr (c\<lparr>cfg_public_healthz := parseBool value\<rparr>)
      else if key = ''rate_limit_per_minute'' \<or> key = ''api_rate_limit'' then
        (case stoul value of Inl e \<Rightarrow> Inl e | Inr n \<Rightarrow> Inr (c\<lparr>rate_limit_per_minute := ucast n\<rparr>))
      else if key = ''run_as_user'' \<or> key = ''user'' then Inr (c\<lparr>run_as_user := value\<rparr>)
      else if key = ''metric'' then
        (case parseMetricLine value of
           Inl e \<Rightarrow> Inr (c\<lparr>metric_errors := metric_errors c @ [if e = [] then ''invalid metric'' else e]\<rparr>)
         | Inr spec \<Rightarrow> Inr (c\<lparr>config_metrics := config_metrics c @ [spec]\<rparr>))
      else if key = ''scrape_target'' then
        (case parseScrapeTargetLine value of
           Inl e \<Rightarrow> Inl e
         | Inr (Inl e) \<Rightarrow> Inr (c\<lparr>scrape_errors := scrape_errors c @ [if e = [] then ''invalid scrape_target'' else e]\<rparr>)
         | Inr (Inr target) \<Rightarrow> Inr (c\<lparr>scrape_targets := scrape_targets c @ [target]\<rparr>))
      else if key = ''snapshot_file'' then Inr (c\<lparr>snapshot_file := value\<rparr>)
      else if key = ''snapshot_interval'' then
        (case stoi value of
           Inl e \<Rightarrow> Inr (c\<lparr>scrape_errors := scrape_errors c @ [''invalid snapshot_interval'']\<rparr>)
         | Inr n \<Rightarrow> Inr (c\<lparr>snapshot_interval_sec := n\<rparr>))
      else Inr c)"

text \<open>One line: its comment is cut, and a line without an equals sign is skipped.\<close>

definition setting_of :: "string \<Rightarrow> (string \<times> string) option" where
  "setting_of raw =
     (let line = trim (takeWhile (\<lambda>c. c \<noteq> CHR ''#'') raw)
      in if line = [] then None
         else case split_at CHR ''='' line of
           None \<Rightarrow> None
         | Some (k, v) \<Rightarrow> Some (trim k, trim v))"

fun load_lines :: "string list \<Rightarrow> MetricConfig \<Rightarrow> std_exn + MetricConfig" where
  "load_lines [] c = Inr c"
| "load_lines (raw # rest) c =
     (case setting_of raw of
        None \<Rightarrow> load_lines rest c
      | Some (key, value) \<Rightarrow>
          (case apply_setting key value c of Inl e \<Rightarrow> Inl e | Inr c' \<Rightarrow> load_lines rest c'))"

text \<open>A file that cannot be opened is no error but the answer \<open>False\<close>.\<close>

definition loadFromFile :: "string option \<Rightarrow> MetricConfig \<Rightarrow> std_exn + bool \<times> MetricConfig" where
  "loadFromFile contents c =
     (case contents of
        None \<Rightarrow> Inr (False, c)
      | Some txt_in \<Rightarrow> (case load_lines (text_lines txt_in) c of Inl e \<Rightarrow> Inl e | Inr c' \<Rightarrow> Inr (True, c')))"

definition validateDetailed :: "MetricConfig \<Rightarrow> bool \<times> string list" where
  "validateDetailed c =
     (let errors =
        (if listen_address c = [] then [''listen_address is required''] else []) @
        (if parseLogLevel (log_level c) = None
         then [''log_level must be debug, info, warning, error, or fatal''] else []) @
        metric_errors c @ scrape_errors c @
        (if snapshot_interval_sec c \<le> 0 \<and> snapshot_file c \<noteq> []
         then [''snapshot_interval must be > 0 when snapshot_file is set''] else []) @
        (if (tls_cert_file c = []) \<noteq> (tls_key_file c = [])
         then [''tls_cert_file and tls_key_file must both be set''] else []) @
        (if auth_user c \<noteq> [] \<and> auth_password c = []
         then [''auth_password is required when auth_user is set''] else [])
      in (errors = [], errors))"

definition validate :: "MetricConfig \<Rightarrow> bool" where
  "validate c = fst (validateDetailed c)"

subsection \<open>What a number may be\<close>

lemma scan_sign_digits: "s \<noteq> [] \<Longrightarrow> isdigit (hd s) \<Longrightarrow> scan_sign s = (False, s)"
  by (cases s) (auto simp: scan_sign_def isdigit_def)

lemma c_str_digits: "\<forall>c \<in> set s. isdigit c \<Longrightarrow> c_str s = s"
  by (auto simp: c_str_def takeWhile_eq_all_conv isdigit_def)

lemma stoi_show_nat:
  assumes "n < 2 ^ 31"
  shows "stoi (show_nat n) = Inr (int n)"
proof -
  have dig: "\<forall>c \<in> set (show_nat n). isdigit c" using show_nat_digits by blast
  then have hd: "isdigit (hd (show_nat n))" using show_nat_not_Nil hd_in_set by blast
  then have "dropWhile isspace (show_nat n) = show_nat n" by (intro dropWhile_id) simp
  then show ?thesis
    using assms scan_sign_digits [OF show_nat_not_Nil hd] dig
    by (simp add: stoi_def c_str_digits takeWhile_digits Let_def)
qed

lemma parse_bounds_wf: "parse_bounds ts = Some bs \<Longrightarrow> list_all wf_double bs"
  by (induction ts arbitrary: bs) (auto split: if_splits sum.splits option.splits dest: stod_wf)

lemma metric_fields_wf:
  "metric_fields rest spec = Inr spec' \<Longrightarrow> wf_spec spec \<Longrightarrow>
     wf_spec spec' \<and> spec_name spec' = spec_name spec \<and> spec_type spec' = spec_type spec"
proof (induction rest spec rule: metric_fields.induct)
  case (1 rest spec)
  note IH = "1.IH" [OF refl]
  have wf: "wf_spec (spec\<lparr>spec_help := h\<rparr>)" "wf_spec (spec\<lparr>spec_labels := h\<rparr>)"
      "wf_double v \<Longrightarrow> wf_spec (spec\<lparr>spec_value := v\<rparr>)" "list_all wf_double bs \<Longrightarrow> wf_spec (spec\<lparr>spec_buckets := bs\<rparr>)" for h v bs
    using "1.prems"(2) by (simp_all add: wf_spec_def)
  show ?case
    using "1.prems"(1) "1.prems"(2)
    by (subst (asm) metric_fields.simps)
      (auto simp: Let_def wf stod_wf parse_bounds_wf IH split: if_splits sum.splits option.splits
        simp del: dropWhile_eq_Nil_conv)
qed

lemma parseMetricLine_sound: "parseMetricLine value = Inr spec \<Longrightarrow> accepted_spec spec \<and> wf_spec spec"
proof -
  assume p: "parseMetricLine value = Inr spec"
  then obtain name type r where f: "metric_fields r (empty_spec\<lparr>spec_name := name, spec_type := type\<rparr>) = Inr spec"
    and a: "spec_name spec \<noteq> []" "parseMetricType (spec_type spec) \<noteq> Unknown"
    by (auto simp: parseMetricLine_def split: option.splits prod.splits sum.splits if_splits)
  have "wf_spec (empty_spec\<lparr>spec_name := name, spec_type := type\<rparr>)" by (simp add: wf_spec_def empty_spec_def)
  from metric_fields_wf [OF f this] a show ?thesis by (simp add: accepted_spec_def)
qed

subsection \<open>Scrape targets\<close>

definition sound_target :: "ScrapeTarget \<Rightarrow> bool" where
  "sound_target t \<longleftrightarrow> target_host t \<noteq> [] \<and> 0 < target_interval_sec t \<and> 0 < target_timeout_sec t \<and>
     (\<exists>p. target_path t = CHR ''/'' # p)"

lemma target_fields_frame:
  "target_fields fuel r target = Inr target' \<Longrightarrow>
     target_host target' = target_host target \<and> target_port target' = target_port target \<and>
     target_path target' = target_path target"
  by (induction fuel r target rule: target_fields.induct)
    (auto split: option.splits prod.splits sum.splits if_splits)

text \<open>The fuel is enough: more changes nothing.\<close>

lemma target_fields_fuel:
  "length r \<le> fuel \<Longrightarrow> length r \<le> fuel' \<Longrightarrow> target_fields fuel r target = target_fields fuel' r target"
proof (induction fuel arbitrary: r target fuel')
  case 0
  then show ?case by (cases fuel') (simp_all add: next_token_def)
next
  case (Suc fuel)
  show ?case
  proof (cases "next_token r")
    case None
    then show ?thesis by (cases fuel') simp_all
  next
    case (Some wr)
    obtain w r' where wr: "wr = (w, r')" by fastforce
    have less: "length r' < length r" using next_token_SomeD(3) [of r w r'] Some wr by simp
    then obtain fuel1 where f: "fuel' = Suc fuel1" using Suc.prems(2) by (cases fuel') auto
    have l: "length r' \<le> fuel" "length r' \<le> fuel1" using less Suc.prems f by simp_all
    show ?thesis by (simp only: target_fields.simps f Some wr option.case prod.case Suc.IH [OF l])
  qed
qed

lemma parseScrapeTargetLine_sound:
  assumes "parseScrapeTargetLine value = Inr (Inr t)"
  shows "sound_target t"
proof -
  obtain endpoint r where tok: "next_token value = Some (endpoint, r)"
    using assms by (auto simp: parseScrapeTargetLine_def split: option.splits)
  obtain hostport p_path where hpp: "(case split_at CHR ''/'' endpoint of Some (hp, p) \<Rightarrow> (hp, CHR ''/'' # p)
      | None \<Rightarrow> (endpoint, ''/metrics'')) = (hostport, p_path)" by fastforce
  then have path: "\<exists>p. p_path = CHR ''/'' # p" by (auto split: option.splits prod.splits)
  define start where "start h p = ScrapeTarget_new\<lparr>target_path := p_path, target_host := h, target_port := p\<rparr>" for h p
  have eq: "parseScrapeTargetLine value =
     (case parseHostPort hostport 80 of
        Inl e \<Rightarrow> Inl e
      | Inr (ok, h, p) \<Rightarrow>
          if \<not> ok \<or> h = [] then Inr (Inl ''invalid scrape_target host:port'')
          else case target_fields (length r) r (start h p) of
            Inl e \<Rightarrow> Inr (Inl e)
          | Inr target \<Rightarrow>
              Inr (if target_interval_sec target \<le> 0 then Inl ''scrape_target interval must be > 0''
                   else if target_timeout_sec target \<le> 0 then Inl ''scrape_target timeout must be > 0''
                   else Inr target))"
    by (simp only: parseScrapeTargetLine_def tok option.case prod.case hpp start_def Let_def)
  obtain ok h p where hp: "parseHostPort hostport 80 = Inr (ok, h, p)" "h \<noteq> []"
    using assms unfolding eq by (cases "parseHostPort hostport 80") (auto split: if_splits)
  obtain t' where f: "target_fields (length r) r (start h p) = Inr t'"
    using assms unfolding eq hp(1) by (cases "target_fields (length r) r (start h p)") (auto split: if_splits)
  have pos: "t' = t" "0 < target_interval_sec t" "0 < target_timeout_sec t"
    using assms unfolding eq hp(1) by (auto simp: f split: if_splits)
  from target_fields_frame [OF f] pos path hp(2) show ?thesis by (simp add: sound_target_def start_def)
qed

subsection \<open>Loaded configurations\<close>

definition sound_config :: "MetricConfig \<Rightarrow> bool" where
  "sound_config c \<longleftrightarrow> list_all (\<lambda>s. accepted_spec s \<and> wf_spec s) (config_metrics c) \<and>
     list_all sound_target (scrape_targets c)"

lemma sound_config_new [simp]: "sound_config MetricConfig_new"
  by (simp add: sound_config_def MetricConfig_new_def)

text \<open>Each branch of the chain of keys is looked at alone.\<close>

lemma if_branches: "(b \<Longrightarrow> Q x) \<Longrightarrow> Q y \<Longrightarrow> Q (if b then x else y)"
  by simp

lemma apply_setting_sound:
  assumes "sound_config c"
  shows "case apply_setting key value c of Inl e \<Rightarrow> True | Inr c' \<Rightarrow> sound_config c'"
  unfolding apply_setting_def
  using assms parseMetricLine_sound [of "value"] parseScrapeTargetLine_sound [of "value"]
  by (intro if_branches [where Q = "case_sum (\<lambda>e. True) sound_config"])
    (simp_all add: sound_config_def split: sum.splits)

lemma load_lines_sound: "load_lines ls c = Inr c' \<Longrightarrow> sound_config c \<Longrightarrow> sound_config c'"
proof (induction ls arbitrary: c)
  case (Cons raw rest)
  show ?case
  proof (cases "setting_of raw")
    case (Some kv)
    then show ?thesis
      using Cons apply_setting_sound [OF Cons.prems(2), of "fst kv" "snd kv"]
      by (auto simp: case_prod_beta split: sum.splits)
  qed (use Cons in simp)
qed simp

text \<open>What the metric lines of a file contribute.\<close>

definition metric_lines_of :: "string list \<Rightarrow> (string + MetricSpec) list" where
  "metric_lines_of ls =
     concat (map (\<lambda>l. case setting_of l of
       Some (k, v) \<Rightarrow> if k = ''metric'' then [parseMetricLine v] else [] | None \<Rightarrow> []) ls)"

definition rights :: "('a + 'b) list \<Rightarrow> 'b list" where
  "rights xs = concat (map (\<lambda>x. case x of Inl a \<Rightarrow> [] | Inr b \<Rightarrow> [b]) xs)"

definition lefts :: "('a + 'b) list \<Rightarrow> 'a list" where
  "lefts xs = concat (map (\<lambda>x. case x of Inl a \<Rightarrow> [a] | Inr b \<Rightarrow> []) xs)"

lemma metric_fields_error: "metric_fields rest spec = Inl e \<Longrightarrow> e \<noteq> []"
proof (induction rest spec rule: metric_fields.induct)
  case (1 rest spec)
  note IH = "1.IH" [OF refl]
  show ?case
    using "1.prems"
    by (subst (asm) metric_fields.simps)
      (auto simp: Let_def IH split: if_splits sum.splits option.splits simp del: dropWhile_eq_Nil_conv)
qed

lemma metric_error_nonempty: "parseMetricLine v = Inl e \<Longrightarrow> e \<noteq> []"
  by (auto simp: parseMetricLine_def dest: metric_fields_error split: option.splits prod.splits sum.splits if_splits)

lemma apply_setting_metrics:
  "case apply_setting key v c of
     Inl e \<Rightarrow> True
   | Inr c' \<Rightarrow>
       config_metrics c' = config_metrics c @ (if key = ''metric'' then rights [parseMetricLine v] else []) \<and>
       metric_errors c' = metric_errors c @ (if key = ''metric'' then lefts [parseMetricLine v] else [])"
proof (cases "key = ''metric''")
  case True
  then show ?thesis
    using metric_error_nonempty [of v]
    by (simp add: apply_setting_def rights_def lefts_def split: sum.splits)
next
  case False
  have "case_sum (\<lambda>e. True) (\<lambda>c'. config_metrics c' = config_metrics c \<and> metric_errors c' = metric_errors c)
      (apply_setting key v c)"
    unfolding apply_setting_def
    using False
    by (intro if_branches [where Q = "case_sum (\<lambda>e. True)
          (\<lambda>c'. config_metrics c' = config_metrics c \<and> metric_errors c' = metric_errors c)"])
      (simp_all split: sum.splits)
  with False show ?thesis by (simp split: sum.splits)
qed

lemma load_lines_metrics:
  "load_lines ls c = Inr c' \<Longrightarrow>
     config_metrics c' = config_metrics c @ rights (metric_lines_of ls) \<and>
     metric_errors c' = metric_errors c @ lefts (metric_lines_of ls)"
proof (induction ls arbitrary: c)
  case Nil
  then show ?case by (simp add: metric_lines_of_def rights_def lefts_def)
next
  case (Cons raw rest)
  show ?case
  proof (cases "setting_of raw")
    case None
    then show ?thesis using Cons by (simp add: metric_lines_of_def)
  next
    case (Some kv)
    obtain k v where kv: "kv = (k, v)" by fastforce
    obtain c1 where c1: "apply_setting k v c = Inr c1" "load_lines rest c1 = Inr c'"
      using Cons.prems Some kv by (auto split: sum.splits)
    show ?thesis
      using Cons.IH [OF c1(2)] apply_setting_metrics [where key = k and v = v and c = c] c1(1) Some kv
      by (simp add: metric_lines_of_def rights_def lefts_def)
  qed
qed

lemma load_lines_append:
  "load_lines (ls @ ls') c = (case load_lines ls c of Inl e \<Rightarrow> Inl e | Inr c' \<Rightarrow> load_lines ls' c')"
proof (induction ls arbitrary: c)
  case Nil
  then show ?case by simp
next
  case (Cons raw rest)
  show ?case
  proof (cases "setting_of raw")
    case None
    then show ?thesis by (simp add: Cons.IH)
  next
    case (Some kv)
    then show ?thesis
      by (cases kv; cases "apply_setting (fst kv) (snd kv) c") (simp_all add: Cons.IH)
  qed
qed

subsection \<open>Properties\<close>

text \<open>C30: Whatever a configuration file holds, what is loaded from it is sound: every metric has a name,
  a known type and numbers that are doubles, and every scrape target has a host, an absolute
  path, and a positive interval and timeout.\<close>

theorem loaded_config_sound:
  assumes "loadFromFile (Some contents) MetricConfig_new = Inr (ok, c)"
  shows "list_all (\<lambda>spec. spec_name spec \<noteq> [] \<and> parseMetricType (spec_type spec) \<noteq> Unknown \<and> wf_spec spec) (config_metrics c) \<and>
    list_all (\<lambda>t. target_host t \<noteq> [] \<and> (\<exists>p. target_path t = CHR ''/'' # p) \<and>
      0 < target_interval_sec t \<and> 0 < target_timeout_sec t) (scrape_targets c)"
proof -
  have "load_lines (text_lines contents) MetricConfig_new = Inr c"
    using assms by (auto simp: loadFromFile_def split: sum.splits)
  then have "sound_config c" using sound_config_new by (rule load_lines_sound)
  then show ?thesis
    unfolding sound_config_def sound_target_def accepted_spec_def list_all_iff by blast
qed

theorem loaded_config_sound_witness:
  "\<exists>c. loadFromFile (Some ''scrape_target = db:9100 interval=30'') MetricConfig_new = Inr (True, c) \<and>
     map target_interval_sec (scrape_targets c) = [30] \<and>
     list_all (\<lambda>t. 0 < target_timeout_sec t) (scrape_targets c)"
proof -
  have "setting_of ''scrape_target = db:9100 interval=30'' = Some (''scrape_target'', ''db:9100 interval=30'')"
    by (simp add: setting_of_def trim_def isspace_def)
  moreover have "parseScrapeTargetLine ''db:9100 interval=30'' =
      Inr (Inr \<lparr>target_host = ''db'', target_port = 9100, target_path = ''/metrics'', target_interval_sec = 30, target_timeout_sec = 5\<rparr>)"
    by code_simp
  ultimately have l: "loadFromFile (Some ''scrape_target = db:9100 interval=30'') MetricConfig_new =
      Inr (True, MetricConfig_new\<lparr>scrape_targets := [\<lparr>target_host = ''db'', target_port = 9100, target_path = ''/metrics'',
        target_interval_sec = 30, target_timeout_sec = 5\<rparr>]\<rparr>)"
    by (simp add: loadFromFile_def apply_setting_def MetricConfig_new_def)
  from loaded_config_sound [OF l] l show ?thesis by simp
qed

text \<open>The metric lines of a file are all accounted for, in order: each either adds its
  specification to the metrics or its message to the errors that validation reports, and nothing
  else touches the two lists.\<close>

lemma metric_lines_collected:
  assumes "loadFromFile (Some contents) c = Inr (ok, c')"
  shows "config_metrics c' = config_metrics c @ rights (metric_lines_of (text_lines contents)) \<and>
    metric_errors c' = metric_errors c @ lefts (metric_lines_of (text_lines contents)) \<and> ok"
  using assms load_lines_metrics [of "text_lines contents" c c']
  by (auto simp: loadFromFile_def split: sum.splits)

text \<open>A target written as \<open>host:port\<close> is read back exactly, for every host without a colon and
  every port; without a port the default is used.\<close>

lemma host_port_roundtrip:
  assumes "h \<noteq> []" "CHR '':'' \<notin> set h"
  shows "parseHostPort (h @ '':'' @ show_nat (unat p)) d = Inr (True, h, p) \<and> parseHostPort h d = Inr (True, h, d)"
proof -
  have dig: "CHR '':'' \<notin> set (show_nat n)" for n by (auto dest: show_nat_digits simp: isdigit_def)
  have filt: "filter (\<lambda>c. c = CHR '':'') s = []" if "CHR '':'' \<notin> set s" for s using that by (auto simp: filter_empty_conv)
  have c1: "count_colons (h @ '':'' @ show_nat (unat p)) = 1" "count_colons h = 0"
    using assms(2) dig by (simp_all add: count_colons_def filt)
  have "unat p < 2 ^ 16" using unsigned_less [of p, where ?'a = nat] by simp
  then have st: "stoi (show_nat (unat p)) = Inr (int (unat p))" by (intro stoi_show_nat) simp
  have sp: "split_at CHR '':'' (h @ '':'' @ show_nat (unat p)) = Some (h, show_nat (unat p))"
    using split_at_append [OF assms(2)] by simp
  show ?thesis
    using assms(1) c1 by (simp only: parseHostPort_def sp) (simp add: st)
qed

text \<open>Numbers of the configuration are not checked for their range: a listen port is taken modulo
  65536, and one that is no number ends the load with the exception of \<open>std::stoi\<close>, whatever the
  file holds after it.\<close>

lemma listen_port_wraps_or_throws:
  assumes "load_lines ls c = Inr c1" "setting_of raw = Some (''listen_port'', v)"
  shows "load_lines (ls @ raw # rest) c =
    (case stoi v of
       Inl e \<Rightarrow> Inl e
     | Inr n \<Rightarrow> load_lines rest (c1\<lparr>listen_port := word_of_int (n mod 65536)\<rparr>))"
proof -
  have "(word_of_int n :: port_t) = word_of_int (n mod 65536)" for n
    by (rule word_of_int_eq_iff [THEN iffD2]) (simp add: take_bit_eq_mod)
  then show ?thesis
    using assms by (simp add: load_lines_append apply_setting_def split: sum.splits)
qed

end
