(* ===== verification/Scheduler.thy ===== *)
theory Scheduler
  imports Prom_Text Config Transition
begin

section \<open>The scrape scheduler (scheduler.hpp, scheduler.cpp)\<close>

text \<open>
  \<^verbatim>\<open>ScrapeScheduler\<close> runs one dispatcher, which queues every target that is due and not in
  flight, and a pool of workers, which take targets from the queue and scrape them. The step
  relation interleaves the critical sections of the dispatcher, of the workers and of the caller
  of \<^verbatim>\<open>stop\<close>: a section that holds \<^verbatim>\<open>mutex_\<close> is one step, except that a worker whose wait
  predicate is false holds the mutex until it sleeps. A merge locks the registry for each sample, so the
  samples of several scrapes, and the calls of the HTTP server, interleave. The network, the clock
  and the order of steps are left open.
\<close>

subsection \<open>State\<close>

record TargetState =
  ts_target :: ScrapeTarget
  next_due :: time_point
  in_flight :: bool

text \<open>A worker is at its wait, has found its predicate false, sleeps, fetches a target, merges the
  samples it has read, is about to hand the target back, or has returned. The dispatcher is at its
  loop test, inside the loop, or not running.\<close>

datatype worker = At_Wait | Will_Sleep | Sleeping | Scraping nat | Merging nat "MetricSpec list" | Finishing nat | Returned

datatype dispatcher = Loop_Test | Loop_Body | Done

text \<open>The caller of \<^verbatim>\<open>stop\<close>: not called, has cleared the flag, has woken all and joins, is done.\<close>

datatype stopper = Not_Called | Flag_Cleared | Joining | Stopped

record Scheduler =
  targets :: "TargetState list"
  configured_workers :: nat
  queue :: "nat list"
  sch_running :: bool
  workers :: "worker list"
  dispatching :: dispatcher
  stopping :: stopper
  success_count :: "64 word"
  failure_count :: "64 word"
  sch_registry :: MetricRegistry

subsection \<open>Operations\<close>

definition TargetState_new :: "ScrapeTarget \<Rightarrow> time_point \<Rightarrow> TargetState" where
  "TargetState_new t now = \<lparr>ts_target = t, next_due = now, in_flight = False\<rparr>"

text \<open>The constructor, with the clock readings of its loop.\<close>

definition Scheduler_new :: "(ScrapeTarget \<times> time_point) list \<Rightarrow> MetricRegistry \<Rightarrow> nat \<Rightarrow> Scheduler" where
  "Scheduler_new ts registry worker_count =
     \<lparr>targets = map (\<lambda>(t, now). TargetState_new t now) ts, configured_workers = worker_count, queue = [],
      sch_running = False, workers = [], dispatching = Done, stopping = Not_Called, success_count = 0,
      failure_count = 0, sch_registry = registry\<rparr>"

definition successCount :: "Scheduler \<Rightarrow> 64 word" where
  "successCount s = success_count s"

definition failureCount :: "Scheduler \<Rightarrow> 64 word" where
  "failureCount s = failure_count s"

text \<open>The number of workers: \<open>hw\<close> is \<^verbatim>\<open>hardware_concurrency()\<close>.\<close>

definition pool_size :: "nat \<Rightarrow> nat \<Rightarrow> nat \<Rightarrow> nat" where
  "pool_size configured hw n_targets =
     max 1 (if configured = 0 then min n_targets (min (max 2 hw) 8) else configured)"

definition scheduler_start :: "nat \<Rightarrow> Scheduler \<Rightarrow> bool \<times> Scheduler" where
  "scheduler_start hw s =
     (if targets s = [] then (True, s)
      else if sch_running s then (True, s)
      else (True, s\<lparr>sch_running := True,
        workers := workers s @ replicate (pool_size (configured_workers s) hw (length (targets s))) At_Wait,
        dispatching := Loop_Test, stopping := Not_Called\<rparr>))"

text \<open>The body of the dispatcher's loop: the targets from index \<open>i\<close> on, and the indices queued.\<close>

fun dispatch :: "time_point \<Rightarrow> nat \<Rightarrow> TargetState list \<Rightarrow> TargetState list \<times> nat list" where
  "dispatch now i [] = ([], [])"
| "dispatch now i (t # ts) =
     (let (ts', q) = dispatch now (i + 1) ts
      in if in_flight t \<or> sint now < sint (next_due t) then (t # ts', q)
         else (t\<lparr>in_flight := True\<rparr> # ts', i # q))"

definition dispatch_turn :: "time_point \<Rightarrow> Scheduler \<Rightarrow> Scheduler" where
  "dispatch_turn now s =
     (let (ts, q) = dispatch now 0 (targets s)
      in s\<lparr>targets := ts, queue := queue s @ q, dispatching := Loop_Test\<rparr>)"

text \<open>The scrape of a target: the response decides which counter moves and what is merged.\<close>

definition target_text :: "ScrapeTarget \<Rightarrow> string" where
  "target_text t = target_host t @ '':'' @ show_nat (unat (target_port t)) @ target_path t"

definition show_int :: "int \<Rightarrow> string" where
  "show_int n = (if n < 0 then ''-'' @ show_nat (nat (- n)) else show_nat (nat n))"

record scrape_outcome =
  merged_registry :: MetricRegistry
  succeeded :: bool
  scrape_log :: log_messages

definition scrape :: "ScrapeTarget \<Rightarrow> HttpResponse \<Rightarrow> MetricRegistry \<Rightarrow> scrape_outcome" where
  "scrape t response registry =
     (if status response \<noteq> 200 then
        \<lparr>merged_registry = registry, succeeded = False,
         scrape_log = [(Warning, ''scrape failed '' @ target_text t @ '': '' @
           (if resp_error response = [] then ''HTTP '' @ show_int (status response) else resp_error response))]\<rparr>
      else
        case mergePrometheusText registry (body response) of
          (merged, registry', error) \<Rightarrow>
            if error \<noteq> [] then
              \<lparr>merged_registry = registry', succeeded = False,
               scrape_log = [(Warning, ''scrape merge error for '' @ target_text t @ '': '' @ error)]\<rparr>
            else
              \<lparr>merged_registry = registry', succeeded = True,
               scrape_log = [(Debug, ''scraped '' @ target_text t @ '' merged='' @ show_nat merged)]\<rparr>)"

definition scrape_timeout_ms :: "ScrapeTarget \<Rightarrow> int" where
  "scrape_timeout_ms t = max 1 (target_timeout_sec t) * 1000"

text \<open>The samples to merge, or nothing when the scrape counts as failed.\<close>

definition scrape_samples :: "HttpResponse \<Rightarrow> MetricSpec list option" where
  "scrape_samples response =
     (if status response \<noteq> 200 then None
      else case parsePrometheusText (body response) of
        (ok, specs, error) \<Rightarrow> if ok \<and> error = [] then Some specs else None)"

definition hand_back :: "nat \<Rightarrow> time_point \<Rightarrow> Scheduler \<Rightarrow> Scheduler" where
  "hand_back i now s =
     (let t = targets s ! i
      in s\<lparr>targets := (targets s)[i := t\<lparr>in_flight := False,
           next_due := now + word_of_int (max 1 (target_interval_sec (ts_target t)) * 1000000000)\<rparr>]\<rparr>)"

subsection \<open>Steps\<close>

text \<open>\<^verbatim>\<open>notify_all\<close> wakes the workers that sleep at that moment.\<close>

fun wake :: "worker \<Rightarrow> worker" where
  "wake Sleeping = At_Wait"
| "wake w = w"

definition mutex_free :: "Scheduler \<Rightarrow> bool" where
  "mutex_free s \<longleftrightarrow> Will_Sleep \<notin> set (workers s)"

definition set_worker :: "nat \<Rightarrow> worker \<Rightarrow> Scheduler \<Rightarrow> Scheduler" where
  "set_worker w x s = s\<lparr>workers := (workers s)[w := x]\<rparr>"

definition worker_at :: "Scheduler \<Rightarrow> nat \<Rightarrow> worker \<Rightarrow> bool" where
  "worker_at s w x \<longleftrightarrow> w < length (workers s) \<and> workers s ! w = x"

inductive sched_step :: "Scheduler \<Rightarrow> Scheduler \<Rightarrow> bool" where
  enter_loop: "dispatching s = Loop_Test \<Longrightarrow> sch_running s \<Longrightarrow> sched_step s (s\<lparr>dispatching := Loop_Body\<rparr>)"
| leave_loop: "dispatching s = Loop_Test \<Longrightarrow> \<not> sch_running s \<Longrightarrow>
    sched_step s (s\<lparr>dispatching := Done, workers := map wake (workers s)\<rparr>)"
| dispatch_due: "dispatching s = Loop_Body \<Longrightarrow> mutex_free s \<Longrightarrow>
    sched_step s ((dispatch_turn now s)\<lparr>workers := map wake (workers s)\<rparr>)"
| take_target: "worker_at s w At_Wait \<Longrightarrow> mutex_free s \<Longrightarrow> queue s = i # q \<Longrightarrow>
    sched_step s (set_worker w (Scraping i) (s\<lparr>queue := q\<rparr>))"
| give_up: "worker_at s w At_Wait \<Longrightarrow> mutex_free s \<Longrightarrow> queue s = [] \<Longrightarrow> \<not> sch_running s \<Longrightarrow>
    sched_step s (set_worker w Returned s)"
| predicate_false: "worker_at s w At_Wait \<Longrightarrow> mutex_free s \<Longrightarrow> queue s = [] \<Longrightarrow> sch_running s \<Longrightarrow>
    sched_step s (set_worker w Will_Sleep s)"
| fall_asleep: "worker_at s w Will_Sleep \<Longrightarrow> sched_step s (set_worker w Sleeping s)"
| scrape_fails: "worker_at s w (Scraping i) \<Longrightarrow> scrape_samples response = None \<Longrightarrow>
    sched_step s (set_worker w (Finishing i) (s\<lparr>failure_count := failure_count s + 1\<rparr>))"
| scrape_reads: "worker_at s w (Scraping i) \<Longrightarrow> scrape_samples response = Some specs \<Longrightarrow>
    sched_step s (set_worker w (Merging i specs) s)"
| merge_sample: "worker_at s w (Merging i (spec # specs)) \<Longrightarrow>
    sched_step s (set_worker w (Merging i specs) (s\<lparr>sch_registry := snd (upsert (sch_registry s) spec)\<rparr>))"
| merge_done: "worker_at s w (Merging i []) \<Longrightarrow>
    sched_step s (set_worker w (Finishing i) (s\<lparr>success_count := success_count s + 1\<rparr>))"
| finish_target: "worker_at s w (Finishing i) \<Longrightarrow> mutex_free s \<Longrightarrow>
    sched_step s (set_worker w At_Wait (hand_back i now s))"
| clear_flag: "stopping s = Not_Called \<Longrightarrow> sched_step s (s\<lparr>sch_running := False, stopping := Flag_Cleared\<rparr>)"
| notify: "stopping s = Flag_Cleared \<Longrightarrow>
    sched_step s (s\<lparr>stopping := Joining, workers := map wake (workers s)\<rparr>)"
| joined: "stopping s = Joining \<Longrightarrow> dispatching s = Done \<Longrightarrow> set (workers s) \<subseteq> {Returned} \<Longrightarrow>
    sched_step s (s\<lparr>stopping := Stopped, workers := [], queue := []\<rparr>)"

inductive_cases sched_stepE: "sched_step s t"

text \<open>A step of the process: one of the scheduler, or a call on the shared registry by another
  thread, which leaves everything else alone.\<close>

inductive process_step :: "Scheduler \<Rightarrow> Scheduler \<Rightarrow> bool" where
  own_step: "sched_step s t \<Longrightarrow> process_step s t"
| registry_call: "wf_op op \<Longrightarrow> process_step s (s\<lparr>sch_registry := snd (registry_apply (sch_registry s) op)\<rparr>)"

text \<open>The state after the first \<^verbatim>\<open>start\<close> with at least one target.\<close>

definition sched_init :: "Scheduler \<Rightarrow> bool" where
  "sched_init s \<longleftrightarrow> (\<exists>ts configured hw registry. ts \<noteq> [] \<and> wf_registry registry \<and>
     s = snd (scheduler_start hw (Scheduler_new ts registry configured)))"

subsection \<open>The dispatcher\<close>

text \<open>A target is due when it is not in flight and its time has come; the dispatcher queues the due
  targets in order and marks them.\<close>

definition due :: "time_point \<Rightarrow> TargetState \<Rightarrow> bool" where
  "due now t \<longleftrightarrow> \<not> in_flight t \<and> sint (next_due t) \<le> sint now"

definition mark_due :: "time_point \<Rightarrow> TargetState \<Rightarrow> TargetState" where
  "mark_due now t = (if due now t then t\<lparr>in_flight := True\<rparr> else t)"

lemma dispatch_eq:
  "dispatch now i ts = (map (mark_due now) ts, filter (\<lambda>j. due now (ts ! (j - i))) [i..<i + length ts])"
proof (induction now i ts rule: dispatch.induct)
  case (1 now i)
  show ?case by simp
next
  case (2 now i t ts)
  have "filter (\<lambda>j. due now ((t # ts) ! (j - i))) [Suc i..<i + length (t # ts)] =
      filter (\<lambda>j. due now (ts ! (j - Suc i))) [Suc i..<Suc i + length ts]"
    by (rule filter_cong) (auto simp: nth_Cons' Suc_diff_Suc)
  moreover have "[i..<i + length (t # ts)] = i # [Suc i..<i + length (t # ts)]"
    by (rule upt_conv_Cons) simp
  ultimately show ?case
    using 2 by (auto simp: due_def mark_due_def not_less not_le)
qed

lemma dispatch_turn_eq:
  "dispatch_turn now s = s\<lparr>targets := map (mark_due now) (targets s),
     queue := queue s @ filter (\<lambda>j. due now (targets s ! j)) [0..<length (targets s)], dispatching := Loop_Test\<rparr>"
  by (simp add: dispatch_turn_def dispatch_eq)

subsection \<open>Who holds a target\<close>

fun holds :: "nat \<Rightarrow> worker \<Rightarrow> bool" where
  "holds i (Scraping j) \<longleftrightarrow> i = j"
| "holds i (Merging j specs) \<longleftrightarrow> i = j"
| "holds i (Finishing j) \<longleftrightarrow> i = j"
| "holds i w \<longleftrightarrow> False"

lemma holds_wake [simp]: "holds i (wake w) = holds i w"
  by (cases w) simp_all

lemma holds_comp_wake [simp]: "holds i \<circ> wake = holds i"
  by (rule ext) simp

text \<open>How often a target is in the queue or with a worker.\<close>

definition load :: "Scheduler \<Rightarrow> nat \<Rightarrow> nat" where
  "load s i = count_list (queue s) i + length (filter (holds i) (workers s))"

definition flying :: "Scheduler \<Rightarrow> nat \<Rightarrow> bool" where
  "flying s i \<longleftrightarrow> i < length (targets s) \<and> in_flight (targets s ! i)"

lemma length_filter_update:
  "w < length xs \<Longrightarrow> length (filter P (xs[w := x])) + of_bool (P (xs ! w)) = length (filter P xs) + of_bool (P x)"
proof (induction xs arbitrary: w)
  case (Cons y ys)
  then show ?case by (cases w) auto
qed simp

lemma load_set_worker:
  "worker_at s w x \<Longrightarrow> load (set_worker w y s) i + of_bool (holds i x) = load s i + of_bool (holds i y)"
  using length_filter_update [of w "workers s" "holds i" y]
  by (auto simp: load_def set_worker_def worker_at_def)

lemma set_worker_simps [simp]:
  "targets (set_worker w x s) = targets s" "queue (set_worker w x s) = queue s"
  "sch_running (set_worker w x s) = sch_running s" "dispatching (set_worker w x s) = dispatching s"
  "stopping (set_worker w x s) = stopping s" "sch_registry (set_worker w x s) = sch_registry s"
  "workers (set_worker w x s) = (workers s)[w := x]"
  by (simp_all add: set_worker_def)

lemma hand_back_simps [simp]:
  "queue (hand_back i now s) = queue s" "workers (hand_back i now s) = workers s"
  "sch_running (hand_back i now s) = sch_running s" "dispatching (hand_back i now s) = dispatching s"
  "stopping (hand_back i now s) = stopping s" "sch_registry (hand_back i now s) = sch_registry s"
  "length (targets (hand_back i now s)) = length (targets s)"
  by (simp_all add: hand_back_def Let_def)

lemma flying_hand_back: "i < length (targets s) \<Longrightarrow> flying (hand_back i now s) j \<longleftrightarrow> flying s j \<and> j \<noteq> i"
  by (auto simp: flying_def hand_back_def Let_def nth_list_update)

lemma count_list_filter_upt: "count_list (filter P [0..<n]) i = of_bool (i < n \<and> P i)"
  by (induction n) (auto simp: less_Suc_eq)

lemma load_dispatch:
  assumes "load s i = of_bool (flying s i)"
  shows "load (dispatch_turn now s) i = of_bool (flying (dispatch_turn now s) i)"
  using assms by (auto simp: load_def flying_def dispatch_turn_eq count_list_filter_upt mark_due_def due_def)

lemma load_wake [simp]: "load (s\<lparr>workers := map wake (workers s)\<rparr>) i = load s i"
  by (simp add: load_def filter_map)

subsection \<open>The invariant\<close>

fun wf_worker :: "worker \<Rightarrow> bool" where
  "wf_worker (Merging i specs) \<longleftrightarrow> list_all wf_spec specs"
| "wf_worker w \<longleftrightarrow> True"

lemma wf_worker_wake [simp]: "wf_worker (wake w) = wf_worker w"
  by (cases w) simp_all

text \<open>Until the scheduler is stopped a target is in flight exactly when it is in the queue or with a
  worker, and then once; the flag is set until \<^verbatim>\<open>stop\<close> is called, and only a running scheduler lets
  a worker find its predicate false; the registry and the samples to merge are well formed.\<close>

definition sched_inv :: "Scheduler \<Rightarrow> bool" where
  "sched_inv s \<longleftrightarrow>
     (stopping s \<noteq> Stopped \<longrightarrow> (\<forall>i. load s i = of_bool (flying s i))) \<and>
     (stopping s = Stopped \<longrightarrow> queue s = [] \<and> workers s = [] \<and> dispatching s = Done) \<and>
     (sch_running s \<longleftrightarrow> stopping s = Not_Called) \<and>
     list_all wf_worker (workers s) \<and> wf_registry (sch_registry s)"

lemma sched_invD:
  assumes "sched_inv s" "stopping s \<noteq> Stopped"
  shows "load s i = of_bool (flying s i)"
  using assms by (simp add: sched_inv_def)

lemma worker_not_stopped: "sched_inv s \<Longrightarrow> worker_at s w x \<Longrightarrow> stopping s \<noteq> Stopped"
  by (auto simp: sched_inv_def worker_at_def)

lemma worker_wf: "sched_inv s \<Longrightarrow> worker_at s w x \<Longrightarrow> wf_worker x"
  by (auto simp: sched_inv_def worker_at_def list_all_length)

lemma held_flying:
  assumes "sched_inv s" "worker_at s w x" "holds i x"
  shows "flying s i"
proof -
  have "x \<in> set (filter (holds i) (workers s))" using assms(2,3) by (auto simp: worker_at_def)
  then have "0 < load s i" unfolding load_def by (metis add_gr_0 length_pos_if_in_set)
  with sched_invD [OF assms(1) worker_not_stopped [OF assms(1,2)], of i] show ?thesis by (cases "flying s i") simp_all
qed

text \<open>A worker that moves on without the target changing hands, and without the queue, keeps the
  invariant.\<close>

lemma sched_inv_worker:
  assumes "sched_inv s" "worker_at s w x" "\<And>i. holds i y = holds i x" "wf_worker y" "wf_registry r"
    and "queue t = queue s" "targets t = targets s" "workers t = (workers s)[w := y]" "sch_running t = sch_running s"
      "stopping t = stopping s" "sch_registry t = r"
  shows "sched_inv t"
proof -
  note ns = worker_not_stopped [OF assms(1,2)]
  have l: "load t i = load (set_worker w y s) i" for i using assms(6,8) by (simp add: load_def)
  have "load t i = load s i" for i using load_set_worker [OF assms(2), of y i] l [of i] by (simp add: assms(3))
  moreover have "flying t i = flying s i" for i using assms(7) by (simp add: flying_def)
  moreover have "list_all wf_worker ((workers s)[w := y])"
    using assms(1,4) by (auto simp: sched_inv_def list_all_iff dest!: set_update_subset_insert [THEN subsetD])
  ultimately show ?thesis
    using assms(1,5,8-) ns by (simp add: sched_inv_def)
qed

lemma sched_inv_frame:
  assumes "sched_inv s" "stopping s \<noteq> Stopped" "\<And>i. load t i = load s i" "targets t = targets s"
    "list_all wf_worker (workers t)" "wf_registry (sch_registry t)"
    "stopping t \<noteq> Stopped" "sch_running t \<longleftrightarrow> stopping t = Not_Called"
  shows "sched_inv t"
  using assms by (simp add: sched_inv_def flying_def)

lemma sched_inv_init: "sched_init s \<Longrightarrow> sched_inv s"
  by (auto simp: sched_init_def sched_inv_def scheduler_start_def Scheduler_new_def load_def flying_def
      TargetState_new_def case_prod_beta list_all_iff)

lemma sched_inv_dispatch:
  assumes "sched_inv s" "dispatching s = Loop_Body"
  shows "sched_inv ((dispatch_turn now s)\<lparr>workers := map wake (workers s)\<rparr>)"
proof -
  have ns: "stopping s \<noteq> Stopped" using assms by (auto simp: sched_inv_def)
  let ?d = "dispatch_turn now s"
  have w: "workers ?d = workers s" by (simp add: dispatch_turn_eq)
  have "load (?d\<lparr>workers := map wake (workers s)\<rparr>) i = of_bool (flying ?d i)" for i
    using load_dispatch [OF sched_invD [OF assms(1) ns, of i], of now] load_wake [of ?d i] by (simp add: w)
  moreover have "flying (?d\<lparr>workers := map wake (workers s)\<rparr>) i = flying ?d i" for i by (simp add: flying_def)
  ultimately show ?thesis
    using assms(1) ns by (simp add: sched_inv_def dispatch_turn_eq list_all_iff)
qed

lemma sched_inv_take:
  assumes "sched_inv s" "worker_at s w At_Wait" "queue s = i # q"
  shows "sched_inv (set_worker w (Scraping i) (s\<lparr>queue := q\<rparr>))"
proof -
  note ns = worker_not_stopped [OF assms(1,2)]
  let ?t = "set_worker w (Scraping i) (s\<lparr>queue := q\<rparr>)"
  have w: "worker_at (s\<lparr>queue := q\<rparr>) w At_Wait" using assms(2) by (simp add: worker_at_def)
  have "load ?t j = load s j" for j
    using load_set_worker [OF w, of "Scraping i" j] assms(3) by (auto simp: load_def)
  then show ?thesis
    using assms(1) ns by (intro sched_inv_frame [OF assms(1) ns])
      (auto simp: sched_inv_def list_all_iff dest!: set_update_subset_insert [THEN subsetD])
qed

lemma sched_inv_finish:
  assumes "sched_inv s" "worker_at s w (Finishing i)"
  shows "sched_inv (set_worker w At_Wait (hand_back i now s))"
proof -
  note ns = worker_not_stopped [OF assms(1,2)]
  let ?t = "set_worker w At_Wait (hand_back i now s)"
  have f: "flying s i" using held_flying [OF assms, of i] by simp
  have w: "worker_at (hand_back i now s) w (Finishing i)" using assms(2) by (simp add: worker_at_def)
  have "load ?t j = of_bool (flying ?t j)" for j
  proof -
    have "load ?t j + of_bool (j = i) = load s j"
      using load_set_worker [OF w, of At_Wait j] by (simp add: load_def)
    moreover have "flying ?t j \<longleftrightarrow> flying s j \<and> j \<noteq> i"
      using f flying_hand_back [where i = i and s = s and now = now and j = j] by (simp add: flying_def)
    ultimately show ?thesis using sched_invD [OF assms(1) ns, of j] f by (auto split: if_splits)
  qed
  then show ?thesis
    using assms(1) ns by (auto simp: sched_inv_def list_all_iff dest!: set_update_subset_insert [THEN subsetD])
qed

lemma scrape_samples_wf: "scrape_samples response = Some specs \<Longrightarrow> list_all wf_spec specs"
  by (auto simp: scrape_samples_def dest: parse_wf split: if_splits prod.splits)

lemma sched_inv_step:
  assumes "sched_inv s" "sched_step s t"
  shows "sched_inv t"
  using assms(2)
proof (cases rule: sched_step.cases)
  case enter_loop
  then show ?thesis using assms(1) by (auto simp: sched_inv_def load_def flying_def)
next
  case leave_loop
  then show ?thesis using assms(1)
    by (auto simp: sched_inv_def load_def flying_def list_all_iff filter_map)
next
  case (dispatch_due now)
  with sched_inv_dispatch [OF assms(1)] show ?thesis by simp
next
  case (take_target w i q)
  with sched_inv_take [OF assms(1)] show ?thesis by simp
next
  case (give_up w)
  with assms(1) show ?thesis by (intro sched_inv_worker [OF assms(1) give_up(2)]) (auto simp: sched_inv_def)
next
  case (predicate_false w)
  with assms(1) show ?thesis by (intro sched_inv_worker [OF assms(1) predicate_false(2)]) (auto simp: sched_inv_def)
next
  case (fall_asleep w)
  with assms(1) show ?thesis by (intro sched_inv_worker [OF assms(1) fall_asleep(2)]) (auto simp: sched_inv_def)
next
  case (scrape_fails w i response)
  with assms(1) show ?thesis by (intro sched_inv_worker [OF assms(1) scrape_fails(2)]) (auto simp: sched_inv_def)
next
  case (scrape_reads w i response specs)
  with assms(1) show ?thesis
    by (intro sched_inv_worker [OF assms(1) scrape_reads(2)]) (auto simp: sched_inv_def scrape_samples_wf)
next
  case (merge_sample w i spec specs)
  have "list_all wf_spec (spec # specs)" using worker_wf [OF assms(1) merge_sample(2)] by simp
  with merge_sample assms(1) show ?thesis
    by (intro sched_inv_worker [OF assms(1) merge_sample(2)]) (auto simp: sched_inv_def wf_upsert)
next
  case (merge_done w i)
  with assms(1) show ?thesis by (intro sched_inv_worker [OF assms(1) merge_done(2)]) (auto simp: sched_inv_def)
next
  case (finish_target w i now)
  with sched_inv_finish [OF assms(1)] show ?thesis by simp
next
  case clear_flag
  with assms(1) show ?thesis by (auto simp: sched_inv_def load_def flying_def)
next
  case notify
  with assms(1) show ?thesis by (auto simp: sched_inv_def load_def flying_def list_all_iff filter_map)
next
  case joined
  with assms(1) show ?thesis by (auto simp: sched_inv_def)
qed

lemma sched_inv_process:
  assumes "sched_inv s" "process_step s t"
  shows "sched_inv t"
  using assms(2)
proof (cases rule: process_step.cases)
  case own_step
  with assms(1) show ?thesis by (blast intro: sched_inv_step)
next
  case (registry_call op)
  with assms(1) show ?thesis by (simp add: sched_inv_def load_def flying_def wf_registry_apply)
qed

interpretation scheduler: invariant_system sched_init process_step sched_inv
  by unfold_locales (rule sched_inv_init, assumption, rule sched_inv_process)

subsection \<open>Stopping\<close>

text \<open>Once the flag is cleared every step brings the threads nearer to their end: the weight goes
  down, or stays and fewer samples are left to merge.\<close>

fun worker_weight :: "worker \<Rightarrow> nat" where
  "worker_weight At_Wait = 1"
| "worker_weight Sleeping = 1"
| "worker_weight Will_Sleep = 2"
| "worker_weight (Scraping i) = 4"
| "worker_weight (Merging i specs) = 3"
| "worker_weight (Finishing i) = 2"
| "worker_weight Returned = 0"

fun unmerged :: "worker \<Rightarrow> nat" where
  "unmerged (Merging i specs) = length specs"
| "unmerged w = 0"

fun dispatcher_weight :: "nat \<Rightarrow> dispatcher \<Rightarrow> nat" where
  "dispatcher_weight n Loop_Body = 2 + 4 * n"
| "dispatcher_weight n Loop_Test = 1"
| "dispatcher_weight n Done = 0"

fun stopper_weight :: "stopper \<Rightarrow> nat" where
  "stopper_weight Not_Called = 3"
| "stopper_weight Flag_Cleared = 2"
| "stopper_weight Joining = 1"
| "stopper_weight Stopped = 0"

definition stop_weight :: "Scheduler \<Rightarrow> nat" where
  "stop_weight s = sum_list (map worker_weight (workers s)) + 4 * length (queue s) +
     dispatcher_weight (length (targets s)) (dispatching s) + stopper_weight (stopping s)"

definition all_unmerged :: "Scheduler \<Rightarrow> nat" where
  "all_unmerged s = sum_list (map unmerged (workers s))"

lemma worker_weight_wake [simp]: "worker_weight (wake w) = worker_weight w"
  by (cases w) simp_all

lemma worker_weights_wake [simp]: "map worker_weight (map wake ws) = map worker_weight ws"
  by simp

lemma sum_list_map_update:
  fixes f :: "'a \<Rightarrow> nat"
  shows "w < length xs \<Longrightarrow> sum_list (map f (xs[w := x])) + f (xs ! w) = sum_list (map f xs) + f x"
proof (induction xs arbitrary: w)
  case (Cons y ys)
  then show ?case by (cases w) auto
qed simp

lemma weight_worker:
  "worker_at s w x \<Longrightarrow>
     sum_list (map worker_weight ((workers s)[w := y])) + worker_weight x = sum_list (map worker_weight (workers s)) + worker_weight y"
  using sum_list_map_update [of w "workers s" worker_weight y] by (auto simp: worker_at_def)

lemma unmerged_worker:
  "worker_at s w x \<Longrightarrow>
     sum_list (map unmerged ((workers s)[w := y])) + unmerged x = sum_list (map unmerged (workers s)) + unmerged y"
  using sum_list_map_update [of w "workers s" unmerged y] by (auto simp: worker_at_def)

definition stop_order :: "(Scheduler \<times> Scheduler) set" where
  "stop_order = measures [stop_weight, all_unmerged]"

lemma stop_step_order:
  assumes "sched_step s t" "\<not> sch_running s"
  shows "(t, s) \<in> stop_order"
  using assms(1)
proof (cases rule: sched_step.cases)
  case (dispatch_due now)
  have "length (filter (\<lambda>j. due now (targets s ! j)) [0..<length (targets s)]) \<le> length (targets s)"
    by (metis length_filter_le length_upt minus_nat.diff_0)
  with dispatch_due show ?thesis
    by (simp add: stop_order_def stop_weight_def dispatch_turn_eq del: length_filter_le map_map)
next
  case (take_target w i q)
  with weight_worker [OF take_target(2), of "Scraping i"] show ?thesis by (simp add: stop_order_def stop_weight_def)
next
  case (give_up w)
  with weight_worker [OF give_up(2), of Returned] show ?thesis by (simp add: stop_order_def stop_weight_def)
next
  case (fall_asleep w)
  with weight_worker [OF fall_asleep(2), of Sleeping] show ?thesis by (simp add: stop_order_def stop_weight_def)
next
  case (scrape_fails w i response)
  with weight_worker [OF scrape_fails(2), of "Finishing i"] show ?thesis by (simp add: stop_order_def stop_weight_def)
next
  case (scrape_reads w i response specs)
  with weight_worker [OF scrape_reads(2), of "Merging i specs"] show ?thesis by (simp add: stop_order_def stop_weight_def)
next
  case (merge_sample w i spec specs)
  with weight_worker [OF merge_sample(2), of "Merging i specs"] unmerged_worker [OF merge_sample(2), of "Merging i specs"]
  show ?thesis by (simp add: stop_order_def stop_weight_def all_unmerged_def)
next
  case (merge_done w i)
  with weight_worker [OF merge_done(2), of "Finishing i"] show ?thesis by (simp add: stop_order_def stop_weight_def)
next
  case (finish_target w i now)
  with weight_worker [OF finish_target(2), of At_Wait] show ?thesis by (simp add: stop_order_def stop_weight_def)
qed (use assms(2) in \<open>auto simp: stop_order_def stop_weight_def simp del: map_map\<close>)

text \<open>A step stays possible until all threads have ended, unless a worker sleeps.\<close>

lemma stop_progress:
  assumes "sched_inv s" "\<not> sch_running s" "\<And>t. \<not> sched_step s t"
  shows "stopping s = Stopped \<or>
    stopping s = Joining \<and> dispatching s = Done \<and> Sleeping \<in> set (workers s) \<and> set (workers s) \<subseteq> {Sleeping, Returned}"
proof (cases "stopping s")
  case Not_Called
  with assms show ?thesis by (simp add: sched_inv_def)
next
  case Flag_Cleared
  with assms(3) notify show ?thesis by blast
next
  case Joining
  have at: "\<exists>w. worker_at s w x" if "x \<in> set (workers s)" for x
    using that by (auto simp: worker_at_def in_set_conv_nth)
  have free: "mutex_free s"
    using assms(3) fall_asleep at [of Will_Sleep] by (auto simp: mutex_free_def)
  have disp: "dispatching s = Done"
    using assms(2,3) leave_loop dispatch_due free by (cases "dispatching s") blast+
  have "x \<in> {Sleeping, Returned}" if x: "x \<in> set (workers s)" for x
  proof -
    from at [OF x] obtain w where w: "worker_at s w x" by blast
    show ?thesis
    proof (cases x)
      case At_Wait
      with w free assms(2,3) give_up take_target show ?thesis by (cases "queue s") blast+
    next
      case Will_Sleep
      with w assms(3) fall_asleep show ?thesis by blast
    next
      case (Scraping i)
      with w assms(3) scrape_fails [of s w i HttpResponse_new] show ?thesis
        by (auto simp: scrape_samples_def HttpResponse_new_def)
    next
      case (Merging i specs)
      with w assms(3) merge_done merge_sample show ?thesis by (cases specs) blast+
    next
      case (Finishing i)
      with w assms(3) finish_target free show ?thesis by blast
    qed simp_all
  qed
  then have sub: "set (workers s) \<subseteq> {Sleeping, Returned}" by blast
  moreover have "Sleeping \<in> set (workers s)"
    using joined [OF Joining disp] assms(3) sub by blast
  ultimately show ?thesis using Joining disp by simp
next
  case Stopped
  then show ?thesis by simp
qed

text \<open>A scrape that nothing interrupts does, sample by sample, what the whole of \<^verbatim>\<open>scrapeOne\<close> does.\<close>

lemma scrape_by_samples:
  "(succeeded (scrape t response r) \<longleftrightarrow> scrape_samples response \<noteq> None) \<and>
   merged_registry (scrape t response r) =
     (case scrape_samples response of None \<Rightarrow> r | Some specs \<Rightarrow> fold (\<lambda>spec r. snd (upsert r spec)) specs r)"
proof -
  obtain ok specs error where p: "parsePrometheusText (body response) = (ok, specs, error)" by (metis prod_cases3)
  from merge_eq [OF p] parse_error_iff [OF p] show ?thesis
    by (cases ok) (simp_all add: scrape_def scrape_samples_def p)
qed

subsection \<open>Two runs\<close>

text \<open>A pool of one worker and one target that is due at once. In the first run the worker takes it.
  In the second \<^verbatim>\<open>stop\<close> clears the flag and wakes the workers after the worker has found its
  predicate false and before it sleeps, and the dispatcher ends in the same interval.\<close>

definition example_scheduler :: Scheduler where
  "example_scheduler = snd (scheduler_start 1 (Scheduler_new [(ScrapeTarget_new, 0)] registry_empty 1))"

lemma example_scheduler_eq:
  "example_scheduler =
     \<lparr>targets = [\<lparr>ts_target = ScrapeTarget_new, next_due = 0, in_flight = False\<rparr>], configured_workers = 1, queue = [],
      sch_running = True, workers = [At_Wait], dispatching = Loop_Test, stopping = Not_Called, success_count = 0,
      failure_count = 0, sch_registry = registry_empty\<rparr>"
  by (simp add: example_scheduler_def scheduler_start_def Scheduler_new_def TargetState_new_def pool_size_def)

lemma example_scheduler_init: "reachable sched_init process_step example_scheduler"
proof (rule reachable_init)
  show "sched_init example_scheduler"
    unfolding sched_init_def example_scheduler_def 
    by (rule exI [of _ "[(ScrapeTarget_new, 0)]"], rule exI [of _ 1], rule exI [of _ 1], rule exI [of _ registry_empty]) simp
qed

definition example_scraping :: Scheduler where
  "example_scraping = example_scheduler\<lparr>targets := [\<lparr>ts_target = ScrapeTarget_new, next_due = 0, in_flight = True\<rparr>],
     workers := [Scraping 0]\<rparr>"

lemma own: "reachable sched_init process_step s \<Longrightarrow> sched_step s t \<Longrightarrow> reachable sched_init process_step t"
  by (blast intro: reachable_step own_step)

lemma example_scraping_reachable: "reachable sched_init process_step example_scraping"
proof -
  let ?b = "example_scheduler\<lparr>dispatching := Loop_Body\<rparr>"
  let ?d = "(dispatch_turn 0 ?b)\<lparr>workers := map wake (workers ?b)\<rparr>"
  have b: "sched_step example_scheduler ?b" by (rule enter_loop) (simp_all add: example_scheduler_eq)
  have d: "sched_step ?b ?d" by (rule dispatch_due) (simp_all add: example_scheduler_eq mutex_free_def)
  have d_eq: "?d = example_scheduler\<lparr>targets := [\<lparr>ts_target = ScrapeTarget_new, next_due = 0, in_flight = True\<rparr>], queue := [0]\<rparr>"
    by (simp add: example_scheduler_eq dispatch_turn_def)
  have "sched_step ?d (set_worker 0 (Scraping 0) (?d\<lparr>queue := []\<rparr>))"
    unfolding d_eq by (rule take_target) (simp_all add: example_scheduler_eq worker_at_def mutex_free_def)
  also have "set_worker 0 (Scraping 0) (?d\<lparr>queue := []\<rparr>) = example_scraping"
    unfolding d_eq by (simp add: example_scheduler_eq example_scraping_def set_worker_def)
  finally show ?thesis by (rule own [OF own [OF own [OF example_scheduler_init b] d]])
qed

definition example_hang :: Scheduler where
  "example_hang = example_scheduler\<lparr>sch_running := False, workers := [Sleeping], dispatching := Done, stopping := Joining\<rparr>"

lemma example_hang_reachable: "reachable sched_init process_step example_hang"
proof -
  let ?a = "set_worker 0 Will_Sleep example_scheduler"
  let ?b = "?a\<lparr>sch_running := False, stopping := Flag_Cleared\<rparr>"
  let ?c = "?b\<lparr>stopping := Joining, workers := map wake (workers ?b)\<rparr>"
  let ?d = "?c\<lparr>dispatching := Done, workers := map wake (workers ?c)\<rparr>"
  have a: "sched_step example_scheduler ?a"
    by (rule predicate_false) (simp_all add: example_scheduler_eq worker_at_def mutex_free_def)
  have b: "sched_step ?a ?b" by (rule clear_flag) (simp add: example_scheduler_eq)
  have c: "sched_step ?b ?c" by (rule notify) simp
  have d: "sched_step ?c ?d" by (rule leave_loop) (simp_all add: example_scheduler_eq)
  have "sched_step ?d (set_worker 0 Sleeping ?d)"
    by (rule fall_asleep) (simp add: example_scheduler_eq worker_at_def)
  also have "set_worker 0 Sleeping ?d = example_hang"
    by (simp add: example_scheduler_eq example_hang_def set_worker_def)
  finally show ?thesis by (rule own [OF own [OF own [OF own [OF own [OF example_scheduler_init a] b] c] d]])
qed

lemma example_hang_stuck: "\<not> sched_step example_hang t"
proof
  assume "sched_step example_hang t"
  then show False
    by (cases rule: sched_step.cases)
      (auto simp: example_hang_def example_scheduler_eq worker_at_def)
qed

subsection \<open>Properties\<close>

text \<open>C4: However the dispatcher, the workers, other threads and the caller of \<open>stop\<close> interleave, no
  target is ever scraped by two workers at once, nor queued while it is being scraped.\<close>

theorem one_scrape_per_target:
  assumes "reachable sched_init process_step s"
    and "v < length (workers s)" "holds i (workers s ! v)" "w < length (workers s)" "holds i (workers s ! w)"
  shows "v = w \<and> i \<notin> set (queue s) \<and> i < length (targets s)"
proof -
  note inv = scheduler.reachable_inv [OF assms(1)]
  have at: "worker_at s v (workers s ! v)" using assms(2) by (simp add: worker_at_def)
  have f: "flying s i" by (rule held_flying [OF inv at assms(3)])
  have one: "load s i = 1" using sched_invD [OF inv worker_not_stopped [OF inv at], of i] f by simp
  have pos: "0 < length (filter (holds i) (workers s))"
    using assms(2,3) by (auto simp: filter_empty_conv)
  have "v = w"
  proof (rule ccontr)
    assume ne: "v \<noteq> w"
    let ?ws = "(workers s)[v := Returned]"
    have "length (filter (holds i) ?ws) + 1 = length (filter (holds i) (workers s))"
      using length_filter_update [OF assms(2), of "holds i" Returned] assms(3) by simp
    moreover have "0 < length (filter (holds i) ?ws)"
    proof -
      have "?ws ! w \<in> set ?ws" using assms(4) by (intro nth_mem) simp
      with ne assms(5) show ?thesis by (auto simp: filter_empty_conv)
    qed
    ultimately show False using one unfolding load_def by linarith
  qed
  moreover have "i \<notin> set (queue s)" using one pos unfolding load_def count_list_0_iff [symmetric] by linarith
  ultimately show ?thesis using f by (simp add: flying_def)
qed

theorem one_scrape_per_target_witness:
  "0 \<notin> set (queue example_scraping) \<and> 0 < length (targets example_scraping)"
  using one_scrape_per_target [OF example_scraping_reachable, of 0 0 0]
  by (simp add: example_scraping_def example_scheduler_eq)

text \<open>A turn of the dispatcher queues exactly the targets that are due and not in flight, in their
  order, behind what is queued already, and marks exactly those.\<close>

lemma dispatcher_queues_due:
  "queue (dispatch_turn now s) = queue s @
     filter (\<lambda>i. \<not> in_flight (targets s ! i) \<and> sint (next_due (targets s ! i)) \<le> sint now) [0..<length (targets s)] \<and>
   map in_flight (targets (dispatch_turn now s)) =
     map (\<lambda>t. in_flight t \<or> sint (next_due t) \<le> sint now) (targets s) \<and>
   map ts_target (targets (dispatch_turn now s)) = map ts_target (targets s)"
  by (auto simp: dispatch_turn_eq due_def mark_due_def)

text \<open>How it ends: when nothing can move any more after the flag was cleared, either \<open>stop\<close> has
  returned with no thread left and an empty queue, or it waits for ever for workers that sleep
  on the condition variable.\<close>

lemma stop_returns_or_sleeps:
  assumes "reachable sched_init process_step s" "\<not> sch_running s" "\<And>t. \<not> sched_step s t"
  shows "(stopping s = Stopped \<and> workers s = [] \<and> queue s = [] \<and> dispatching s = Done) \<or>
    (stopping s = Joining \<and> dispatching s = Done \<and> Sleeping \<in> set (workers s) \<and> set (workers s) \<subseteq> {Sleeping, Returned})"
  using stop_progress [OF scheduler.reachable_inv [OF assms(1)] assms(2,3)] scheduler.reachable_inv [OF assms(1)]
  by (auto simp: sched_inv_def)

text \<open>C16: Stopping ends: once \<open>stop\<close> has cleared the flag no execution of the dispatcher, the workers and
  the caller goes on for ever, whatever the targets answer; and where an execution ends, either
  \<open>stop\<close> has returned with no thread left and an empty queue, or it waits for workers that sleep on
  the condition variable, with nothing left that would wake them.\<close>

theorem stop_terminates:
  "wf {(t, s). sched_step s t \<and> \<not> sch_running s} \<and>
   (\<forall>s. reachable sched_init process_step s \<and> \<not> sch_running s \<and> (\<nexists>t. sched_step s t) \<longrightarrow>
      (stopping s = Stopped \<and> workers s = [] \<and> queue s = [] \<and> dispatching s = Done) \<or>
      (stopping s = Joining \<and> dispatching s = Done \<and> Sleeping \<in> set (workers s) \<and> set (workers s) \<subseteq> {Sleeping, Returned}))"
proof (intro conjI allI impI)
  have "wf stop_order" by (simp add: stop_order_def)
  then show "wf {(t, s). sched_step s t \<and> \<not> sch_running s}" by (rule wf_subset) (use stop_step_order in blast)
qed (use stop_returns_or_sleeps in blast)

theorem stop_terminates_witness:
  "stopping example_hang = Joining \<and> Sleeping \<in> set (workers example_hang)"
  using stop_terminates [THEN conjunct2, rule_format, of example_hang] example_hang_reachable example_hang_stuck
  by (simp add: example_hang_def)

text \<open>The wake-up can be lost: \<open>stop\<close> clears the flag and notifies without holding the mutex, so
  there is an execution after which it waits for a worker that sleeps and that nothing will wake.\<close>

lemma stop_can_hang:
  "\<exists>s. reachable sched_init process_step s \<and> stopping s = Joining \<and> workers s = [Sleeping] \<and> (\<nexists>t. sched_step s t)"
proof (intro exI conjI)
  show "reachable sched_init process_step example_hang" by (rule example_hang_reachable)
  show "\<nexists>t. sched_step example_hang t" using example_hang_stuck by blast
qed (simp_all add: example_hang_def)

end
