(* ===== verification/Daemon.thy ===== *)
theory Daemon
  imports Metrics_Server Snapshot Scheduler Sockets
begin

section \<open>The daemon (daemon.hpp, daemon.cpp, tls.hpp, tls.cpp, privilege.cpp)\<close>

text \<open>
  \<^verbatim>\<open>MetricDaemon\<close> owns the registry, the TLS context, the HTTP server, the scrape scheduler and the
  snapshot store, and starts and stops them in a fixed order. What the operating system, OpenSSL and
  the user database answer during a start is a record of arguments. The scheduler and the server
  work on the daemon's registry: the copy inside \<open>Scheduler\<close> is refreshed from it at every step.
\<close>

subsection \<open>TLS context and privileges\<close>

record TlsContext =
  server_ctx :: bool
  client_ctx :: bool

text \<open>\<open>ssl_build\<close>: compiled with \<^verbatim>\<open>SIMPLE_METRICD_SSL\<close>; the others: \<^verbatim>\<open>SSL_CTX_new\<close> succeeds.\<close>

definition TlsContext_new :: "bool \<Rightarrow> bool \<Rightarrow> bool \<Rightarrow> TlsContext" where
  "TlsContext_new ssl_build client_made server_made =
     \<lparr>server_ctx = ssl_build \<and> server_made, client_ctx = ssl_build \<and> client_made\<rparr>"

definition loadCertificate :: "TlsContext \<Rightarrow> bool \<Rightarrow> bool \<Rightarrow> bool" where
  "loadCertificate ctx cert_ok key_ok \<longleftrightarrow> (if \<not> server_ctx ctx then False else if \<not> cert_ok then False else key_ok)"

definition loadCa :: "TlsContext \<Rightarrow> bool \<Rightarrow> bool" where
  "loadCa ctx ca_ok \<longleftrightarrow> (if \<not> client_ctx ctx then False else ca_ok)"

definition tls_active :: "TlsContext \<Rightarrow> bool" where
  "tls_active ctx \<longleftrightarrow> server_ctx ctx \<or> client_ctx ctx"

record credentials =
  user_id :: int
  group_id :: int
  extra_groups :: "int list"

text \<open>\<open>passwd\<close> is \<^verbatim>\<open>getpwnam\<close>: user and group of a name; the flags: \<^verbatim>\<open>setgid\<close> and \<^verbatim>\<open>setuid\<close> succeed.\<close>

definition dropPrivileges :: "string \<Rightarrow> (string \<rightharpoonup> int \<times> int) \<Rightarrow> bool \<Rightarrow> bool \<Rightarrow> credentials \<Rightarrow> bool \<times> credentials" where
  "dropPrivileges user passwd setgid_ok setuid_ok cred =
     (if user = [] then (True, cred)
      else case passwd user of
        None \<Rightarrow> (False, cred)
      | Some (uid, gid) \<Rightarrow>
          if \<not> setgid_ok then (False, cred)
          else let cred1 = cred\<lparr>group_id := gid\<rparr>
               in if \<not> setuid_ok then (False, cred1) else (True, cred1\<lparr>user_id := uid\<rparr>))"

subsection \<open>State\<close>

record MetricDaemon =
  d_config :: MetricConfig
  d_registry :: MetricRegistry
  d_tls :: TlsContext
  d_server :: "MetricsServer option"
  d_scraper :: "Scheduler option"
  d_snapshot :: "SnapshotStore option"
  d_running :: bool
  d_initialized :: bool
  d_logger :: Logger

definition MetricDaemon_new :: "MetricConfig \<Rightarrow> TlsContext \<Rightarrow> Logger \<Rightarrow> MetricDaemon" where
  "MetricDaemon_new config tls logger =
     \<lparr>d_config = config, d_registry = registry_empty, d_tls = tls, d_server = None, d_scraper = None,
      d_snapshot = None, d_running = False, d_initialized = False, d_logger = logger\<rparr>"

text \<open>What the surroundings answer: the certificate files load, the files, the sockets initialize,
  the addresses to bind, the user database, the two system calls, the number of processors and the
  clock.\<close>

record surroundings =
  cert_loads :: bool
  key_loads :: bool
  ca_loads :: bool
  files :: file_system
  sockets_start :: bool
  bind_tries :: "address_try list"
  users :: "string \<rightharpoonup> int \<times> int"
  setgid_works :: bool
  setuid_works :: bool
  processors :: nat
  clock_now :: time_point

subsection \<open>Initialization\<close>

text \<open>Register the configured metrics up to the first that is refused.\<close>

fun register_all :: "MetricSpec list \<Rightarrow> MetricRegistry \<Rightarrow> MetricSpec option \<times> MetricRegistry" where
  "register_all [] r = (None, r)"
| "register_all (spec # specs) r =
     (let (ok, r') = registerMetric r spec in if \<not> ok then (Some spec, r') else register_all specs r')"

definition configure_logger :: "MetricConfig \<Rightarrow> Logger \<Rightarrow> Logger" where
  "configure_logger c logger =
     (let logger = (case parseLogLevel (log_level c) of None \<Rightarrow> logger | Some level \<Rightarrow> setLevel logger level)
      in if log_file c \<noteq> [] then setLogFile logger (log_file c) else logger)"

definition tls_failure :: "surroundings \<Rightarrow> MetricConfig \<Rightarrow> TlsContext \<Rightarrow> string option" where
  "tls_failure env c ctx =
     (if tls_enabled c then
        (if \<not> loadCertificate ctx (cert_loads env) (key_loads env) then Some ''failed to load TLS certificate/key''
         else if tls_ca_file c \<noteq> [] \<and> \<not> loadCa ctx (ca_loads env) then Some ''failed to load TLS CA file''
         else None)
      else None)"

definition initialize :: "surroundings \<Rightarrow> MetricDaemon \<Rightarrow> bool \<times> MetricDaemon \<times> log_messages" where
  "initialize env d =
     (if d_initialized d then (True, d, [])
      else
        let c = d_config d
        in if \<not> validate c then (False, d, [(Error, ''invalid configuration'')])
           else
             let (refused, registry) = register_all (config_metrics c) (registry_clear (d_registry d));
                 d = d\<lparr>d_logger := configure_logger c (d_logger d), d_registry := registry\<rparr>
             in case refused of
               Some spec \<Rightarrow>
                 (False, d, [(Error, ''failed to register metric: '' @ spec_name spec @ '' ('' @ spec_type spec @ '')'')])
             | None \<Rightarrow>
                 (case tls_failure env c (d_tls d) of
                    Some message \<Rightarrow> (False, d, [(Error, message)])
                  | None \<Rightarrow>
                      if snapshot_file c \<noteq> [] then
                        let store = SnapshotStore_new (snapshot_file c) (snapshot_interval_sec c);
                            (ok, registry', msgs) = snapshot_load store (files env) (d_registry d);
                            d = d\<lparr>d_registry := registry'\<rparr>
                        in if \<not> ok then
                             (False, d\<lparr>d_snapshot := None\<rparr>, msgs @ [(Error, ''failed to load snapshot: '' @ snapshot_file c)])
                           else (True, d\<lparr>d_snapshot := Some store, d_initialized := True\<rparr>, msgs)
                      else (True, d\<lparr>d_initialized := True\<rparr>, [])))"

subsection \<open>Starting\<close>

text \<open>The access policy and the server as the configuration asks for them.\<close>

definition acl_of :: "MetricConfig \<Rightarrow> AclPolicy" where
  "acl_of c =
     setPublicHealthz (setCredentials (setDeny (setAllow AclPolicy_new (allow_ips c)) (deny_ips c))
       (auth_user c) (auth_password c)) (cfg_public_healthz c)"

definition server_of :: "MetricConfig \<Rightarrow> TlsContext \<Rightarrow> MetricsServer" where
  "server_of c ctx =
     (let s = MetricsServer_new (listen_address c) (listen_port c);
          s = (if tls_active ctx then setTls s True else s)
      in setRateLimit (setAcl s (acl_of c)) (rate_limit_per_minute c))"

text \<open>The port of a listener that could be bound.\<close>

definition listener_port :: "address_try list \<Rightarrow> port_t option" where
  "listener_port tries =
     (case bindAndListen tries TcpListener_new of (ok, l, calls) \<Rightarrow> if ok then Some (bound_port l) else None)"

definition started_messages :: "MetricDaemon \<Rightarrow> MetricsServer \<Rightarrow> log_messages" where
  "started_messages d server =
     (let c = d_config d in
      [(Info, ''simple-metricd '' @ kVersion @ '' started''),
       (Info, ''metrics registered: '' @ show_nat (registry_size (d_registry d))),
       (Info, ''listening on '' @ (if tls_active (d_tls d) then ''https://'' else ''http://'') @ listen_address c @ '':'' @
          show_nat (unat (srv_bound_port server)) @ '' (/metrics /healthz /status)'')] @
      (if scrape_targets c \<noteq> [] then [(Info, ''scrape targets: '' @ show_nat (length (scrape_targets c)))] else []) @
      (if snapshot_file c \<noteq> [] then [(Info, ''snapshot file: '' @ snapshot_file c)] else []))"

text \<open>The scheduler of the configured targets, if there are any, and whether it starts.\<close>

definition start_scraper :: "surroundings \<Rightarrow> MetricDaemon \<Rightarrow> bool \<times> Scheduler option" where
  "start_scraper env d =
     (if scrape_targets (d_config d) \<noteq> [] then
        (case scheduler_start (processors env)
            (Scheduler_new (map (\<lambda>t. (t, clock_now env)) (scrape_targets (d_config d))) (d_registry d) 0) of
           (ok, s) \<Rightarrow> (ok, Some s))
      else (True, d_scraper d))"

definition start_snapshot :: "MetricDaemon \<Rightarrow> bool \<times> SnapshotStore option" where
  "start_snapshot d =
     (case d_snapshot d of
        None \<Rightarrow> (True, None)
      | Some store \<Rightarrow> (case snapshot_start store of (ok, store') \<Rightarrow> (ok, Some store')))"

definition start :: "surroundings \<Rightarrow> credentials \<Rightarrow> MetricDaemon \<Rightarrow> bool \<times> MetricDaemon \<times> credentials \<times> log_messages" where
  "start env cred d0 =
     (case initialize env d0 of
        (False, d, msgs) \<Rightarrow> (False, d, cred, msgs)
      | (True, d, msgs) \<Rightarrow>
          if \<not> sockets_start env then (False, d, cred, msgs @ [(Error, ''failed to initialize sockets'')])
          else
            (case server_start (server_of (d_config d) (d_tls d)) (listener_port (bind_tries env)) of
               (False, server) \<Rightarrow>
                 (False, d\<lparr>d_server := None\<rparr>, cred,
                  msgs @ [(Error, ''failed to bind metrics HTTP listener on '' @ listen_address (d_config d) @ '':'' @
                    show_nat (unat (listen_port (d_config d))))])
             | (True, server) \<Rightarrow>
                 (case dropPrivileges (run_as_user (d_config d)) (users env) (setgid_works env) (setuid_works env) cred of
                    (False, cred') \<Rightarrow>
                      (False, d\<lparr>d_server := None\<rparr>, cred',
                       msgs @ [(Error, ''failed to drop privileges to user: '' @ run_as_user (d_config d))])
                  | (True, cred') \<Rightarrow>
                      (case start_scraper env d of
                         (False, scraper) \<Rightarrow>
                           (False, d\<lparr>d_server := None, d_scraper := None\<rparr>, cred', msgs @ [(Error, ''failed to start scrape scheduler'')])
                       | (True, scraper) \<Rightarrow>
                           (case start_snapshot d of
                              (False, snapshot) \<Rightarrow>
                                (False, d\<lparr>d_server := None, d_scraper := None, d_snapshot := snapshot\<rparr>, cred',
                                 msgs @ [(Error, ''failed to start snapshot store'')])
                            | (True, snapshot) \<Rightarrow>
                                let d' = d\<lparr>d_server := Some server, d_scraper := scraper, d_snapshot := snapshot, d_running := True\<rparr>
                                in (True, d', cred', msgs @ started_messages d' server))))))"

subsection \<open>Stopping\<close>

text \<open>\<open>late\<close>: the registry calls that the scheduler's workers and the server make after the snapshot
  was saved and before their threads are joined.\<close>

definition stop :: "save_outcome \<Rightarrow> registry_op list \<Rightarrow> file_system \<Rightarrow> MetricDaemon \<Rightarrow> MetricDaemon \<times> file_system \<times> log_messages" where
  "stop outcome late fs d =
     (let (snapshot, fs', msgs) =
        (case d_snapshot d of
           None \<Rightarrow> (None, fs, [])
         | Some store \<Rightarrow> (case snapshot_stop store outcome (d_registry d) fs of (store', fs', msgs) \<Rightarrow> (Some store', fs', msgs)));
          registry = (if d_scraper d = None \<and> d_server d = None then d_registry d else registry_run (d_registry d) late)
      in (d\<lparr>d_running := False, d_snapshot := snapshot, d_scraper := None, d_server := None, d_registry := registry\<rparr>, fs',
          msgs @ (if d_running d then [(Info, ''simple-metricd stopped'')] else [])))"

definition boundPort :: "MetricDaemon \<Rightarrow> port_t" where
  "boundPort d = (case d_server d of Some server \<Rightarrow> srv_bound_port server | None \<Rightarrow> listen_port (d_config d))"

definition testConfig :: "MetricDaemon \<Rightarrow> bool \<times> log_messages" where
  "testConfig d =
     (case validateDetailed (d_config d) of
        (False, errors) \<Rightarrow> (False, map (\<lambda>e. (Error, e)) errors)
      | (True, errors) \<Rightarrow> (True, [(Info, ''configuration is valid'')]))"

subsection \<open>What initialization leaves\<close>

lemma initialize_frame':
  "d_server (fst (snd (initialize env d))) = d_server d \<and> d_scraper (fst (snd (initialize env d))) = d_scraper d \<and>
   d_running (fst (snd (initialize env d))) = d_running d \<and> d_config (fst (snd (initialize env d))) = d_config d \<and>
   d_tls (fst (snd (initialize env d))) = d_tls d"
  by (simp add: initialize_def Let_def case_prod_beta split: option.split)

lemma initialize_frame:
  "initialize env d = (ok, d', msgs) \<Longrightarrow>
     d_server d' = d_server d \<and> d_scraper d' = d_scraper d \<and> d_running d' = d_running d \<and>
     d_config d' = d_config d \<and> d_tls d' = d_tls d"
  using initialize_frame' [of env d] by simp

lemma snapshot_load_True [simp]: "fst (snapshot_load s fs r)"
  by (simp add: snapshot_load_def case_prod_beta split: option.splits)

lemma snapshot_start_True [simp]: "fst (snapshot_start s)"
  by (simp add: snapshot_start_def)

lemma scheduler_start_True [simp]: "fst (scheduler_start hw s)"
  by (simp add: scheduler_start_def)

lemma initialize_error:
  assumes "initialize env d = (False, d', msgs)"
  shows "\<exists>m. (Error, m) \<in> set msgs"
  using assms by (auto simp: initialize_def Let_def split: if_splits option.splits prod.splits)

lemma start_False:
  assumes "start env cred d0 = (False, d', cred', msgs)" "d_server d0 = None" "d_scraper d0 = None"
  shows "d_server d' = None \<and> d_scraper d' = None \<and> d_running d' = d_running d0 \<and> (\<exists>m. (Error, m) \<in> set msgs)"
proof -
  obtain ok d msgs0 where i: "initialize env d0 = (ok, d, msgs0)" by (metis prod_cases3)
  note f = initialize_frame [OF i]
  show ?thesis
  proof (cases ok)
    case False
    then have i': "initialize env d0 = (False, d, msgs0)" using i by simp
    with assms(1) have "d' = d" "msgs = msgs0" by (simp_all add: start_def)
    with initialize_error [OF i'] f assms(2,3) show ?thesis by simp
  next
    case True
    then have i': "initialize env d0 = (True, d, msgs0)" using i by simp
    from assms(1) show ?thesis
      unfolding start_def i'
      using assms(2,3) f by (auto simp: Let_def split: if_splits prod.splits bool.splits)
  qed
qed

lemma start_True:
  assumes "start env cred d0 = (True, d', cred', msgs)"
  obtains d server scraper snapshot msgs0 where "initialize env d0 = (True, d, msgs0)" "sockets_start env"
    "server_start (server_of (d_config d) (d_tls d)) (listener_port (bind_tries env)) = (True, server)"
    "dropPrivileges (run_as_user (d_config d)) (users env) (setgid_works env) (setuid_works env) cred = (True, cred')"
    "start_scraper env d = (True, scraper)" "start_snapshot d = (True, snapshot)"
    "d' = d\<lparr>d_server := Some server, d_scraper := scraper, d_snapshot := snapshot, d_running := True\<rparr>"
proof -
  obtain ok d msgs0 where i: "initialize env d0 = (ok, d, msgs0)" by (metis prod_cases3)
  with assms have "initialize env d0 = (True, d, msgs0)" by (cases ok) (simp_all add: start_def)
  with assms that show thesis
    by (auto simp: start_def Let_def split: if_splits prod.splits bool.splits)
qed

lemma server_start_frame:
  "server_start s bound = (True, s') \<Longrightarrow> srv_tls s' = srv_tls s \<and> srv_acl s' = srv_acl s \<and> srv_limiter s' = srv_limiter s"
  by (auto simp: server_start_def split: option.splits)

lemma server_of_simps [simp]:
  "srv_tls (server_of c ctx) = tls_active ctx" "srv_acl (server_of c ctx) = acl_of c"
  "srv_limiter (server_of c ctx) = setMaxPerMinute (RateLimiter_new 0) (rate_limit_per_minute c)"
  by (simp_all add: server_of_def Let_def setTls_def setAcl_def setRateLimit_def MetricsServer_new_def)

subsection \<open>Registering the configured metrics\<close>

lemma registerMetric_iff:
  "fst (registerMetric r spec) \<longleftrightarrow> accepted_spec spec \<and> registry_find r (spec_name spec) = None"
  using makeMetric_None [of spec]
  by (auto simp: registerMetric_def accepted_spec_def split: option.splits)

lemma find_registerMetric:
  "fst (registerMetric r spec) \<Longrightarrow>
     registry_find (snd (registerMetric r spec)) = (registry_find r)(spec_name spec \<mapsto> metric_of spec)"
  using makeMetric_accepted [of spec] registerMetric_iff [of r spec] makeMetric_name [of spec]
  by (auto simp: registerMetric_def find_append split: option.splits)

lemma register_all_iff:
  "fst (register_all specs r) = None \<longleftrightarrow>
     list_all accepted_spec specs \<and> distinct (map spec_name specs) \<and> (\<forall>spec \<in> set specs. registry_find r (spec_name spec) = None)"
proof (induction specs arbitrary: r)
  case (Cons spec specs)
  show ?case
  proof (cases "fst (registerMetric r spec)")
    case True
    then have eq: "fst (register_all (spec # specs) r) = fst (register_all specs (snd (registerMetric r spec)))"
      by (simp add: case_prod_beta Let_def)
    show ?thesis
      unfolding eq Cons.IH find_registerMetric [OF True] using True registerMetric_iff [of r spec]
      by (auto simp: image_iff split: if_splits)
  next
    case False
    then show ?thesis using registerMetric_iff [of r spec] by (auto simp: case_prod_beta Let_def)
  qed
qed simp

lemma find_register_all:
  "fst (register_all specs r) = None \<Longrightarrow>
     registry_find (snd (register_all specs r)) = registry_find r ++ map_of (rev (map (\<lambda>spec. (spec_name spec, metric_of spec)) specs))"
proof (induction specs arbitrary: r)
  case (Cons spec specs)
  then have ok: "fst (registerMetric r spec)" by (auto simp: case_prod_beta Let_def split: if_splits)
  with Cons show ?case
    by (intro ext) (simp add: case_prod_beta Let_def find_registerMetric map_add_def split: option.split)
qed simp

lemma wf_register_all: "wf_registry r \<Longrightarrow> list_all wf_spec specs \<Longrightarrow> wf_registry (snd (register_all specs r))"
  by (induction specs arbitrary: r) (auto simp: case_prod_beta Let_def wf_registerMetric)

lemma initialize_plain:
  assumes "\<not> d_initialized d" "validate (d_config d)" "\<not> tls_enabled (d_config d)" "snapshot_file (d_config d) = []"
  shows "fst (initialize env d) \<longleftrightarrow> fst (register_all (config_metrics (d_config d)) registry_empty) = None"
    and "d_registry (fst (snd (initialize env d))) = snd (register_all (config_metrics (d_config d)) registry_empty)"
proof -
  have clear: "registry_clear r = registry_empty" for r by (simp add: registry_clear_def registry_empty_def)
  show "fst (initialize env d) \<longleftrightarrow> fst (register_all (config_metrics (d_config d)) registry_empty) = None"
    using assms by (simp add: initialize_def Let_def case_prod_beta clear tls_failure_def split: option.splits)
  show "d_registry (fst (snd (initialize env d))) = snd (register_all (config_metrics (d_config d)) registry_empty)"
    using assms by (simp add: initialize_def Let_def case_prod_beta clear tls_failure_def split: option.splits)
qed

subsection \<open>The running daemon\<close>

text \<open>The daemon with the files around it. It is started once and then serves clients, scrapes,
  saves snapshots and is stopped, in any order; \<^verbatim>\<open>main\<close> calls \<^verbatim>\<open>start\<close> on a daemon that does not run.\<close>

type_synonym daemon_state = "MetricDaemon \<times> file_system"

definition with_registry :: "MetricRegistry \<Rightarrow> Scheduler \<Rightarrow> Scheduler" where
  "with_registry r s = s\<lparr>sch_registry := r\<rparr>"

inductive daemon_step :: "daemon_state \<Rightarrow> daemon_state \<Rightarrow> bool" where
  starting: "\<not> d_running d \<Longrightarrow> files env = fs \<Longrightarrow> start env cred d = (ok, d', cred', msgs) \<Longrightarrow> daemon_step (d, fs) (d', fs)"
| serving: "d_server d = Some s \<Longrightarrow> accept_turn s (d_registry d) now conn = (s', r', reply) \<Longrightarrow>
    daemon_step (d, fs) (d\<lparr>d_server := Some s', d_registry := r'\<rparr>, fs)"
| scraping: "d_scraper d = Some s \<Longrightarrow> sched_step (with_registry (d_registry d) s) s' \<Longrightarrow>
    daemon_step (d, fs) (d\<lparr>d_scraper := Some s', d_registry := sch_registry s'\<rparr>, fs)"
| saving: "d_snapshot d = Some s \<Longrightarrow> snap_running s \<Longrightarrow> snapshot_save s outcome (d_registry d) fs = (ok, fs', msgs) \<Longrightarrow>
    daemon_step (d, fs) (d, fs')"
| stopping: "list_all wf_op late \<Longrightarrow> stop outcome late fs d = (d', fs', msgs) \<Longrightarrow> daemon_step (d, fs) (d', fs')"

definition daemon_init :: "daemon_state \<Rightarrow> bool" where
  "daemon_init st \<longleftrightarrow> (\<exists>c tls logger. sound_config c \<and> fst st = MetricDaemon_new c tls logger)"

text \<open>A running daemon has a server, one that does not run has neither server nor scheduler; the
  registry is well formed, the limiter within its limit, the scheduler in its invariant, and every
  sample it will merge well formed.\<close>

definition daemon_inv :: "daemon_state \<Rightarrow> bool" where
  "daemon_inv st \<longleftrightarrow>
     (case st of (d, fs) \<Rightarrow>
        sound_config (d_config d) \<and> wf_registry (d_registry d) \<and>
        (d_server d \<noteq> None \<longleftrightarrow> d_running d) \<and> (\<not> d_running d \<longrightarrow> d_scraper d = None) \<and>
        (case d_server d of None \<Rightarrow> True | Some s \<Rightarrow> limiter_inv (srv_limiter s)) \<and>
        (case d_scraper d of None \<Rightarrow> True | Some s \<Rightarrow> sched_inv (with_registry (d_registry d) s)))"

lemma sched_inv_registry: "sched_inv (with_registry r s) \<Longrightarrow> wf_registry r' \<Longrightarrow> sched_inv (with_registry r' s)"
  by (simp add: sched_inv_def with_registry_def load_def flying_def)

lemma initialize_wf:
  assumes "initialize env d = (ok, d', msgs)" "sound_config (d_config d)" "wf_registry (d_registry d)"
  shows "wf_registry (d_registry d')"
proof -
  have "list_all wf_spec (config_metrics (d_config d))" using assms(2) by (simp add: sound_config_def list_all_iff)
  then have r: "wf_registry (snd (register_all (config_metrics (d_config d)) (registry_clear r)))" for r
    by (intro wf_register_all) simp_all
  have "wf_registry (d_registry (fst (snd (initialize env d))))"
    using assms(3) r snapshot_load_wf [OF r]
    by (simp add: initialize_def Let_def case_prod_beta split: option.split)
  with assms(1) show ?thesis by simp
qed

lemma start_scraper_inv:
  assumes "start_scraper env d = (True, Some s)" "d_scraper d = None" "wf_registry (d_registry d)"
  shows "sched_inv (with_registry (d_registry d) s)"
proof -
  let ?s = "Scheduler_new (map (\<lambda>t. (t, clock_now env)) (scrape_targets (d_config d))) (d_registry d) 0"
  have ne: "scrape_targets (d_config d) \<noteq> []" and s: "s = snd (scheduler_start (processors env) ?s)"
    using assms(1,2) by (auto simp: start_scraper_def split: if_splits prod.splits)
  have "sched_init s"
    unfolding sched_init_def s using ne assms(3) by blast
  then have "sched_inv s" by (rule sched_inv_init)
  moreover have "with_registry (d_registry d) s = s"
    by (simp add: s with_registry_def scheduler_start_def Scheduler_new_def)
  ultimately show ?thesis by simp
qed

lemma start_registry:
  assumes "start env cred d = (ok, d', cred', msgs)" "sound_config (d_config d)" "wf_registry (d_registry d)"
  shows "d_config d' = d_config d \<and> wf_registry (d_registry d')"
proof -
  obtain ok1 d1 msgs0 where i: "initialize env d = (ok1, d1, msgs0)" by (metis prod_cases3)
  note f = initialize_frame [OF i] and wf = initialize_wf [OF i assms(2,3)]
  have "d_config (fst (snd (start env cred d))) = d_config d1 \<and> d_registry (fst (snd (start env cred d))) = d_registry d1"
    by (simp add: start_def i Let_def split: prod.split bool.split)
  with f wf assms(1) show ?thesis by simp
qed

lemma daemon_inv_start:
  assumes "daemon_inv (d, fs)" "\<not> d_running d" "start env cred d = (ok, d', cred', msgs)"
  shows "daemon_inv (d', fs')"
proof -
  have d: "d_server d = None" "d_scraper d = None" "sound_config (d_config d)" "wf_registry (d_registry d)"
    using assms(1,2) by (auto simp: daemon_inv_def)
  show ?thesis
  proof (cases ok)
    case False
    then have "start env cred d = (False, d', cred', msgs)" using assms(3) by simp
    note f = start_False [OF this d(1,2)] 
    have "d_config d' = d_config d \<and> wf_registry (d_registry d')"
      using start_registry [OF assms(3) d(3,4)] .
    with f assms(2) d(3) show ?thesis by (simp add: daemon_inv_def)
  next
    case True
    then have "start env cred d = (True, d', cred', msgs)" using assms(3) by simp
    then obtain d1 server scraper snapshot msgs0 where i: "initialize env d = (True, d1, msgs0)"
      and server: "server_start (server_of (d_config d1) (d_tls d1)) (listener_port (bind_tries env)) = (True, server)"
      and scraper: "start_scraper env d1 = (True, scraper)"
      and d': "d' = d1\<lparr>d_server := Some server, d_scraper := scraper, d_snapshot := snapshot, d_running := True\<rparr>"
      by (rule start_True)
    note f = initialize_frame [OF i] and wf = initialize_wf [OF i d(3,4)]
    have "limiter_inv (srv_limiter server)" using server_start_frame [OF server] by simp
    moreover have "case scraper of None \<Rightarrow> True | Some s \<Rightarrow> sched_inv (with_registry (d_registry d1) s)"
      using scraper start_scraper_inv [of env d1, OF _ _ wf] f d(2) by (auto split: option.split)
    ultimately show ?thesis using d f wf by (cases scraper) (simp_all add: daemon_inv_def d')
  qed
qed

lemma daemon_inv_stop:
  assumes "daemon_inv (d, fs)" "list_all wf_op late" "stop outcome late fs d = (d', fs', msgs)"
  shows "daemon_inv (d', fs')"
proof -
  have "d_config d' = d_config d" "d_server d' = None" "d_scraper d' = None" "\<not> d_running d'"
    and r: "d_registry d' = d_registry d \<or> d_registry d' = registry_run (d_registry d) late"
    using assms(3) by (auto simp: stop_def Let_def split: prod.splits)
  moreover have "wf_registry (d_registry d')"
    using r assms(1,2) by (auto simp: daemon_inv_def wf_registry_run)
  ultimately show ?thesis using assms(1) by (simp add: daemon_inv_def)
qed

lemma daemon_inv_serve:
  assumes "daemon_inv (d, fs)" "d_server d = Some s" "accept_turn s (d_registry d) now conn = (s', r', reply)"
  shows "daemon_inv (d\<lparr>d_server := Some s', d_registry := r'\<rparr>, fs)"
proof -
  have wf: "wf_registry r'"
    using accept_turn_wf [of "d_registry d" s now conn] assms by (simp add: daemon_inv_def)
  have "limiter_inv (srv_limiter s)" using assms(1,2) by (simp add: daemon_inv_def)
  then have "limiter_inv (new_limiter (handleClient s r now peer es))" for r peer es
    using limiter_inv_allow [of "srv_limiter s"]
    by (simp add: handleClient_eq Let_def case_prod_beta split: option.split)
  then have "limiter_inv (srv_limiter s')"
    using assms(3) \<open>limiter_inv (srv_limiter s)\<close>
    by (cases conn) (auto simp: accept_turn_def Let_def split: if_splits)
  with wf assms(1,2) sched_inv_registry [OF _ wf] show ?thesis
    by (auto simp: daemon_inv_def split: option.splits)
qed

lemma daemon_inv_scrape:
  assumes "daemon_inv (d, fs)" "d_scraper d = Some s" "sched_step (with_registry (d_registry d) s) s'"
  shows "daemon_inv (d\<lparr>d_scraper := Some s', d_registry := sch_registry s'\<rparr>, fs)"
proof -
  have "sched_inv s'"
    using sched_inv_step [OF _ assms(3)] assms(1,2) by (simp add: daemon_inv_def)
  moreover have "with_registry (sch_registry s') s' = s'" by (simp add: with_registry_def)
  ultimately show ?thesis
    using assms(1,2) by (auto simp: daemon_inv_def sched_inv_def)
qed

lemma daemon_init_new: "sound_config c \<Longrightarrow> daemon_init (MetricDaemon_new c tls logger, fs)"
  unfolding daemon_init_def by simp blast

lemma daemon_inv_init: "daemon_init st \<Longrightarrow> daemon_inv st"
  by (cases st) (auto simp: daemon_init_def daemon_inv_def MetricDaemon_new_def)

lemma daemon_inv_step:
  assumes "daemon_inv st" "daemon_step st st'"
  shows "daemon_inv st'"
  using assms(2)
proof (cases rule: daemon_step.cases)
  case (starting d env fs cred ok d' cred' msgs)
  with assms(1) daemon_inv_start [of d fs env cred ok d' cred' msgs fs] show ?thesis by simp
next
  case (serving d s now conn s' r' reply fs)
  with assms(1) daemon_inv_serve [of d fs s now conn s' r' reply] show ?thesis by simp
next
  case (scraping d s s' fs)
  with assms(1) daemon_inv_scrape [of d fs s s'] show ?thesis by simp
next
  case (saving d s outcome fs ok fs' msgs)
  with assms(1) show ?thesis by (simp add: daemon_inv_def)
next
  case (stopping late outcome fs d d' fs' msgs)
  with assms(1) daemon_inv_stop [of d fs late outcome d' fs' msgs] show ?thesis by simp
qed

interpretation daemon: invariant_system daemon_init daemon_step daemon_inv
  by unfold_locales (rule daemon_inv_init, assumption, rule daemon_inv_step)

subsection \<open>Restarting from a snapshot\<close>

lemma initialize_loads:
  assumes "initialize env d = (True, d', msgs)" "\<not> d_initialized d" "snapshot_file (d_config d) \<noteq> []"
  shows "\<exists>r0. d_registry d' = fst (snd (snapshot_load
    (SnapshotStore_new (snapshot_file (d_config d)) (snapshot_interval_sec (d_config d))) (files env) r0))"
proof -
  have "fst (initialize env d) \<longrightarrow> (\<exists>r0. d_registry (fst (snd (initialize env d))) = fst (snd (snapshot_load
    (SnapshotStore_new (snapshot_file (d_config d)) (snapshot_interval_sec (d_config d))) (files env) r0)))"
    using assms(2,3) by (simp add: initialize_def Let_def case_prod_beta split: option.split) blast
  with assms(1) show ?thesis by simp
qed

lemma stop_saves:
  assumes "stop Save_Succeeds late fs d = (d', fs', msgs)" "d_snapshot d = Some s" "snap_running s" "snap_path s \<noteq> []"
  shows "fs' (snap_path s) = Some (snapshot_text (d_registry d))"
  using assms by (auto simp: stop_def snapshot_stop_def snapshot_save_def Let_def)

subsection \<open>A start with the default configuration\<close>

definition example_surroundings :: "string \<Rightarrow> surroundings" where
  "example_surroundings snapshot =
     \<lparr>cert_loads = False, key_loads = False, ca_loads = False, files = [''/s'' \<mapsto> snapshot], sockets_start = True,
      bind_tries = [\<lparr>try_socket = Some 3, try_listens = True, try_port = Some 19100\<rparr>], users = Map.empty,
      setgid_works = False, setuid_works = False, processors = 1, clock_now = 0\<rparr>"

definition example_credentials :: credentials where
  "example_credentials = \<lparr>user_id = 0, group_id = 0, extra_groups = [0]\<rparr>"

definition example_start :: "TlsContext \<Rightarrow> bool \<times> MetricDaemon \<times> credentials \<times> log_messages" where
  "example_start tls = start (example_surroundings []) example_credentials (MetricDaemon_new MetricConfig_new tls Logger_new)"

lemma validate_default [simp]: "validate MetricConfig_new" "validate (MetricConfig_new\<lparr>snapshot_file := file\<rparr>)"
  by (simp_all add: validate_def validateDetailed_def MetricConfig_new_def parseLogLevel_def lowerCopy_def tolower_def Let_def)

lemma example_initialize:
  "initialize env (MetricDaemon_new MetricConfig_new tls logger) =
     (True, (MetricDaemon_new MetricConfig_new tls (setLevel logger Info))\<lparr>d_initialized := True\<rparr>, [])"
  by (simp add: initialize_def Let_def MetricDaemon_new_def validate_default [unfolded MetricConfig_new_def]
      configure_logger_def tls_failure_def tls_enabled_def MetricConfig_new_def parseLogLevel_def lowerCopy_def
      tolower_def registry_clear_def registry_empty_def)

lemma example_start_ok: "fst (example_start tls)"
  unfolding example_start_def start_def example_initialize
  by (simp add: example_surroundings_def listener_port_def bindAndListen_def
      listener_close_def TcpListener_new_def server_start_def dropPrivileges_def start_scraper_def start_snapshot_def
      MetricDaemon_new_def MetricConfig_new_def Let_def)

lemma example_start_eq: "start (example_surroundings []) example_credentials (MetricDaemon_new MetricConfig_new tls Logger_new) =
    (True, fst (snd (example_start tls)), fst (snd (snd (example_start tls))), snd (snd (snd (example_start tls))))"
  using example_start_ok [of tls] by (simp add: example_start_def prod_eq_iff)

lemma example_reachable:
  "reachable daemon_init daemon_step (fst (snd (example_start tls)), [''/s'' \<mapsto> []])"
proof (rule reachable_step)
  show "reachable daemon_init daemon_step (MetricDaemon_new MetricConfig_new tls Logger_new, [''/s'' \<mapsto> []])"
    by (intro reachable_init daemon_init_new sound_config_new)
  show "daemon_step (MetricDaemon_new MetricConfig_new tls Logger_new, [''/s'' \<mapsto> []]) (fst (snd (example_start tls)), [''/s'' \<mapsto> []])"
    by (rule starting [OF _ _ example_start_eq]) (simp_all add: MetricDaemon_new_def example_surroundings_def)
qed

subsection \<open>Properties\<close>

text \<open>C12: Whatever the daemon goes through -- starts, clients, scrapes, saves and stops in any order, with
  any answers of the network and the system -- its registry stays well formed, it has a server exactly
  while it runs, its limiter never admits a client beyond the limit of its window, and without running it
  scrapes nothing.\<close>

theorem daemon_stays_sound:
  assumes "reachable daemon_init daemon_step (d, fs)"
  shows "wf_registry (d_registry d) \<and> (d_server d \<noteq> None \<longleftrightarrow> d_running d) \<and>
    (case d_server d of None \<Rightarrow> d_scraper d = None | Some s \<Rightarrow> limiter_inv (srv_limiter s))"
  using daemon.reachable_inv [OF assms] by (auto simp: daemon_inv_def split: option.splits)

theorem daemon_stays_sound_witness:
  "wf_registry (d_registry (fst (snd (example_start (TlsContext_new False False False)))))"
  using daemon_stays_sound [OF example_reachable] by simp

text \<open>C32: A start that fails -- an invalid configuration, a refused metric, a certificate, the sockets, the
  address, the privileges -- says why and leaves no server and no scheduler behind.\<close>

theorem failed_start_leaves_nothing:
  assumes "start env cred (MetricDaemon_new c tls logger) = (False, d, cred', msgs)"
  shows "d_server d = None \<and> d_scraper d = None \<and> \<not> d_running d \<and> (\<exists>m. (Error, m) \<in> set msgs)"
  using start_False [OF assms] by (simp add: MetricDaemon_new_def)

theorem failed_start_leaves_nothing_witness:
  "let (ok, d, cred, msgs) = start (example_surroundings []) example_credentials
     (MetricDaemon_new (MetricConfig_new\<lparr>listen_address := []\<rparr>) (TlsContext_new False False False) Logger_new)
   in \<not> ok \<and> d_server d = None"
proof -
  have "\<not> validate (MetricConfig_new\<lparr>listen_address := []\<rparr>)"
    by (simp add: validate_def validateDetailed_def MetricConfig_new_def Let_def)
  then have s: "start (example_surroundings []) example_credentials
      (MetricDaemon_new (MetricConfig_new\<lparr>listen_address := []\<rparr>) (TlsContext_new False False False) Logger_new) =
      (False, MetricDaemon_new (MetricConfig_new\<lparr>listen_address := []\<rparr>) (TlsContext_new False False False) Logger_new,
       example_credentials, [(Error, ''invalid configuration'')])"
    by (simp add: start_def initialize_def MetricDaemon_new_def)
  from failed_start_leaves_nothing [OF s] s show ?thesis by simp
qed

text \<open>C31: The metrics of a valid configuration without TLS and snapshot are registered all or the daemon does not
  start: it starts exactly when every specification is usable and no name occurs twice, which the
  validation of the configuration does not look at, and then every metric is in the registry as specified.\<close>

theorem initialize_registers_all:
  assumes "validate c" "\<not> tls_enabled c" "snapshot_file c = []"
    and "initialize env (MetricDaemon_new c tls logger) = (ok, d, msgs)"
  shows "(ok \<longleftrightarrow> list_all accepted_spec (config_metrics c) \<and> distinct (map spec_name (config_metrics c))) \<and>
    (ok \<longrightarrow> (\<forall>spec \<in> set (config_metrics c). registry_find (d_registry d) (spec_name spec) = Some (metric_of spec)))"
proof -
  let ?d = "MetricDaemon_new c tls logger"
  have nd: "\<not> d_initialized ?d" "d_config ?d = c" by (simp_all add: MetricDaemon_new_def)
  have ok: "ok \<longleftrightarrow> fst (register_all (config_metrics c) registry_empty) = None"
    and reg: "d_registry d = snd (register_all (config_metrics c) registry_empty)"
    using initialize_plain [of ?d env] assms nd by simp_all
  have "registry_find (d_registry d) (spec_name spec) = Some (metric_of spec)"
    if ok and spec: "spec \<in> set (config_metrics c)" for spec
  proof -
    have "distinct (map fst (rev (map (\<lambda>spec. (spec_name spec, metric_of spec)) (config_metrics c))))"
      using \<open>ok\<close> ok by (simp add: register_all_iff rev_map [symmetric] o_def)
    then show ?thesis
      using \<open>ok\<close> ok spec by (auto simp: reg find_register_all intro!: map_of_is_SomeI)
  qed
  then show ?thesis using ok by (simp add: register_all_iff)
qed

theorem initialize_registers_all_witness:
  "fst (testConfig (MetricDaemon_new (MetricConfig_new\<lparr>config_metrics := [empty_spec\<lparr>spec_name := ''a'', spec_type := ''gauge''\<rparr>,
       empty_spec\<lparr>spec_name := ''a'', spec_type := ''counter''\<rparr>]\<rparr>) (TlsContext_new False False False) Logger_new)) \<and>
   \<not> fst (initialize (example_surroundings []) (MetricDaemon_new (MetricConfig_new\<lparr>config_metrics := [empty_spec\<lparr>spec_name := ''a'',
       spec_type := ''gauge''\<rparr>, empty_spec\<lparr>spec_name := ''a'', spec_type := ''counter''\<rparr>]\<rparr>)
     (TlsContext_new False False False) Logger_new))"
  (is "fst (testConfig ?d) \<and> \<not> fst (initialize ?env ?d)")
proof
  let ?c = "d_config ?d"
  have v: "validateDetailed ?c = (True, [])"
    by (simp add: MetricDaemon_new_def validateDetailed_def MetricConfig_new_def parseLogLevel_def lowerCopy_def tolower_def Let_def)
  then show "fst (testConfig ?d)" by (simp add: testConfig_def)
  have "validate ?c" using v by (simp add: validate_def)
  moreover have "\<not> tls_enabled ?c" "snapshot_file ?c = []"
    by (simp_all add: MetricDaemon_new_def tls_enabled_def MetricConfig_new_def)
  ultimately show "\<not> fst (initialize ?env ?d)"
    using initialize_registers_all [of ?c ?env "TlsContext_new False False False" Logger_new "fst (initialize ?env ?d)"
        "fst (snd (initialize ?env ?d))" "snd (snd (initialize ?env ?d))"]
    by (simp add: MetricDaemon_new_def)
qed

text \<open>C13: Restart: a daemon that is stopped while its snapshot store runs, with the write succeeding, leaves a file
  from which the next start puts back every counter and gauge it had when \<open>stop\<close> was called, whatever the
  configuration registers first. It holds for metrics whose strings the line format can carry (\<open>snapshot_safe\<close>: no
  white space in name and labels, no number sign, no line break, no \<open>key=\<close> inside the help) and whose values can be
  read back. What the scheduler and the server store after \<open>stop\<close> was called is lost.\<close>

theorem restart_restores_scalars:
  assumes "d_snapshot d = Some s" "snap_running s" "snap_path s \<noteq> []"
    and "wf_registry (d_registry d)" "list_all snapshot_safe (registry_list (d_registry d))"
    and "registry_find (d_registry d) name = Some m" "metric_type m \<noteq> Histogram"
    and "stop Save_Succeeds late fs d = (d1, fs', msgs1)"
    and "initialize env (MetricDaemon_new c tls logger) = (True, d2, msgs2)" "snapshot_file c = snap_path s" "files env = fs'"
  shows "\<exists>m'. registry_find (d_registry d2) name = Some m' \<and> metric_ident m' = metric_ident m \<and>
    metric_value m' = reread_value (metric_value m)"
proof -
  let ?s = "SnapshotStore_new (snapshot_file c) (snapshot_interval_sec c)"
  obtain r0 where r0: "d_registry d2 = fst (snd (snapshot_load ?s (files env) r0))"
    using initialize_loads [OF assms(9)] assms(3,10) by (auto simp: MetricDaemon_new_def)
  have path: "snap_path ?s = snap_path s" by (simp add: SnapshotStore_new_def assms(10))
  have saved: "files env (snap_path ?s) = Some (snapshot_text (d_registry d))"
    using stop_saves [OF assms(8,1,2,3)] by (simp add: assms(11) path)
  have ne: "snap_path ?s \<noteq> []" using path assms(3) by simp
  show ?thesis
    using load_snapshot_find [where fs = "files env", OF assms(4,5) ne saved assms(6)] metric_of_snapshot_scalar [OF assms(7)]
      wf_registry_find [OF assms(4,6)] by (auto simp: r0)
qed

theorem restart_restores_scalars_witness:
  "let m = GaugeObj \<lparr>g_name = ''temp'', g_help = ''degrees outside'', g_labels = ''site=a'', g_value = DFin True 20\<rparr>;
       d = (MetricDaemon_new MetricConfig_new (TlsContext_new False False False) Logger_new)\<lparr>d_registry := \<lparr>metrics = [(''temp'', m)]\<rparr>,
         d_snapshot := Some (SnapshotStore_new ''/s'' 60\<lparr>snap_running := True\<rparr>), d_running := True\<rparr>;
       env = (example_surroundings [])\<lparr>files := fst (snd (stop Save_Succeeds [] Map.empty d))\<rparr>;
       c = MetricConfig_new\<lparr>snapshot_file := ''/s''\<rparr>
   in \<exists>m'. registry_find (d_registry (fst (snd (initialize env (MetricDaemon_new c (TlsContext_new False False False) Logger_new))))) ''temp'' =
        Some m' \<and> metric_value m' = DFin True 20"
proof -
  let ?m = "GaugeObj \<lparr>g_name = ''temp'', g_help = ''degrees outside'', g_labels = ''site=a'', g_value = DFin True 20\<rparr>"
  let ?r = "\<lparr>metrics = [(''temp'', ?m)]\<rparr>" and ?s = "SnapshotStore_new ''/s'' 60\<lparr>snap_running := True\<rparr>"
  let ?d = "(MetricDaemon_new MetricConfig_new (TlsContext_new False False False) Logger_new)\<lparr>d_registry := ?r,
         d_snapshot := Some ?s, d_running := True\<rparr>"
  let ?env = "(example_surroundings [])\<lparr>files := fst (snd (stop Save_Succeeds [] Map.empty ?d))\<rparr>"
  let ?c = "MetricConfig_new\<lparr>snapshot_file := ''/s''\<rparr>"
  let ?n = "MetricDaemon_new ?c (TlsContext_new False False False) Logger_new"
  have s: "d_snapshot ?d = Some ?s" "snap_running ?s" "snap_path ?s \<noteq> []" by (simp_all add: SnapshotStore_new_def)
  have wf: "wf_registry (d_registry ?d)" by (simp add: wf_registry_def wf_double_numeral del: wf_double.simps)
  have safe: "list_all snapshot_safe (registry_list (d_registry ?d))"
    using readable_whole [of 20 True]
    by (simp add: registry_list_def snapshot_safe_def key_free_code isspace_def trimmed_def)
  have find: "registry_find (d_registry ?d) ''temp'' = Some ?m" "metric_type ?m \<noteq> Histogram"
    by (simp_all add: registry_find_def)
  have stop: "stop Save_Succeeds [] Map.empty ?d = (fst (stop Save_Succeeds [] Map.empty ?d),
      fst (snd (stop Save_Succeeds [] Map.empty ?d)), snd (snd (stop Save_Succeeds [] Map.empty ?d)))" by simp
  have "fst (initialize ?env ?n)"
    using validate_default(2) [of "''/s''"]
    by (simp add: initialize_def Let_def MetricDaemon_new_def case_prod_beta tls_failure_def tls_enabled_def MetricConfig_new_def)
  then have init: "initialize ?env ?n = (True, fst (snd (initialize ?env ?n)), snd (snd (initialize ?env ?n)))"
    by (simp add: prod_eq_iff)
  have c: "snapshot_file ?c = snap_path ?s" "files ?env = fst (snd (stop Save_Succeeds [] Map.empty ?d))"
    by (simp_all add: SnapshotStore_new_def)
  show ?thesis
    using restart_restores_scalars [OF s wf safe find stop init c] reread_value_whole [of 20 True]
    by (auto simp: Let_def)
qed

text \<open>C40: A daemon built with TLS demands it always: its server shakes hands with every client even when the
  configuration names no certificate, so a plain client is closed without an answer and without effect.\<close>

theorem tls_build_always_handshakes:
  assumes "start env cred (MetricDaemon_new c (TlsContext_new True True server_made) logger) = (True, d, cred', msgs)"
  shows "\<exists>server. d_server d = Some server \<and>
    accept_turn server (d_registry d) now (Client False p es) = (server, d_registry d, None)"
proof -
  from assms obtain d1 server scraper snapshot msgs0
    where i: "initialize env (MetricDaemon_new c (TlsContext_new True True server_made) logger) = (True, d1, msgs0)"
      and server: "server_start (server_of (d_config d1) (d_tls d1)) (listener_port (bind_tries env)) = (True, server)"
      and d: "d = d1\<lparr>d_server := Some server, d_scraper := scraper, d_snapshot := snapshot, d_running := True\<rparr>"
    by (rule start_True)
  have "srv_tls server"
    using server_start_frame [OF server] initialize_frame [OF i]
    by (simp add: MetricDaemon_new_def TlsContext_new_def tls_active_def)
  then show ?thesis by (simp add: d accept_turn_def)
qed

theorem tls_build_always_handshakes_witness:
  "\<exists>server. d_server (fst (snd (example_start (TlsContext_new True True True)))) = Some server \<and>
     snd (snd (accept_turn server (d_registry (fst (snd (example_start (TlsContext_new True True True))))) 0
       (Client False ''10.0.0.1:80'' [Chunk (get_request ''h'' ''/healthz'')]))) = None"
  using tls_build_always_handshakes [OF example_start_eq, where now = 0 and p = "''10.0.0.1:80''"
      and es = "[Chunk (get_request ''h'' ''/healthz'')]" and server_made = True]
  by (elim exE conjE) (intro exI conjI, assumption, simp)

text \<open>C33: Privileges: a daemon that has started runs as the configured user and that user's group, or as
  whoever started it when no user is configured; and a start that fails before the user is known
  changes nothing. In every case the process keeps the supplementary groups it was started with.\<close>

theorem started_as_configured_user:
  assumes "start env cred d = (ok, d', cred', msgs)"
  shows "extra_groups cred' = extra_groups cred \<and>
    (ok \<longrightarrow> (if run_as_user (d_config d) = [] then cred' = cred
            else \<exists>uid gid. users env (run_as_user (d_config d)) = Some (uid, gid) \<and>
              cred' = cred\<lparr>user_id := uid, group_id := gid\<rparr>)) \<and>
    (run_as_user (d_config d) \<noteq> [] \<longrightarrow> users env (run_as_user (d_config d)) = None \<longrightarrow> \<not> ok \<and> cred' = cred)"
proof -
  define user where "user = run_as_user (d_config d)"
  obtain ok1 d1 msgs0 where i: "initialize env d = (ok1, d1, msgs0)" by (metis prod_cases3)
  have config: "d_config d1 = d_config d" using initialize_frame [OF i] by simp
  have drop: "cred' = cred \<and> \<not> ok \<or>
      dropPrivileges user (users env) (setgid_works env) (setuid_works env) cred = (True, cred') \<or>
      dropPrivileges user (users env) (setgid_works env) (setuid_works env) cred = (False, cred') \<and> \<not> ok"
    using assms by (auto simp: start_def i config user_def Let_def split: prod.splits bool.splits if_splits)
  then show ?thesis
    unfolding user_def [symmetric]
    by (auto simp: dropPrivileges_def Let_def split: if_splits option.splits)
qed

theorem started_as_configured_user_witness:
  "let env = (example_surroundings [])\<lparr>users := [''metrics'' \<mapsto> (1000, 1000)]\<rparr>;
       d = MetricDaemon_new (MetricConfig_new\<lparr>run_as_user := ''metrics''\<rparr>) (TlsContext_new False True True) Logger_new;
       cred = \<lparr>user_id = 0, group_id = 0, extra_groups = [0, 6]\<rparr>
   in extra_groups (fst (snd (snd (start env cred d)))) = [0, 6]"
proof -
  let ?env = "(example_surroundings [])\<lparr>users := [''metrics'' \<mapsto> (1000, 1000)]\<rparr>"
  let ?d = "MetricDaemon_new (MetricConfig_new\<lparr>run_as_user := ''metrics''\<rparr>) (TlsContext_new False True True) Logger_new"
  let ?cred = "\<lparr>user_id = 0, group_id = 0, extra_groups = [0, 6]\<rparr>"
  obtain ok d' cred' msgs where s: "start ?env ?cred ?d = (ok, d', cred', msgs)" by (metis prod.exhaust)
  from started_as_configured_user [OF s] show ?thesis by (simp add: s Let_def)
qed

end
