(* ===== verification/Cli.thy ===== *)
theory Cli
  imports Daemon
begin

section \<open>The two programs (cli/common.cpp, metricctl.cpp, simple-metricd.cpp, platform.cpp)\<close>

text \<open>
  The client \<^verbatim>\<open>metricctl\<close> and the daemon's \<^verbatim>\<open>main\<close>: their arguments, what they print and their
  exit codes. The files, the network, the surroundings of a start and the TLS context are arguments.
  An exception of the configuration loader is not caught and ends the process.
\<close>

subsection \<open>Common texts\<close>

datatype platform = Windows | MacOS | FreeBSD | Linux | OtherBSD

fun platformName :: "platform \<Rightarrow> string" where
  "platformName Windows = ''Windows''"
| "platformName MacOS = ''macOS''"
| "platformName FreeBSD = ''FreeBSD''"
| "platformName Linux = ''Linux''"
| "platformName OtherBSD = ''Unknown''"

definition kProjectName :: string where
  "kProjectName = ''simple-metricd''"

definition kDescription :: string where
  "kDescription = ''Simple Metrics Daemon - A lightweight Prometheus-style metrics daemon''"

definition printVersion :: "string \<Rightarrow> platform \<Rightarrow> string" where
  "printVersion program p = unlines [program @ '' '' @ kVersion, kDescription, ''Platform: '' @ platformName p]"

subsection \<open>The client's arguments\<close>

record ClientOptions =
  config_path :: string
  command :: string
  show_help :: bool
  show_version :: bool
  parse_error :: bool

definition ClientOptions_new :: ClientOptions where
  "ClientOptions_new = \<lparr>config_path = [], command = ''list'', show_help = False, show_version = False, parse_error = False\<rparr>"

text \<open>The options of both programs.\<close>

definition is_help :: "string \<Rightarrow> bool" where
  "is_help arg \<longleftrightarrow> arg = ''--help'' \<or> arg = ''-h''"

definition is_version :: "string \<Rightarrow> bool" where
  "is_version arg \<longleftrightarrow> arg = ''--version'' \<or> arg = ''-v''"

definition is_config :: "string \<Rightarrow> bool" where
  "is_config arg \<longleftrightarrow> arg = ''--config'' \<or> arg = ''-c''"

definition is_test_config :: "string \<Rightarrow> bool" where
  "is_test_config arg \<longleftrightarrow> arg = ''--test-config''"

definition is_word :: "string \<Rightarrow> bool" where
  "is_word arg \<longleftrightarrow> arg \<noteq> [] \<and> hd arg \<noteq> CHR ''-''"

fun parse_args :: "string list \<Rightarrow> ClientOptions \<Rightarrow> ClientOptions" where
  "parse_args [] opts = opts"
| "parse_args (arg # rest) opts =
     (if is_help arg then parse_args rest (opts\<lparr>show_help := True\<rparr>)
      else if is_version arg then parse_args rest (opts\<lparr>show_version := True\<rparr>)
      else if is_test_config arg then parse_args rest (opts\<lparr>command := ''test-config''\<rparr>)
      else if is_config arg then
        (case rest of
           [] \<Rightarrow> opts\<lparr>parse_error := True\<rparr>
         | path # rest' \<Rightarrow> parse_args rest' (opts\<lparr>config_path := path\<rparr>))
      else if is_word arg then parse_args rest (opts\<lparr>command := arg\<rparr>)
      else parse_args rest (opts\<lparr>parse_error := True\<rparr>))"

definition parseClientArgs :: "string list \<Rightarrow> ClientOptions" where
  "parseClientArgs args = parse_args args ClientOptions_new"

definition printClientUsage :: string where
  "printClientUsage = unlines
     [''Usage: metricctl [OPTIONS] COMMAND'', [],
      ''Options:'',
      ''  --help, -h           Show this help message'',
      ''  --version, -v        Show version information'',
      ''  --config, -c FILE    Use specified configuration file'',
      ''  --test-config        Validate configuration and exit'', [],
      ''Commands:'',
      ''  list                 List configured metrics from a config file'',
      ''  scrape               GET /metrics from the configured listen address'',
      ''  test-config          Validate configuration and exit'']"

subsection \<open>The client\<close>

text \<open>What a run leaves: the exit code, the output of \<^verbatim>\<open>main\<close> itself, and the messages logged.\<close>

record cli_result =
  exit_code :: nat
  printed :: string
  errors_out :: string
  cli_log :: log_messages

definition exits :: "nat \<Rightarrow> string \<Rightarrow> string \<Rightarrow> log_messages \<Rightarrow> std_exn + cli_result" where
  "exits code out err msgs = Inr \<lparr>exit_code = code, printed = out, errors_out = err, cli_log = msgs\<rparr>"

definition list_line :: "Metric \<Rightarrow> string" where
  "list_line m = metric_name m @ '' '' @ toString (metric_type m) @ '' '' @ show_double (metric_value m)"

definition list_metrics :: "MetricRegistry \<Rightarrow> string" where
  "list_metrics registry = unlines (map list_line (sorted_metrics registry))"

definition scrape_host :: "MetricConfig \<Rightarrow> string" where
  "scrape_host c = (if listen_address c = ''0.0.0.0'' \<or> listen_address c = ''::'' then ''127.0.0.1'' else listen_address c)"

definition print_scrape :: "HttpResponse \<Rightarrow> std_exn + cli_result" where
  "print_scrape response =
     (if status response \<noteq> 200 then
        exits 1 [] (''scrape failed'' @
          (if resp_error response \<noteq> [] then '': '' @ resp_error response
           else '' (HTTP '' @ show_int (status response) @ '')'') @ [newline]) []
      else exits 0 (body response @ (if body response \<noteq> [] \<and> last (body response) \<noteq> newline then [newline] else [])) [] [])"

definition run_command :: "surroundings \<Rightarrow> TlsContext \<Rightarrow> (string \<Rightarrow> port_t \<Rightarrow> string \<Rightarrow> http_link) \<Rightarrow> string \<Rightarrow> MetricConfig \<Rightarrow> std_exn + cli_result" where
  "run_command env tls network cmd c =
     (let daemon = MetricDaemon_new c tls Logger_new in
      if cmd = ''test-config'' then
        (case testConfig daemon of (ok, msgs) \<Rightarrow> exits (if ok then 0 else 1) [] [] msgs)
      else if cmd = ''list'' then
        (case initialize env daemon of
           (ok, daemon', msgs) \<Rightarrow>
             if \<not> ok then exits 1 [] (''failed to register metrics from configuration'' @ [newline]) msgs
             else exits 0 (list_metrics (d_registry daemon')) [] msgs)
      else if cmd = ''scrape'' then
        (if \<not> sockets_start env then exits 1 [] (''failed to initialize sockets'' @ [newline]) []
         else print_scrape (httpGet network (scrape_host c) (listen_port c) ''/metrics''))
      else exits 2 [] (''unknown command: '' @ cmd @ [newline]) [])"

definition metricctl :: "platform \<Rightarrow> surroundings \<Rightarrow> TlsContext \<Rightarrow> (string \<Rightarrow> port_t \<Rightarrow> string \<Rightarrow> http_link) \<Rightarrow> string list \<Rightarrow> std_exn + cli_result" where
  "metricctl p env tls network args =
     (let opts = parseClientArgs args in
      if parse_error opts then exits 1 printClientUsage [] []
      else if show_help opts then exits 0 printClientUsage [] []
      else if show_version opts then exits 0 (printVersion ''metricctl'' p) [] []
      else if config_path opts = [] then exits 1 [] (command opts @ '' requires --config'' @ [newline]) []
      else case loadFromFile (files env (config_path opts)) MetricConfig_new of
        Inl e \<Rightarrow> Inl e
      | Inr (loaded, c) \<Rightarrow>
          if \<not> loaded then exits 1 [] (''failed to load configuration'' @ [newline]) []
          else run_command env tls network (command opts) c)"

subsection \<open>The daemon's main\<close>

definition printUsage :: string where
  "printUsage = unlines
     [''Usage: simple-metricd [OPTIONS] [COMMAND]'', [],
      ''Options:'',
      ''  --help, -h           Show this help message'',
      ''  --version, -v        Show version information'',
      ''  --config, -c FILE    Use specified configuration file'',
      ''  --foreground, -f     Run in the foreground'',
      ''  --daemon, -d         Run as a daemon (not yet implemented)'',
      ''  --test-config        Validate configuration and exit'', [],
      ''Commands:'',
      ''  start                Start the metrics daemon'',
      ''  stop                 Stop the metrics daemon (not implemented)'',
      ''  reload               Reload configuration (not implemented)'']"

text \<open>The loop over the arguments ends the program at once, or leaves the configuration, the command and
  the test flag. Options that are not known are ignored.\<close>

datatype args_outcome = Args_Exit nat string string | Args MetricConfig string bool

definition is_foreground :: "string \<Rightarrow> bool" where
  "is_foreground arg \<longleftrightarrow> arg = ''--foreground'' \<or> arg = ''-f''"

definition is_daemon :: "string \<Rightarrow> bool" where
  "is_daemon arg \<longleftrightarrow> arg = ''--daemon'' \<or> arg = ''-d''"

fun main_args :: "platform \<Rightarrow> file_system \<Rightarrow> string list \<Rightarrow> MetricConfig \<Rightarrow> string \<Rightarrow> bool \<Rightarrow> std_exn + args_outcome" where
  "main_args p fs [] c cmd test = Inr (Args c cmd test)"
| "main_args p fs (arg # rest) c cmd test =
     (if is_help arg then Inr (Args_Exit 0 printUsage [])
      else if is_version arg then Inr (Args_Exit 0 (printVersion kProjectName p) [])
      else if is_config arg then
        (case rest of
           [] \<Rightarrow> Inr (Args_Exit 1 [] (''failed to load configuration'' @ [newline]))
         | path # rest' \<Rightarrow>
             (case loadFromFile (fs path) c of
                Inl e \<Rightarrow> Inl e
              | Inr (loaded, c') \<Rightarrow>
                  if \<not> loaded then Inr (Args_Exit 1 [] (''failed to load configuration'' @ [newline]))
                  else main_args p fs rest' c' cmd test))
      else if is_foreground arg then main_args p fs rest (c\<lparr>foreground := True\<rparr>) cmd test
      else if is_daemon arg then main_args p fs rest (c\<lparr>foreground := False\<rparr>) cmd test
      else if is_test_config arg then main_args p fs rest c cmd True
      else if is_word arg then main_args p fs rest c arg test
      else main_args p fs rest c cmd test)"

text \<open>The program ends with an exit code, or serves with a started daemon until a signal, and then stops
  it and exits with 0.\<close>

datatype main_outcome = Main_Exit nat string string log_messages | Main_Serves MetricDaemon credentials log_messages

definition daemon_main :: "platform \<Rightarrow> surroundings \<Rightarrow> credentials \<Rightarrow> TlsContext \<Rightarrow> string list \<Rightarrow> std_exn + main_outcome" where
  "daemon_main p env cred tls args =
     (case main_args p (files env) args MetricConfig_new ''start'' False of
        Inl e \<Rightarrow> Inl e
      | Inr (Args_Exit code out err) \<Rightarrow> Inr (Main_Exit code out err [])
      | Inr (Args c cmd test) \<Rightarrow>
          (let daemon = MetricDaemon_new c tls Logger_new in
           if test \<or> cmd = ''test'' then
             (case testConfig daemon of (ok, msgs) \<Rightarrow> Inr (Main_Exit (if ok then 0 else 1) [] [] msgs))
           else if cmd = ''stop'' \<or> cmd = ''reload'' then
             Inr (Main_Exit 2 [] (cmd @ '' is not implemented in this skeleton'' @ [newline]) [])
           else case start env cred daemon of
             (ok, daemon', cred', msgs) \<Rightarrow>
               if \<not> ok then Inr (Main_Exit 1 [] [] msgs)
               else Inr (Main_Serves daemon' cred' (msgs @
                 (if \<not> foreground c then [(Warning, ''daemonize is not implemented; staying in the foreground'')] else [])))))"

subsection \<open>What a rejected configuration prevents\<close>

lemma testConfig_iff: "fst (testConfig d) \<longleftrightarrow> validate (d_config d)"
  by (simp add: testConfig_def validate_def case_prod_beta split: bool.split)

lemma start_needs_valid:
  assumes "\<not> validate (d_config d)" "\<not> d_initialized d"
  shows "start env cred d = (False, d, cred, [(Error, ''invalid configuration'')])"
  using assms by (simp add: start_def initialize_def)

lemma main_args_Nil: "main_args p fs [] c cmd test = Inr (Args c cmd test)"
  by simp

lemma main_args_config:
  "loadFromFile (fs path) c = Inr (True, c') \<Longrightarrow>
     main_args p fs (''--config'' # path # rest) c cmd test = main_args p fs rest c' cmd test"
  by (simp add: is_help_def is_version_def is_config_def)

lemma main_args_test: "main_args p fs [''--test-config''] c cmd test = Inr (Args c cmd True)"
  by (simp add: is_help_def is_version_def is_config_def is_foreground_def is_daemon_def is_test_config_def)

subsection \<open>What a scrape prints\<close>

lemma last_unlines: "unlines ls \<noteq> [] \<Longrightarrow> last (unlines ls) = newline"
  by (induction ls rule: rev_induct) (simp_all add: unlines_def)

lemma print_scrape_exposition:
  "print_scrape \<lparr>status = 200, body = renderPrometheusText r True, resp_error = []\<rparr> =
     Inr \<lparr>exit_code = 0, printed = renderPrometheusText r True, errors_out = [], cli_log = []\<rparr>"
  using last_unlines by (auto simp: print_scrape_def exits_def render_unlines)

lemma clean_loopback: "clean_host ''127.0.0.1''"
  by (simp add: clean_host_def)

subsection \<open>Properties\<close>

text \<open>C29: \<open>metricctl scrape\<close> against a running daemon prints the exposition of the daemon's registry, byte for
  byte, and exits with 0: the configuration names the daemon's address, the policy permits a plain
  request and the limiter admits it, and TCP may cut request and reply in any way.\<close>

theorem metricctl_scrape_prints:
  assumes "parseClientArgs args = \<lparr>config_path = path, command = ''scrape'', show_help = False, show_version = False, parse_error = False\<rparr>"
    and "path \<noteq> []" "loadFromFile (files env path) MetricConfig_new = Inr (True, c)" "sockets_start env" "clean_host (scrape_host c)"
    and "rx_bytes es_in = get_request (scrape_host c) ''/metrics''"
    and "acl_permits (srv_acl s) peer ''/metrics'' []" "fst (limiter_allow (srv_limiter s) peer now)"
    and "length (renderPrometheusText r True) \<le> 1024 * 1024"
    and "sent (handleClient s r now peer es_in) = Some (rx_bytes es_out)"
    and "network (scrape_host c) (listen_port c) (get_request (scrape_host c) ''/metrics'') = Answers es_out"
  shows "metricctl p env tls network args =
    Inr \<lparr>exit_code = 0, printed = renderPrometheusText r True, errors_out = [], cli_log = []\<rparr>"
proof -
  have "httpGet network (scrape_host c) (listen_port c) ''/metrics'' =
      \<lparr>status = 200, body = renderPrometheusText r True, resp_error = []\<rparr>"
    using metrics_exchange [where network = network and host = "scrape_host c" and port = "listen_port c", OF assms(5-11)]
    by simp
  then show ?thesis
    using assms(2-4) by (simp add: metricctl_def assms(1) run_command_def print_scrape_exposition)
qed

theorem metricctl_scrape_prints_witness:
  "let out = handleClient (MetricsServer_new ''0.0.0.0'' 19100) registry_empty 0 ''127.0.0.1:4000''
         [Chunk (get_request ''127.0.0.1'' ''/metrics'')]
   in metricctl Linux (example_surroundings []) (TlsContext_new False False False)
        (\<lambda>h p r. Answers [Chunk (the (sent out))]) [''-c'', ''/s'', ''scrape''] =
      Inr \<lparr>exit_code = 0, printed = [], errors_out = [], cli_log = []\<rparr>"
proof -
  let ?s = "MetricsServer_new ''0.0.0.0'' 19100" and ?es = "[Chunk (get_request ''127.0.0.1'' ''/metrics'')]"
  let ?out = "handleClient ?s registry_empty 0 ''127.0.0.1:4000'' ?es" and ?env = "example_surroundings []"
  have args: "parseClientArgs [''-c'', ''/s'', ''scrape''] =
      \<lparr>config_path = ''/s'', command = ''scrape'', show_help = False, show_version = False, parse_error = False\<rparr>"
    by (simp add: parseClientArgs_def ClientOptions_new_def is_help_def is_version_def is_test_config_def is_config_def is_word_def)
  have load: "loadFromFile (files ?env ''/s'') MetricConfig_new = Inr (True, MetricConfig_new)"
    by (simp add: example_surroundings_def loadFromFile_def)
  have sock: "sockets_start ?env" by (simp add: example_surroundings_def)
  have h: "scrape_host MetricConfig_new = ''127.0.0.1''" by (simp add: scrape_host_def MetricConfig_new_def)
  have host: "clean_host (scrape_host MetricConfig_new)" unfolding h by (rule clean_loopback)
  have permit: "acl_permits (srv_acl ?s) ''127.0.0.1:4000'' ''/metrics'' []"
    by (simp add: MetricsServer_new_def AclPolicy_new_def acl_permits_def ipAllowed_def authOk_def)
  have admit: "fst (limiter_allow (srv_limiter ?s) ''127.0.0.1:4000'' 0)"
    by (simp add: MetricsServer_new_def RateLimiter_new_def limiter_allow_def)
  have empty: "renderPrometheusText registry_empty True = []"
    by (simp add: renderPrometheusText_def sorted_metrics_def registry_list_def registry_empty_def)
  have "clean_path ''/metrics''" by (simp add: clean_path_def isspace_def)
  then have "read_request ?es = Some \<lparr>req_method = ''GET'', req_path = ''/metrics'', req_authorization = [], req_body = []\<rparr>"
    by (intro read_request_get [OF clean_loopback]) simp_all
  then have "sent ?out \<noteq> None" by (simp add: handleClient_eq case_prod_beta Let_def)
  then show ?thesis
    using metricctl_scrape_prints [OF args _ load sock host _ permit admit, where es_in = ?es and r = registry_empty
        and es_out = "[Chunk (the (sent ?out))]" and network = "\<lambda>h p r. Answers [Chunk (the (sent ?out))]"
        and p = Linux and tls = "TlsContext_new False False False"]
    by (simp add: h empty Let_def)
qed

text \<open>A configuration that \<open>simple-metricd --test-config\<close> rejects never serves: the same command line
  without the option exits with 1, has started nothing and has kept its privileges as they were.\<close>

lemma rejected_config_never_serves:
  assumes "daemon_main p env cred tls [''--config'', path, ''--test-config''] = Inr (Main_Exit 1 [] [] msgs)"
    and "loadFromFile (files env path) MetricConfig_new = Inr (True, c)"
  shows "daemon_main p env cred tls [''--config'', path] = Inr (Main_Exit 1 [] [] [(Error, ''invalid configuration'')])"
proof -
  let ?d = "MetricDaemon_new c tls Logger_new"
  have test: "main_args p (files env) [''--config'', path, ''--test-config''] MetricConfig_new ''start'' False = Inr (Args c ''start'' True)"
    and plain: "main_args p (files env) [''--config'', path] MetricConfig_new ''start'' False = Inr (Args c ''start'' False)"
    unfolding main_args_config [where fs = "files env" and path = path, OF assms(2)] by (rule main_args_test, rule main_args_Nil)
  have "\<not> fst (testConfig ?d)"
    using assms(1) unfolding daemon_main_def test by (auto simp: case_prod_beta)
  then have "\<not> validate (d_config ?d)" by (simp add: testConfig_iff)
  then have "start env cred ?d = (False, ?d, cred, [(Error, ''invalid configuration'')])"
    by (rule start_needs_valid) (simp add: MetricDaemon_new_def)
  then show ?thesis unfolding daemon_main_def plain by simp
qed

end
