(* ===== verification/Target_Life.thy ===== *)
theory Target_Life
  imports Scheduler
begin

section \<open>The life cycle of the targets (scrape/scheduler.cpp)\<close>

text \<open>
  What the dispatcher and its pool are for, as an abstract machine: targets wait, line up when they are due,
  are scraped by a crew of fixed size in the order of the line, and wait again. Every step of the
  scheduler is one of its steps, or changes nothing that the machine shows.
\<close>

subsection \<open>The life of a target\<close>

text \<open>The abstract machine: a crew, a line of targets that wait for it in order, and for every target a phase, the
  time at which it is due and its period. At any time of the clock the waiting targets that are due, all of them,
  line up in the order of their indices; a free member of the crew takes the first of the line; an active
  target ends, waits again and is due one period later. When none is active the machine can halt: the crew goes
  home, the targets in the line are dropped, and nothing happens any more.\<close>

datatype phase = Waiting | Queued | Active | Dropped

record life =
  crew :: nat
  halted :: bool
  line :: "nat list"
  stage :: "phase list"
  due_at :: "time_point list"
  period :: "time_point list"

definition life_init :: "life \<Rightarrow> bool" where
  "life_init l \<longleftrightarrow> 0 < crew l \<and> \<not> halted l \<and> line l = [] \<and> set (stage l) \<subseteq> {Waiting}"

definition ready :: "time_point \<Rightarrow> life \<Rightarrow> nat list" where
  "ready now l = filter (\<lambda>i. stage l ! i = Waiting \<and> sint (due_at l ! i) \<le> sint now) [0..<length (stage l)]"

definition line_up :: "nat list \<Rightarrow> phase list \<Rightarrow> phase list" where
  "line_up js ps = map (\<lambda>i. if i \<in> set js then Queued else ps ! i) [0..<length ps]"

definition actives :: "phase list \<Rightarrow> nat" where
  "actives ps = length (filter (\<lambda>p. p = Active) ps)"

inductive life_step :: "life \<Rightarrow> life \<Rightarrow> bool" where
  become_due: "\<not> halted l \<Longrightarrow>
    life_step l (l\<lparr>line := line l @ ready now l, stage := line_up (ready now l) (stage l)\<rparr>)"
| begin_scrape: "\<not> halted l \<Longrightarrow> line l = i # q \<Longrightarrow> i < length (stage l) \<Longrightarrow> stage l ! i = Queued \<Longrightarrow>
    actives (stage l) < crew l \<Longrightarrow> life_step l (l\<lparr>line := q, stage := (stage l)[i := Active]\<rparr>)"
| end_scrape: "\<not> halted l \<Longrightarrow> i < length (stage l) \<Longrightarrow> stage l ! i = Active \<Longrightarrow>
    life_step l (l\<lparr>stage := (stage l)[i := Waiting], due_at := (due_at l)[i := now + period l ! i]\<rparr>)"
| drop_queued: "\<not> halted l \<Longrightarrow> Active \<notin> set (stage l) \<Longrightarrow>
    life_step l (l\<lparr>crew := 0, halted := True, line := [], stage := map (\<lambda>p. if p = Queued then Dropped else p) (stage l)\<rparr>)"

definition phase_of :: "Scheduler \<Rightarrow> nat \<Rightarrow> phase" where
  "phase_of s i =
     (if list_ex (holds i) (workers s) then Active
      else if i \<in> set (queue s) then Queued
      else if in_flight (targets s ! i) then Dropped
      else Waiting)"

definition phases :: "Scheduler \<Rightarrow> phase list" where
  "phases s = map (phase_of s) [0..<length (targets s)]"

lemma phases_nth [simp]: "i < length (targets s) \<Longrightarrow> phases s ! i = phase_of s i"
  by (simp add: phases_def)

lemma length_phases [simp]: "length (phases s) = length (targets s)"
  by (simp add: phases_def)

lemma holders: "length (filter (holds i) (workers s)) = 0 \<longleftrightarrow> \<not> list_ex (holds i) (workers s)"
  by (auto simp: list_ex_iff filter_empty_conv)

lemma phase_of_load:
  assumes "load s i = of_bool (flying s i)" "i < length (targets s)"
  shows "phase_of s i =
    (if \<not> in_flight (targets s ! i) then Waiting else if i \<in> set (queue s) then Queued else Active)"
proof -
  have q: "count_list (queue s) i = 0 \<longleftrightarrow> i \<notin> set (queue s)" by (rule count_list_0_iff)
  show ?thesis
  proof (cases "in_flight (targets s ! i)")
    case True
    with assms have "count_list (queue s) i + length (filter (holds i) (workers s)) = 1"
      by (simp add: load_def flying_def)
    then have "i \<in> set (queue s) \<longleftrightarrow> \<not> list_ex (holds i) (workers s)"
      unfolding holders [symmetric] using q by linarith
    then show ?thesis using True by (auto simp: phase_of_def)
  next
    case False
    with assms have "count_list (queue s) i + length (filter (holds i) (workers s)) = 0"
      by (simp add: load_def flying_def)
    then show ?thesis using False q holders [of i s] by (simp add: phase_of_def)
  qed
qed

lemma phases_cong:
  "targets t = targets s \<Longrightarrow> queue t = queue s \<Longrightarrow> (\<And>i. list_ex (holds i) (workers t) = list_ex (holds i) (workers s)) \<Longrightarrow>
     phases t = phases s"
  by (simp add: phases_def phase_of_def)

lemma list_ex_wake [simp]: "list_ex (holds i) (map wake ws) = list_ex (holds i) ws"
  by (simp add: list_ex_iff)

lemma list_ex_update_same:
  "w < length ws \<Longrightarrow> (P y \<longleftrightarrow> P (ws ! w)) \<Longrightarrow> list_ex P (ws[w := y]) = list_ex P ws"
  by (auto simp: list_ex_length nth_list_update)

lemma phases_worker:
  assumes "worker_at s w x" "\<And>i. holds i y = holds i x" "targets t = targets s" "queue t = queue s"
    "workers t = (workers s)[w := y]"
  shows "phases t = phases s"
  using assms by (intro phases_cong) (simp_all add: worker_at_def list_ex_update_same)

text \<open>The scheduler seen as such a machine.\<close>

definition target_period :: "TargetState \<Rightarrow> time_point" where
  "target_period t = word_of_int (max 1 (target_interval_sec (ts_target t)) * 1000000000)"

definition life_of :: "Scheduler \<Rightarrow> life" where
  "life_of s = \<lparr>crew = length (workers s), halted = (stopping s = Stopped), line = queue s, stage = phases s,
     due_at = map next_due (targets s), period = map target_period (targets s)\<rparr>"

lemma life_of_cong:
  "phases t = phases s \<Longrightarrow> targets t = targets s \<Longrightarrow> length (workers t) = length (workers s) \<Longrightarrow> queue t = queue s \<Longrightarrow>
     (stopping t = Stopped) = (stopping s = Stopped) \<Longrightarrow> life_of t = life_of s"
  by (simp add: life_of_def)

lemma life_of_worker:
  assumes "worker_at s w x" "\<And>i. holds i y = holds i x" "targets t = targets s" "queue t = queue s"
    "workers t = (workers s)[w := y]" "stopping t = stopping s"
  shows "life_of t = life_of s"
  using assms by (intro life_of_cong phases_worker [OF assms(1,2)]) simp_all

subsection \<open>Step by step\<close>

lemma life_dispatch:
  assumes "sched_inv s" "dispatching s = Loop_Body"
  shows "life_step (life_of s) (life_of ((dispatch_turn now s)\<lparr>workers := map wake (workers s)\<rparr>))"
proof -
  let ?t = "(dispatch_turn now s)\<lparr>workers := map wake (workers s)\<rparr>"
  let ?js = "filter (\<lambda>j. due now (targets s ! j)) [0..<length (targets s)]"
  have ns: "stopping s \<noteq> Stopped" using assms by (auto simp: sched_inv_def)
  have lt: "load ?t i = of_bool (flying ?t i)" for i
    using sched_invD [OF sched_inv_dispatch [OF assms], of now i] ns by (simp add: dispatch_turn_eq)
  note ps = phase_of_load [OF sched_invD [OF assms(1) ns]] and pt = phase_of_load [OF lt]
  have "phases ?t = line_up ?js (phases s)"
  proof (rule nth_equalityI)
    fix i assume "i < length (phases ?t)"
    then have i: "i < length (targets s)" "i < length (targets ?t)" by (simp_all add: dispatch_turn_eq)
    from ps [OF i(1)] pt [OF i(2)] i show "phases ?t ! i = line_up ?js (phases s) ! i"
      by (auto simp: line_up_def dispatch_turn_eq mark_due_def due_def)
  qed (simp add: line_up_def dispatch_turn_eq)
  moreover have "ready now (life_of s) = ?js"
    using ps by (auto simp: ready_def life_of_def due_def intro!: filter_cong split: if_splits)
  ultimately have "life_of ?t = (life_of s)\<lparr>line := line (life_of s) @ ready now (life_of s),
      stage := line_up (ready now (life_of s)) (stage (life_of s))\<rparr>"
    by (simp add: life_of_def dispatch_turn_eq target_period_def mark_due_def if_distrib cong: if_cong)
  with become_due [of "life_of s" now] ns show ?thesis by (simp add: life_of_def)
qed

text \<open>A worker that waits holds nothing, so fewer targets are active than there are workers.\<close>

fun held :: "worker \<Rightarrow> nat option" where
  "held (Scraping j) = Some j"
| "held (Merging j specs) = Some j"
| "held (Finishing j) = Some j"
| "held w = None"

lemma holds_held: "holds i w \<longleftrightarrow> held w = Some i"
  by (cases w) auto

lemma actives_phases: "actives (phases s) \<le> length (List.map_filter held (workers s))"
proof -
  have "actives (phases s) = card {i. i < length (targets s) \<and> phase_of s i = Active}"
    unfolding actives_def phases_def filter_map length_map by (subst length_filter_conv_card) (auto intro!: arg_cong [where f = card])
  also have "\<dots> \<le> card (set (List.map_filter held (workers s)))"
    by (intro card_mono) (fastforce simp: phase_of_def list_ex_iff holds_held List.map_filter_def image_iff split: if_splits)+
  also have "\<dots> \<le> length (List.map_filter held (workers s))" by (rule card_length)
  finally show ?thesis .
qed

lemma map_filter_less: "x \<in> set xs \<Longrightarrow> f x = None \<Longrightarrow> length (List.map_filter f xs) < length xs"
  by (simp add: List.map_filter_def) (rule length_filter_less; simp)

lemma life_take:
  assumes "sched_inv s" "worker_at s w At_Wait" "queue s = i # q"
  shows "life_step (life_of s) (life_of (set_worker w (Scraping i) (s\<lparr>queue := q\<rparr>)))"
proof -
  let ?t = "set_worker w (Scraping i) (s\<lparr>queue := q\<rparr>)"
  note ns = worker_not_stopped [OF assms(1,2)]
  have li: "load s i = of_bool (flying s i)" by (rule sched_invD [OF assms(1) ns])
  have fi: "i < length (targets s)" "in_flight (targets s ! i)" "i \<notin> set q"
    using li assms(3) by (cases "flying s i"; auto simp: load_def flying_def count_list_0_iff)+
  have lt: "load ?t j = of_bool (flying ?t j)" for j
    using sched_invD [OF sched_inv_take [OF assms]] ns by simp
  have "phases ?t = (phases s)[i := Active]"
  proof (rule nth_equalityI)
    fix j assume "j < length (phases ?t)"
    then have j: "j < length (targets s)" "j < length (targets ?t)" by simp_all
    show "phases ?t ! j = (phases s)[i := Active] ! j"
      using phase_of_load [OF lt j(2)] phase_of_load [OF sched_invD [OF assms(1) ns] j(1)] j fi assms(3)
      by (auto simp: nth_list_update)
  qed simp
  then have "life_of ?t = (life_of s)\<lparr>line := q, stage := (stage (life_of s))[i := Active]\<rparr>"
    by (simp add: life_of_def set_worker_def)
  moreover have "phases s ! i = Queued" using phase_of_load [OF li fi(1)] fi assms(3) by simp
  moreover have "actives (phases s) < length (workers s)"
    using assms(2) by (intro le_less_trans [OF actives_phases] map_filter_less [of At_Wait]) (auto simp: worker_at_def in_set_conv_nth)
  ultimately show ?thesis using begin_scrape [of "life_of s" i q] fi(1) ns assms(3) by (simp add: life_of_def)
qed

lemma life_finish:
  assumes "sched_inv s" "worker_at s w (Finishing i)"
  shows "life_step (life_of s) (life_of (set_worker w At_Wait (hand_back i now s)))"
proof -
  let ?t = "set_worker w At_Wait (hand_back i now s)"
  note ns = worker_not_stopped [OF assms(1,2)]
  have fi: "i < length (targets s)" "in_flight (targets s ! i)"
    using held_flying [OF assms, of i] by (simp_all add: flying_def)
  have lt: "load ?t j = of_bool (flying ?t j)" for j
    using sched_invD [OF sched_inv_finish [OF assms]] ns by simp
  have ex: "phase_of s i = Active" using assms(2) by (auto simp: phase_of_def worker_at_def list_ex_length)
  have "phases ?t = (phases s)[i := Waiting]"
  proof (rule nth_equalityI)
    fix j assume "j < length (phases ?t)"
    then have j: "j < length (targets s)" "j < length (targets ?t)" by simp_all
    have "in_flight (targets ?t ! j) \<longleftrightarrow> in_flight (targets s ! j) \<and> j \<noteq> i"
      using fi j by (auto simp: hand_back_def Let_def nth_list_update)
    then show "phases ?t ! j = (phases s)[i := Waiting] ! j"
      using phase_of_load [OF lt j(2)] phase_of_load [OF sched_invD [OF assms(1) ns] j(1)] j
      by (cases "j = i") (auto simp: nth_list_update)
  qed simp
  then have "life_of ?t = (life_of s)\<lparr>stage := (stage (life_of s))[i := Waiting],
      due_at := (due_at (life_of s))[i := now + period (life_of s) ! i]\<rparr>"
    using fi(1) by (simp add: life_of_def hand_back_def Let_def map_update target_period_def set_worker_def
        list_eq_iff_nth_eq nth_list_update)
  with end_scrape [of "life_of s" i now] fi ex ns show ?thesis by (simp add: life_of_def)
qed

lemma life_joined:
  assumes "sched_inv s" "set (workers s) \<subseteq> {Returned}" "stopping s = Joining"
  shows "life_step (life_of s) (life_of (s\<lparr>stopping := Stopped, workers := [], queue := []\<rparr>))"
proof -
  let ?t = "s\<lparr>stopping := Stopped, workers := [], queue := []\<rparr>"
  have ns: "stopping s \<noteq> Stopped" using assms(3) by simp
  have nh: "\<not> list_ex (holds i) (workers s)" for i using assms(2) by (auto simp: list_ex_iff)
  have "phases ?t = map (\<lambda>p. if p = Queued then Dropped else p) (phases s)"
  proof (rule nth_equalityI)
    fix i assume "i < length (phases ?t)"
    then have i: "i < length (targets s)" by simp
    show "phases ?t ! i = map (\<lambda>p. if p = Queued then Dropped else p) (phases s) ! i"
      using phase_of_load [OF sched_invD [OF assms(1) ns] i] i nh [of i] by (auto simp: phase_of_def)
  qed simp
  then have "life_of ?t = (life_of s)\<lparr>crew := 0, halted := True, line := [],
      stage := map (\<lambda>p. if p = Queued then Dropped else p) (stage (life_of s))\<rparr>"
    by (simp add: life_of_def)
  moreover have "Active \<notin> set (phases s)" using nh by (auto simp: phases_def phase_of_def)
  ultimately show ?thesis using drop_queued [of "life_of s"] ns by (simp add: life_of_def)
qed

lemma life_sched_step:
  assumes "sched_inv s" "sched_step s t"
  shows "life_of t = life_of s \<or> life_step (life_of s) (life_of t)"
  using assms(2)
proof (cases rule: sched_step.cases)
  case leave_loop
  then have "life_of t = life_of s" by (intro life_of_cong phases_cong) simp_all
  then show ?thesis ..
next
  case (dispatch_due now)
  with life_dispatch [OF assms(1)] show ?thesis by simp
next
  case (take_target w i q)
  with life_take [OF assms(1)] show ?thesis by simp
next
  case (give_up w)
  then have "life_of t = life_of s" by (intro life_of_worker [OF give_up(2)]) simp_all
  then show ?thesis ..
next
  case (predicate_false w)
  then have "life_of t = life_of s" by (intro life_of_worker [OF predicate_false(2)]) simp_all
  then show ?thesis ..
next
  case (fall_asleep w)
  then have "life_of t = life_of s" by (intro life_of_worker [OF fall_asleep(2)]) simp_all
  then show ?thesis ..
next
  case (scrape_fails w i response)
  then have "life_of t = life_of s" by (intro life_of_worker [OF scrape_fails(2)]) simp_all
  then show ?thesis ..
next
  case (scrape_reads w i response specs)
  then have "life_of t = life_of s" by (intro life_of_worker [OF scrape_reads(2)]) simp_all
  then show ?thesis ..
next
  case (merge_sample w i spec specs)
  then have "life_of t = life_of s" by (intro life_of_worker [OF merge_sample(2)]) simp_all
  then show ?thesis ..
next
  case (merge_done w i)
  then have "life_of t = life_of s" by (intro life_of_worker [OF merge_done(2)]) simp_all
  then show ?thesis ..
next
  case (finish_target w i now)
  with life_finish [OF assms(1)] show ?thesis by simp
next
  case joined
  with life_joined [OF assms(1)] show ?thesis by simp
qed (auto intro!: life_of_cong phases_cong)

lemma life_of_init: "sched_init s \<Longrightarrow> life_init (life_of s)"
proof -
  assume init: "sched_init s"
  then have inv: "sched_inv s" by (rule sched_inv_init)
  have s: "\<forall>t \<in> set (targets s). \<not> in_flight t" "stopping s \<noteq> Stopped" "workers s \<noteq> []" "queue s = []"
    using init by (auto simp: sched_init_def scheduler_start_def Scheduler_new_def TargetState_new_def pool_size_def case_prod_beta)
  have "set (phases s) \<subseteq> {Waiting}"
    using phase_of_load [OF sched_invD [OF inv s(2)]] s(1) by (auto simp: phases_def)
  with s show ?thesis by (simp add: life_init_def life_of_def)
qed

lemma life_process: "sched_inv s \<Longrightarrow> process_step s t \<Longrightarrow> life_of t = life_of s \<or> life_step (life_of s) (life_of t)"
proof -
  assume inv: "sched_inv s" and step: "process_step s t"
  from step show ?thesis
  proof (cases rule: process_step.cases)
    case own_step
    with life_sched_step [OF inv] show ?thesis by blast
  next
    case (registry_call op)
    have "life_of t = life_of s"
      unfolding registry_call(1) by (rule life_of_cong [OF phases_cong]) simp_all
    then show ?thesis ..
  qed
qed

interpretation targets: refined_system sched_init process_step sched_inv life_init life_step life_of
  by unfold_locales (rule life_of_init, assumption, rule life_process)

text \<open>What the machine itself keeps: never more targets are active than the crew has members, no target stands
  in the line twice, the line holds the queued targets and no others, and after the halt nothing is queued or
  active.\<close>

definition life_ok :: "life \<Rightarrow> bool" where
  "life_ok l \<longleftrightarrow> actives (stage l) \<le> crew l \<and> distinct (line l) \<and>
     set (line l) = {i. i < length (stage l) \<and> stage l ! i = Queued} \<and> (halted l \<longrightarrow> Active \<notin> set (stage l))"

lemma actives_map: "(\<And>p. f p = Active \<longleftrightarrow> p = Active) \<Longrightarrow> actives (map f ps) = actives ps"
  by (simp add: actives_def filter_map o_def)

lemma actives_line_up: "\<forall>j \<in> set js. ps ! j \<noteq> Active \<Longrightarrow> actives (line_up js ps) = actives ps"
proof -
  assume js: "\<forall>j \<in> set js. ps ! j \<noteq> Active"
  have "actives (line_up js ps) = length (filter (\<lambda>i. ps ! i = Active) [0..<length ps])"
    using js unfolding actives_def line_up_def filter_map length_map
    by (intro arg_cong [where f = length] filter_cong) auto
  also have "\<dots> = actives (map (\<lambda>i. ps ! i) [0..<length ps])" by (simp add: actives_def filter_map o_def del: map_nth)
  finally show ?thesis by (simp add: map_nth)
qed

lemma actives_update:
  "i < length ps \<Longrightarrow> actives (ps[i := p]) + of_bool (ps ! i = Active) = actives ps + of_bool (p = Active)"
  unfolding actives_def using length_filter_update [of i ps "\<lambda>p. p = Active" p] .

lemma queued_update:
  "i < length ps \<Longrightarrow> p \<noteq> Queued \<Longrightarrow> {j. j < length (ps[i := p]) \<and> ps[i := p] ! j = Queued} = {j. j < length ps \<and> ps ! j = Queued} - {i}"
  by (auto simp: nth_list_update split: if_splits)

lemma life_ok_init: "life_init l \<Longrightarrow> life_ok l"
proof -
  assume "life_init l"
  then have w: "stage l ! i = Waiting" if "i < length (stage l)" for i
    using nth_mem [OF that] by (auto simp: life_init_def)
  then have "Active \<notin> set (stage l)" by (auto simp: in_set_conv_nth)
  then have "actives (stage l) = 0" by (auto simp: actives_def filter_empty_conv)
  moreover have "{i. i < length (stage l) \<and> stage l ! i = Queued} = {}" using w by force
  ultimately show ?thesis using \<open>life_init l\<close> unfolding life_ok_def life_init_def by simp
qed

lemma life_ok_step:
  assumes "life_ok l" "life_step l t"
  shows "life_ok t"
  using assms(2)
proof (cases rule: life_step.cases)
  case (become_due now)
  let ?js = "ready now l" and ?ps = "line_up (ready now l) (stage l)"
  have a: "actives ?ps = actives (stage l)" by (rule actives_line_up) (simp add: ready_def)
  have d: "distinct ?js" by (simp add: ready_def)
  have w: "i < length (stage l) \<and> stage l ! i = Waiting" if "i \<in> set ?js" for i
    using that by (simp add: ready_def)
  have lu: "length ?ps = length (stage l)" "i < length (stage l) \<Longrightarrow> ?ps ! i = (if i \<in> set ?js then Queued else stage l ! i)" for i
    by (simp_all add: line_up_def)
  have q: "set (line l) = {i. i < length (stage l) \<and> stage l ! i = Queued}" using assms(1) by (simp add: life_ok_def)
  have "set (line l @ ?js) = {i. i < length ?ps \<and> ?ps ! i = Queued}" using w q lu by fastforce
  moreover have "distinct (line l @ ?js)" using d w q assms(1) by (force simp: life_ok_def)
  ultimately show ?thesis using become_due a assms(1) by (simp add: life_ok_def)
next
  case (begin_scrape i q)
  have "set q = {j. j < length (stage l) \<and> stage l ! j = Queued} - {i}" and d: "distinct q"
    using begin_scrape(3) assms(1) by (auto simp: life_ok_def)
  note this(1)
  also have "{j. j < length (stage l) \<and> stage l ! j = Queued} - {i} =
      {j. j < length ((stage l)[i := Active]) \<and> (stage l)[i := Active] ! j = Queued}"
    by (rule queued_update [OF begin_scrape(4), symmetric]) simp
  finally have "set q = {j. j < length ((stage l)[i := Active]) \<and> (stage l)[i := Active] ! j = Queued}" .
  with d begin_scrape actives_update [of i "stage l" Active] show ?thesis
    by (simp add: life_ok_def)
next
  case (end_scrape i now)
  have "set (line l) = {j. j < length (stage l) \<and> stage l ! j = Queued} - {i}"
    using end_scrape(4) assms(1) by (auto simp: life_ok_def)
  also have "\<dots> = {j. j < length ((stage l)[i := Waiting]) \<and> (stage l)[i := Waiting] ! j = Queued}"
    by (rule queued_update [OF end_scrape(3), symmetric]) simp
  finally have "set (line l) = {j. j < length ((stage l)[i := Waiting]) \<and> (stage l)[i := Waiting] ! j = Queued}" .
  with assms(1) end_scrape actives_update [of i "stage l" Waiting] show ?thesis
    by (simp add: life_ok_def)
next
  case drop_queued
  then have "actives (map (\<lambda>p. if p = Queued then Dropped else p) (stage l)) = 0"
    by (auto simp: actives_def filter_empty_conv)
  with drop_queued show ?thesis by (auto simp: life_ok_def split: if_splits)
qed

interpretation lifecycle: invariant_system life_init life_step life_ok
  by unfold_locales (rule life_ok_init, assumption, rule life_ok_step)


subsection \<open>Property\<close>

text \<open>C3: The scheduler implements the life cycle of its targets step by step: it starts in an initial state of the
  abstract machine, and whatever step the dispatcher, a worker, the caller of \<open>stop\<close> or another thread takes
  from a reachable state is either invisible or one step of that machine. So all the targets that are due, and only
  they, line up in order; they are scraped in that order, never more of them at once than there are
  workers; a scraped target is due again one interval (at least a second) later; and targets are dropped from
  the queue only when \<open>stop\<close> ends, after which nothing happens.\<close>

theorem scheduler_refines_phases:
  "(\<forall>s. sched_init s \<longrightarrow> life_init (life_of s)) \<and>
   (\<forall>s t. reachable sched_init process_step s \<and> process_step s t \<longrightarrow> life_of t = life_of s \<or> life_step (life_of s) (life_of t)) \<and>
   (\<forall>s. reachable sched_init process_step s \<longrightarrow> life_ok (life_of s))"
  using life_of_init life_process [OF scheduler.reachable_inv] lifecycle.reachable_inv [OF targets.reachable_abs] by blast

text \<open>The only worker takes the only target from the queue.\<close>

definition example_queued :: Scheduler where
  "example_queued = example_scheduler\<lparr>targets := [\<lparr>ts_target = ScrapeTarget_new, next_due = 0, in_flight = True\<rparr>], queue := [0]\<rparr>"

lemma example_queued_reachable: "reachable sched_init process_step example_queued"
proof -
  let ?b = "example_scheduler\<lparr>dispatching := Loop_Body\<rparr>"
  have b: "sched_step example_scheduler ?b" by (rule enter_loop) (simp_all add: example_scheduler_eq)
  have "sched_step ?b ((dispatch_turn 0 ?b)\<lparr>workers := map wake (workers ?b)\<rparr>)"
    by (rule dispatch_due) (simp_all add: example_scheduler_eq mutex_free_def)
  also have "(dispatch_turn 0 ?b)\<lparr>workers := map wake (workers ?b)\<rparr> = example_queued"
    by (simp add: example_scheduler_eq example_queued_def dispatch_turn_def)
  finally show ?thesis by (rule own [OF own [OF example_scheduler_init b]])
qed

lemma example_scheduler_start: "sched_init example_scheduler"
  unfolding sched_init_def example_scheduler_def
  by (rule exI [of _ "[(ScrapeTarget_new, 0)]"], rule exI [of _ 1], rule exI [of _ 1], rule exI [of _ registry_empty]) simp

lemma example_takes: "process_step example_queued example_scraping"
proof (rule own_step)
  have "sched_step example_queued (set_worker 0 (Scraping 0) (example_queued\<lparr>queue := []\<rparr>))"
    by (rule take_target) (simp_all add: example_queued_def example_scheduler_eq worker_at_def mutex_free_def)
  also have "set_worker 0 (Scraping 0) (example_queued\<lparr>queue := []\<rparr>) = example_scraping"
    by (simp add: example_scheduler_eq example_queued_def example_scraping_def set_worker_def)
  finally show "sched_step example_queued example_scraping" .
qed

lemma example_lines: "line (life_of example_queued) = [0]" "line (life_of example_scraping) = []"
  by (simp_all add: life_of_def example_queued_def example_scraping_def example_scheduler_eq)

theorem scheduler_refines_phases_witness:
  "life_init (life_of example_scheduler) \<and> life_step (life_of example_queued) (life_of example_scraping) \<and>
   stage (life_of example_scraping) = [Active]"
proof -
  have "life_of example_scraping \<noteq> life_of example_queued" using example_lines by force
  moreover have "life_of example_scraping = life_of example_queued \<or> life_step (life_of example_queued) (life_of example_scraping)"
    using scheduler_refines_phases example_queued_reachable example_takes by blast
  moreover have "life_init (life_of example_scheduler)"
    using scheduler_refines_phases example_scheduler_start by blast
  moreover have "stage (life_of example_scraping) = [Active]"
    by (simp add: life_of_def phases_def phase_of_def example_scraping_def example_scheduler_eq)
  ultimately show ?thesis by blast
qed

end
