(* ===== verification/Sched_Live.thy ===== *)
theory Sched_Live
  imports Scheduler
begin

section \<open>No target is forgotten (scrape/scheduler.cpp)\<close>

text \<open>
  While nobody calls \<^verbatim>\<open>stop\<close>, the scheduler never reaches a state from which one of its targets cannot
  be scraped any more: wake-ups that were lost, workers that sleep and scrapes that fail do not
  matter, because every turn of the dispatcher wakes the pool again. The proof finishes what the workers
  are doing, lets the dispatcher queue the target, and works the queue off.
\<close>

subsection \<open>The threads of a running scheduler\<close>

text \<open>While the flag is set no thread has ended, and there is a worker.\<close>

definition threads_up :: "Scheduler \<Rightarrow> bool" where
  "threads_up s \<longleftrightarrow> (sch_running s \<longrightarrow> dispatching s \<noteq> Done \<and> workers s \<noteq> [] \<and> Returned \<notin> set (workers s)) \<and>
     (stopping s \<noteq> Not_Called \<longrightarrow> \<not> sch_running s)"

lemma wake_Returned [simp]: "wake w = Returned \<longleftrightarrow> w = Returned"
  by (cases w) simp_all

lemma returned_wake [simp]: "Returned \<in> wake ` set ws \<longleftrightarrow> Returned \<in> set ws"
  by (metis (no_types, lifting) image_iff wake_Returned)

lemma returned_update: "y \<noteq> Returned \<Longrightarrow> Returned \<notin> set ws \<Longrightarrow> Returned \<notin> set (ws[w := y])"
  by (auto dest: set_update_subset_insert [THEN subsetD])

lemma threads_up_step: "threads_up s \<Longrightarrow> process_step s t \<Longrightarrow> threads_up t"
  by (erule process_step.cases; (erule sched_stepE)?)
    (auto simp: threads_up_def dispatch_turn_eq returned_update)

lemma threads_up_init: "sched_init s \<Longrightarrow> threads_up s"
  by (auto simp: sched_init_def threads_up_def scheduler_start_def Scheduler_new_def pool_size_def)

interpretation threads: invariant_system sched_init process_step threads_up
  by unfold_locales (rule threads_up_init, assumption, rule threads_up_step)

subsection \<open>Finishing what the workers do\<close>

definition can_reach :: "(Scheduler \<Rightarrow> bool) \<Rightarrow> Scheduler \<Rightarrow> bool" where
  "can_reach P s \<longleftrightarrow> (\<exists>t. sched_step\<^sup>*\<^sup>* s t \<and> P t)"

lemma can_reach_now: "P s \<Longrightarrow> can_reach P s"
  unfolding can_reach_def by blast

lemma can_reach_step: "sched_step s t \<Longrightarrow> can_reach P t \<Longrightarrow> can_reach P s"
  unfolding can_reach_def by (blast intro: converse_rtranclp_into_rtranclp)

lemma can_reach_mono: "can_reach P s \<Longrightarrow> (\<And>t. sched_step\<^sup>*\<^sup>* s t \<Longrightarrow> P t \<Longrightarrow> can_reach Q t) \<Longrightarrow> can_reach Q s"
  unfolding can_reach_def by (meson rtranclp_trans)

fun idle :: "worker \<Rightarrow> bool" where
  "idle At_Wait \<longleftrightarrow> True"
| "idle Sleeping \<longleftrightarrow> True"
| "idle w \<longleftrightarrow> False"

text \<open>How many steps a worker needs until it waits, when its scrape fails.\<close>

fun effort :: "worker \<Rightarrow> nat" where
  "effort (Scraping i) = 2"
| "effort (Merging i specs) = 2 + length specs"
| "effort (Finishing i) = 1"
| "effort Will_Sleep = 1"
| "effort w = 0"

definition total_effort :: "Scheduler \<Rightarrow> nat" where
  "total_effort s = sum_list (map effort (workers s))"

lemma total_effort_less:
  assumes "worker_at s w x" "effort y < effort x" "workers t = (workers s)[w := y]"
  shows "total_effort t < total_effort s"
proof -
  have "sum_list (map effort ((workers s)[w := y])) + effort x = sum_list (map effort (workers s)) + effort y"
    using assms(1) by (simp add: worker_at_def map_update sum_list_update)
      (metis add.commute elem_le_sum_list le_add_diff_inverse length_map nth_map trans_le_add1 add_diff_assoc2)
  with assms(2,3) show ?thesis by (simp add: total_effort_def)
qed

text \<open>What the steps of a scheduler that is not stopped keep.\<close>

definition calm :: "Scheduler \<Rightarrow> bool" where
  "calm s \<longleftrightarrow> (\<forall>x \<in> set (workers s). idle x)"

definition up :: "Scheduler \<Rightarrow> Scheduler \<Rightarrow> bool" where
  "up s t \<longleftrightarrow> sch_running t \<and> dispatching t = dispatching s \<and> queue t = queue s \<and>
     length (targets t) = length (targets s) \<and> length (workers t) = length (workers s)"

lemma settle_step:
  assumes "sch_running s" "\<not> calm s" "Returned \<notin> set (workers s)"
  obtains t where "sched_step s t" "up s t" "total_effort t < total_effort s" "Returned \<notin> set (workers t)"
proof (cases "mutex_free s")
  case False
  then obtain w where w: "worker_at s w Will_Sleep" by (auto simp: mutex_free_def worker_at_def in_set_conv_nth)
  show thesis
    using assms total_effort_less [OF w, of Sleeping]
    by (intro that [OF fall_asleep [OF w]]) (simp_all add: up_def returned_update)
next
  case True
  obtain w x where w: "worker_at s w x" "\<not> idle x"
    using assms(2) by (auto simp: calm_def worker_at_def in_set_conv_nth)
  have none: "scrape_samples \<lparr>status = 0, body = [], resp_error = []\<rparr> = None" by (simp add: scrape_samples_def)
  show thesis
  proof (cases x)
    case (Scraping i)
    with w have at: "worker_at s w (Scraping i)" by simp
    show thesis
      using assms total_effort_less [OF at, of "Finishing i"]
      by (intro that [OF scrape_fails [OF at none]]) (simp_all add: up_def returned_update)
  next
    case (Merging i specs)
    show thesis
    proof (cases specs)
      case Nil
      with Merging w have at: "worker_at s w (Merging i [])" by simp
      show thesis
        using assms total_effort_less [OF at, of "Finishing i"]
        by (intro that [OF merge_done [OF at]]) (simp_all add: up_def returned_update)
    next
      case (Cons spec rest)
      with Merging w have at: "worker_at s w (Merging i (spec # rest))" by simp
      show thesis
        using assms total_effort_less [OF at, of "Merging i rest"]
        by (intro that [OF merge_sample [OF at]]) (simp_all add: up_def returned_update)
    qed
  next
    case (Finishing i)
    with w have at: "worker_at s w (Finishing i)" by simp
    show thesis
      using assms total_effort_less [OF at, of At_Wait]
      by (intro that [OF finish_target [OF at True, of 0]]) (simp_all add: up_def returned_update)
  next
    case Returned
    with w(1) have "Returned \<in> set (workers s)" by (auto simp: worker_at_def in_set_conv_nth)
    with assms(3) show thesis by simp
  next
    case Will_Sleep
    with w(1) have "Will_Sleep \<in> set (workers s)" by (auto simp: worker_at_def in_set_conv_nth)
    with True show thesis by (simp add: mutex_free_def)
  qed (use w in simp_all)
qed

lemma up_trans: "up s t \<Longrightarrow> up t u \<Longrightarrow> up s u"
  by (simp add: up_def)

lemma settle:
  assumes "sch_running s" "Returned \<notin> set (workers s)"
  shows "can_reach (\<lambda>t. calm t \<and> up s t) s"
  using assms
proof (induction "total_effort s" arbitrary: s rule: less_induct)
  case less
  show ?case
  proof (cases "calm s")
    case True
    with less.prems show ?thesis by (intro can_reach_now) (simp add: up_def)
  next
    case False
    with less.prems obtain t where t: "sched_step s t" "up s t" "total_effort t < total_effort s" "Returned \<notin> set (workers t)"
      by (auto elim: settle_step)
    then have "can_reach (\<lambda>u. calm u \<and> up t u) t" by (intro less.hyps) (simp_all add: up_def)
    then have "can_reach (\<lambda>u. calm u \<and> up s u) t"
      by (rule can_reach_mono) (auto intro: can_reach_now up_trans [OF t(2)])
    with t(1) show ?thesis by (rule can_reach_step)
  qed
qed

subsection \<open>Working the queue off\<close>

text \<open>A running scheduler whose workers have all been woken.\<close>

definition woken :: "Scheduler \<Rightarrow> bool" where
  "woken s \<longleftrightarrow> sch_running s \<and> workers s \<noteq> [] \<and> set (workers s) \<subseteq> {At_Wait}"

definition scrapes :: "nat \<Rightarrow> Scheduler \<Rightarrow> bool" where
  "scrapes i s \<longleftrightarrow> sch_running s \<and> (\<exists>w. worker_at s w (Scraping i))"

lemma work_off:
  assumes "woken s" "i \<in> set (queue s)"
  shows "can_reach (scrapes i) s"
  using assms
proof (induction "length (queue s)" arbitrary: s rule: less_induct)
  case less
  then obtain j q where q: "queue s = j # q" by (cases "queue s") auto
  have at: "worker_at s 0 At_Wait" "mutex_free s" using less.prems(1)
    by (cases "workers s"; auto simp: woken_def worker_at_def mutex_free_def)+
  let ?a = "set_worker 0 (Scraping j) (s\<lparr>queue := q\<rparr>)"
  have a: "sched_step s ?a" by (rule take_target [OF at q])
  have at_a: "worker_at ?a 0 (Scraping j)" using at(1) by (simp add: worker_at_def)
  show ?case
  proof (cases "j = i")
    case True
    with at_a less.prems(1) have "scrapes i ?a" by (auto simp: scrapes_def woken_def)
    with a show ?thesis by (blast intro: can_reach_step can_reach_now)
  next
    case False
    let ?b = "set_worker 0 (Finishing j) (?a\<lparr>failure_count := failure_count ?a + 1\<rparr>)"
    let ?c = "set_worker 0 At_Wait (hand_back j 0 ?b)"
    have none: "scrape_samples \<lparr>status = 0, body = [], resp_error = []\<rparr> = None" by (simp add: scrape_samples_def)
    have b: "sched_step ?a ?b" by (rule scrape_fails [OF at_a none])
    obtain ws where ws: "workers s = At_Wait # ws" "set ws \<subseteq> {At_Wait}"
      using less.prems(1) by (cases "workers s") (auto simp: woken_def)
    have c: "sched_step ?b ?c"
      by (rule finish_target) (use ws in \<open>auto simp: worker_at_def mutex_free_def\<close>)
    have "can_reach (scrapes i) ?c"
      by (rule less.hyps) (use less.prems False ws q in \<open>auto simp: woken_def\<close>)
    with a b c show ?thesis by (blast intro: can_reach_step)
  qed
qed

lemma dispatch_wakes:
  assumes "sched_inv s" "sch_running s" "calm s" "workers s \<noteq> []" "dispatching s \<noteq> Done" "i < length (targets s)"
  shows "can_reach (\<lambda>t. woken t \<and> i \<in> set (queue t)) s"
proof -
  let ?now = "(2 ^ 63 - 1) :: time_point"
  have late: "sint t \<le> sint ?now" for t :: time_point
    using sint_lt [of t] by simp
  have free: "mutex_free s" using assms(3) by (auto simp: calm_def mutex_free_def)
  have ns: "stopping s \<noteq> Stopped" using assms(1,4) by (auto simp: sched_inv_def)
  have "filter (holds i) (workers s) = []"
    using assms(3) unfolding filter_empty_conv calm_def by (metis holds.simps(4-7) idle.elims(2))
  with sched_invD [OF assms(1) ns, of i] have q: "i \<notin> set (queue s) \<Longrightarrow> \<not> in_flight (targets s ! i)"
    using assms(6) by (auto simp: load_def flying_def count_list_0_iff [symmetric])
  have wk: "set (map wake (workers s)) \<subseteq> {At_Wait}"
  proof
    fix x assume "x \<in> set (map wake (workers s))"
    then obtain y where "y \<in> set (workers s)" "x = wake y" by auto
    with assms(3) show "x \<in> {At_Wait}" by (cases y) (auto simp: calm_def)
  qed
  have body: "can_reach (\<lambda>t. woken t \<and> i \<in> set (queue t)) u"
    if "dispatching u = Loop_Body" "u = s\<lparr>dispatching := Loop_Body\<rparr>" for u
  proof (rule can_reach_step [OF dispatch_due [OF that(1), of ?now] can_reach_now])
    show "mutex_free u" using free that(2) by (simp add: mutex_free_def)
    show "woken ((dispatch_turn ?now u)\<lparr>workers := map wake (workers u)\<rparr>) \<and>
        i \<in> set (queue ((dispatch_turn ?now u)\<lparr>workers := map wake (workers u)\<rparr>))"
      using assms(2,4,6) wk q late that(2) by (auto simp: woken_def dispatch_turn_eq due_def)
  qed
  show ?thesis
  proof (cases "dispatching s")
    case Loop_Test
    then have "sched_step s (s\<lparr>dispatching := Loop_Body\<rparr>)" using assms(2) by (rule enter_loop)
    then show ?thesis by (rule can_reach_step) (simp add: body)
  next
    case Loop_Body
    then have "s = s\<lparr>dispatching := Loop_Body\<rparr>" by (cases s) simp
    then show ?thesis using body Loop_Body by blast
  qed (use assms(5) in simp)
qed

subsection \<open>A target that \<open>stop\<close> dropped\<close>

text \<open>In flight, but neither queued nor with a worker.\<close>

definition lost :: "nat \<Rightarrow> Scheduler \<Rightarrow> bool" where
  "lost i s \<longleftrightarrow> i < length (targets s) \<and> in_flight (targets s ! i) \<and> i \<notin> set (queue s) \<and> (\<forall>x \<in> set (workers s). \<not> holds i x)"

lemma lost_worker:
  assumes "lost i s" "\<not> holds i y" "queue t = queue s" "targets t = targets s" "workers t = (workers s)[w := y]"
  shows "lost i t"
  using assms by (auto simp: lost_def dest!: set_update_subset_insert [THEN subsetD])

lemma lost_holder: "lost i s \<Longrightarrow> worker_at s w x \<Longrightarrow> \<not> holds i x"
  by (auto simp: lost_def worker_at_def)

lemma lost_frame:
  "lost i s \<Longrightarrow> queue t = queue s \<Longrightarrow> targets t = targets s \<Longrightarrow> (\<forall>x \<in> set (workers t). holds i x \<longrightarrow> x \<in> set (workers s)) \<Longrightarrow> lost i t"
  by (auto simp: lost_def)

lemma lost_sched_step:
  assumes "lost i s" "sched_step s t"
  shows "lost i t"
  using assms(2)
proof (cases rule: sched_step.cases)
  case (dispatch_due now)
  with assms(1) show ?thesis by (auto simp: lost_def dispatch_turn_eq mark_due_def due_def)
next
  case (take_target w j q)
  have l: "lost i (s\<lparr>queue := q\<rparr>)" "i \<noteq> j" using assms(1) take_target(4) by (auto simp: lost_def)
  show ?thesis unfolding take_target(1) by (rule lost_worker [OF l(1), of "Scraping j"]) (simp_all add: l(2))
next
  case (finish_target w j now)
  with lost_holder [OF assms(1)] have "i \<noteq> j" by fastforce
  with assms(1) have "lost i (hand_back j now s)" by (auto simp: lost_def hand_back_def Let_def)
  then show ?thesis unfolding finish_target(1) by (rule lost_worker) simp_all
next
  case (scrape_fails w j response)
  with lost_holder [OF assms(1) scrape_fails(2)] show ?thesis by (intro lost_worker [OF assms(1), of "Finishing j"]) simp_all
next
  case (scrape_reads w j response specs)
  with lost_holder [OF assms(1) scrape_reads(2)] show ?thesis by (intro lost_worker [OF assms(1), of "Merging j specs"]) simp_all
next
  case (merge_sample w j spec specs)
  with lost_holder [OF assms(1) merge_sample(2)] show ?thesis by (intro lost_worker [OF assms(1), of "Merging j specs"]) simp_all
next
  case (merge_done w j)
  with lost_holder [OF assms(1) merge_done(2)] show ?thesis by (intro lost_worker [OF assms(1), of "Finishing j"]) simp_all
next
  case (give_up w)
  then show ?thesis by (intro lost_worker [OF assms(1), of Returned]) simp_all
next
  case (predicate_false w)
  then show ?thesis by (intro lost_worker [OF assms(1), of Will_Sleep]) simp_all
next
  case (fall_asleep w)
  then show ?thesis by (intro lost_worker [OF assms(1), of Sleeping]) simp_all
qed (use assms(1) in \<open>auto simp: lost_def\<close>)

lemma lost_process: "process_step\<^sup>*\<^sup>* s t \<Longrightarrow> lost i s \<Longrightarrow> lost i t"
proof (induction rule: rtranclp_induct)
  case (step t u)
  note t = step.IH [OF step.prems]
  from step.hyps(2) show ?case
  proof (cases rule: process_step.cases)
    case own_step
    with t show ?thesis by (rule lost_sched_step)
  next
    case (registry_call op)
    with t show ?thesis by (simp add: lost_def)
  qed
qed

lemma lost_restart:
  assumes "sched_inv s" "stopping s = Stopped" "i < length (targets s)" "in_flight (targets s ! i)"
  shows "lost i (snd (scheduler_start hw s))"
  using assms by (auto simp: lost_def sched_inv_def scheduler_start_def)

text \<open>The worker of the example ends before the dispatcher, in its last turn, queues the target.\<close>

definition example_dropped :: Scheduler where
  "example_dropped = example_scheduler\<lparr>targets := [\<lparr>ts_target = ScrapeTarget_new, next_due = 0, in_flight = True\<rparr>],
     sch_running := False, workers := [], dispatching := Done, stopping := Stopped\<rparr>"

lemma example_dropped_reachable: "reachable sched_init process_step example_dropped"
proof -
  let ?a = "example_scheduler\<lparr>dispatching := Loop_Body\<rparr>"
  let ?b = "?a\<lparr>sch_running := False, stopping := Flag_Cleared\<rparr>"
  let ?c = "set_worker 0 Returned ?b"
  let ?d = "?c\<lparr>stopping := Joining, workers := map wake (workers ?c)\<rparr>"
  let ?e = "(dispatch_turn 0 ?d)\<lparr>workers := map wake (workers ?d)\<rparr>"
  let ?f = "?e\<lparr>dispatching := Done, workers := map wake (workers ?e)\<rparr>"
  have "sched_step example_scheduler ?a" by (rule enter_loop) (simp_all add: example_scheduler_eq)
  note a = own [OF example_scheduler_init this]
  have "sched_step ?a ?b" by (rule clear_flag) (simp add: example_scheduler_eq)
  note b = own [OF a this]
  have "sched_step ?b ?c" by (rule give_up) (simp_all add: example_scheduler_eq worker_at_def mutex_free_def)
  note c = own [OF b this]
  have "sched_step ?c ?d" by (rule notify) (simp add: example_scheduler_eq)
  note d = own [OF c this]
  have "sched_step ?d ?e" by (rule dispatch_due) (simp_all add: example_scheduler_eq mutex_free_def)
  note e = own [OF d this]
  have "sched_step ?e ?f" by (rule leave_loop) (simp_all add: example_scheduler_eq dispatch_turn_def)
  note f = own [OF e this]
  have "sched_step ?f (?f\<lparr>stopping := Stopped, workers := [], queue := []\<rparr>)"
    by (rule joined) (simp_all add: example_scheduler_eq dispatch_turn_def)
  also have "?f\<lparr>stopping := Stopped, workers := [], queue := []\<rparr> = example_dropped"
    by (simp add: example_scheduler_eq example_dropped_def dispatch_turn_def set_worker_def)
  finally show ?thesis by (rule own [OF f])
qed

subsection \<open>Properties\<close>

text \<open>C17: As long as \<open>stop\<close> has not been called, every target can still be scraped, from every state that the
  dispatcher, the workers and the other threads of the process can reach: neither a lost wake-up nor a
  failed scrape nor any timing makes the scheduler forget one.\<close>

theorem no_target_is_forgotten:
  assumes "reachable sched_init process_step s" "sch_running s" "i < length (targets s)"
  shows "\<exists>t w. sched_step\<^sup>*\<^sup>* s t \<and> sch_running t \<and> worker_at t w (Scraping i)"
proof -
  have up: "threads_up s" "sched_inv s"
    by (rule threads.reachable_inv [OF assms(1)], rule scheduler.reachable_inv [OF assms(1)])
  then have "can_reach (\<lambda>t. calm t \<and> up s t) s" using assms(2) by (intro settle) (simp_all add: threads_up_def)
  then have "can_reach (\<lambda>t. woken t \<and> i \<in> set (queue t)) s"
  proof (rule can_reach_mono)
    fix t assume t: "sched_step\<^sup>*\<^sup>* s t" "calm t \<and> up s t"
    from t(1) up(2) have "sched_inv t" by (induction rule: rtranclp_induct) (auto intro: sched_inv_step)
    then show "can_reach (\<lambda>t. woken t \<and> i \<in> set (queue t)) t"
      using t(2) up(1) assms(2,3) by (intro dispatch_wakes) (auto simp: up_def threads_up_def)
  qed
  then have "can_reach (scrapes i) s" by (rule can_reach_mono) (blast intro: work_off)
  then show ?thesis unfolding can_reach_def scrapes_def by blast
qed

theorem no_target_is_forgotten_witness:
  "\<exists>t w. sched_step\<^sup>*\<^sup>* (set_worker 0 Sleeping (set_worker 0 Will_Sleep example_scheduler)) t \<and> sch_running t \<and>
     worker_at t w (Scraping 0)"
proof (rule no_target_is_forgotten)
  let ?a = "set_worker 0 Will_Sleep example_scheduler"
  have "sched_step example_scheduler ?a"
    by (rule predicate_false) (simp_all add: example_scheduler_eq worker_at_def mutex_free_def)
  moreover have "sched_step ?a (set_worker 0 Sleeping ?a)"
    by (rule fall_asleep) (simp add: example_scheduler_eq worker_at_def)
  ultimately show "reachable sched_init process_step (set_worker 0 Sleeping ?a)"
    by (intro own [OF own [OF example_scheduler_init]])
qed (simp_all add: example_scheduler_eq)

text \<open>C18: A second start does not bring back what \<open>stop\<close> has dropped: a target that was marked when the queue was
  cleared stays marked, so that no execution after the next \<open>start\<close> ever scrapes it again.\<close>

theorem restart_forgets_dropped_target:
  assumes "reachable sched_init process_step s" "stopping s = Stopped"
    and "i < length (targets s)" "in_flight (targets s ! i)"
    and "process_step\<^sup>*\<^sup>* (snd (scheduler_start hw s)) t"
  shows "in_flight (targets t ! i) \<and> i \<notin> set (queue t) \<and> (\<forall>w. \<not> worker_at t w (Scraping i))"
proof -
  have "lost i t" by (rule lost_process [OF assms(5) lost_restart [OF scheduler.reachable_inv [OF assms(1)] assms(2-4)]])
  then show ?thesis using lost_holder [of i t _ "Scraping i"] by (auto simp: lost_def)
qed

theorem restart_forgets_dropped_target_witness:
  "let s = (snd (scheduler_start 1 example_dropped))\<lparr>dispatching := Loop_Body\<rparr>
   in 0 \<notin> set (queue (dispatch_turn 5 s)) \<and> in_flight (targets (dispatch_turn 5 s) ! 0)"
proof -
  let ?r = "snd (scheduler_start 1 example_dropped)"
  let ?s = "?r\<lparr>dispatching := Loop_Body\<rparr>"
  let ?t = "(dispatch_turn 5 ?s)\<lparr>workers := map wake (workers ?s)\<rparr>"
  have r: "dispatching ?r = Loop_Test" "sch_running ?r" "workers ?r = [At_Wait]"
    by (simp_all add: example_dropped_def example_scheduler_eq scheduler_start_def pool_size_def)
  have "sched_step ?r ?s" using r by (intro enter_loop)
  moreover have "sched_step ?s ?t" using r by (intro dispatch_due) (simp_all add: mutex_free_def)
  ultimately have "process_step\<^sup>*\<^sup>* ?r ?t" by (intro converse_rtranclp_into_rtranclp [OF _ r_into_rtranclp] own_step)
  from restart_forgets_dropped_target [OF example_dropped_reachable _ _ _ this, of 0] show ?thesis
    by (simp add: example_dropped_def Let_def)
qed

end
