(* ===== verification/Reprint.thy ===== *)
theory Reprint
  imports Federation Snapshot
begin

section \<open>What is printed a second time\<close>

text \<open>
  A value loses digits when it is printed with six of them; it loses nothing more when what was
  read back is printed again. So a registry of counters and gauges that went through a scrape or a
  restart serves the same text as the original, byte for byte.
\<close>

subsection \<open>Six digits, read and printed again\<close>

text \<open>A number that is closer to the six digits than a hundredth of the last one has these digits.\<close>

lemma round_half_even_near: "\<bar>q - of_int d\<bar> < 1/2 \<Longrightarrow> round_half_even q = d"
  using round_half_even_error [of q] by linarith

lemma of_int_bounds:
  assumes "10 ^ 5 \<le> d" "d < 10 ^ 6"
  shows "(10 :: rat) ^ 5 \<le> of_int d" "of_int d \<le> (10 ^ 6 - 1 :: rat)"
proof -
  have "of_int (10 ^ 5) \<le> (of_int d :: rat)" using assms(1) unfolding of_int_le_iff .
  then show "(10 :: rat) ^ 5 \<le> of_int d" by simp
  have "of_int d \<le> (of_int (10 ^ 6 - 1) :: rat)" using assms(2) unfolding of_int_le_iff by simp
  then show "of_int d \<le> (10 ^ 6 - 1 :: rat)" by simp
qed

lemma g6_near:
  assumes d: "10 ^ 5 \<le> d" "d < 10 ^ 6" and near: "\<bar>r / 10 powi (x - 5) - of_int d\<bar> \<le> 1 / 100"
  shows "g6 r = (d, x)"
proof -
  define u :: rat where "u = 10 powi (x - 5)"
  define t where "t = r / u"
  have u: "0 < u" by (simp add: u_def)
  have r: "r = t * u" using u by (simp add: t_def)
  have powers: "10 powi x = 10 ^ 5 * u" "10 powi (x + 1) = 10 ^ 6 * u" "10 powi (x - 1) = 10 ^ 4 * u"
      "10 powi (x - 1 - 5) = u / 10"
    by (simp_all add: u_def power_int_diff power_int_add)
  note dr = of_int_bounds [OF d]
  have t: "\<bar>t - of_int d\<bar> \<le> 1 / 100" using near by (simp add: t_def u_def)
  then have td: "of_int d - 1 / 100 \<le> t" "t \<le> of_int d + 1 / 100" unfolding abs_le_iff by linarith+
  have bounds: "10 ^ 5 - 1 / 100 \<le> t" "t < 10 ^ 6" using td dr by linarith+
  show ?thesis
  proof (cases "10 ^ 5 \<le> t")
    case True
    have "ilog 10 r = x"
      using True bounds(2) u by (intro ilog_unique) (simp_all add: powers r)
    moreover have "round_half_even t = d" using t by (intro round_half_even_near) linarith
    ultimately show ?thesis using d(2) by (simp add: g6_def t_def u_def)
  next
    case False
    with td(1) have "of_int d < (10 ^ 5 + 1 :: rat)" by linarith
    then have "of_int d < (of_int (10 ^ 5 + 1) :: rat)" by simp
    then have d5: "d = 10 ^ 5" using d(1) unfolding of_int_less_iff by simp
    have "ilog 10 r = x - 1"
      using False bounds(1) u by (intro ilog_unique) (simp_all add: powers r)
    moreover have "r / 10 powi (x - 1 - 5) = 10 * t" unfolding powers(4) using u by (simp add: r)
    moreover have "round_half_even (10 * t) = 10 ^ 6"
      using td(1) False by (intro round_half_even_near) (simp add: d5 abs_less_iff)
    ultimately show ?thesis by (simp add: g6_def d5)
  qed
qed

text \<open>Rounding a number that is not tiny to a double changes it by little.\<close>

lemma round_mag_near:
  assumes q: "0 < q" and normal: "\<not> dbl_tiny q"
  shows "\<bar>round_mag q - q\<bar> \<le> q / 2 ^ 51"
proof -
  define e where "e = ilog 2 q"
  define u :: rat where "u = 2 powi (e - 52)"
  have u: "0 < u" by (simp add: u_def)
  have q1: "2 ^ 52 * u \<le> q" "q < 2 ^ 53 * u"
    using ilog_bounds [of q 2] q by (simp_all add: u_def e_def power_int_diff power_int_add)
  have "of_int (round_half_even (q / u)) \<le> (2 ^ 53 :: rat)"
  proof -
    have "q / u \<le> of_int (2 ^ 53)" using q1(2) u by (simp add: pos_divide_le_eq)
    then have "round_half_even (q / u) \<le> 2 ^ 53" by (rule round_half_even_le_int)
    then have "(of_int (round_half_even (q / u)) :: rat) \<le> of_int (2 ^ 53)" unfolding of_int_le_iff .
    then show ?thesis by simp
  qed
  then have "of_int (round_half_even (q / u)) * u \<le> 2 ^ 53 * u" using u by (intro mult_right_mono) simp_all
  moreover have "2 powi (- 1022) \<le> of_int (round_half_even (q / u)) * u"
    using normal by (simp add: dbl_tiny_def Let_def u_def e_def)
  moreover have "2 ^ 53 * u = 2 powi (e + 1)" by (simp add: u_def power_int_diff power_int_add)
  ultimately have "2 powi (- 1022) \<le> (2 :: rat) powi (e + 1)" by linarith
  then have "- 1022 \<le> e + 1" using powi_less_mono_base [of 2 "e + 1" "- 1022"] by (meson not_le one_less_numeral_iff semiring_norm(76))
  then have "dbl_ulp q \<le> 2 powi (e + 1 - 52)"
    unfolding dbl_ulp_def e_def [symmetric] by (intro powi_mono_base) simp_all
  also have "\<dots> = 2 * u" by (simp add: u_def power_int_diff power_int_add)
  finally have "dbl_ulp q / 2 \<le> u" by simp
  with round_mag_error [of q] have "\<bar>round_mag q - q\<bar> \<le> u" by linarith
  also have "\<dots> \<le> q / 2 ^ 51" using q1(1) u by simp
  finally show ?thesis .
qed

lemma g6_reread:
  assumes m: "0 < m" and rc: "range_checked s (g6_value m) = Inr (DFin s' r)"
  shows "g6 r = g6 m" and "0 < r" and "s' = s"
proof -
  obtain d x where g: "g6 m = (d, x)" by fastforce
  note d = g6_digits [OF m g]
  define u :: rat where "u = 10 powi (x - 5)"
  define q where "q = of_int d * u"
  have u: "0 < u" by (simp add: u_def)
  note dr = of_int_bounds [OF d]
  have q: "0 < q" using dr(1) u by (simp add: q_def)
  have v: "g6_value m = q" by (simp add: g6_value_def g q_def u_def)
  have r: "s' = s" "r = round_mag q" "r = q \<or> \<not> dbl_tiny q"
    using rc q unfolding v by (auto simp: range_checked_def dround_def Let_def split: if_splits)
  show "s' = s" by (rule r(1))
  have near: "\<bar>r - q\<bar> \<le> q / 2 ^ 51"
    using r(2,3) round_mag_near [OF q] q by auto
  moreover have "q / 2 ^ 51 < q" using q by simp
  ultimately show "0 < r" unfolding abs_le_iff by linarith
  have "r / u - of_int d = (r - q) / u" using u by (simp add: q_def diff_divide_distrib)
  then have "\<bar>r / u - of_int d\<bar> = \<bar>r - q\<bar> / u" using u by (simp add: abs_divide)
  also have "\<dots> \<le> q / 2 ^ 51 / u" using near u by (intro divide_right_mono) simp_all
  also have "\<dots> = of_int d / 2 ^ 51" using u by (simp add: q_def)
  also have "\<dots> \<le> 1 / 100" using dr(2) by simp
  finally show "g6 r = g6 m" unfolding g u_def by (rule g6_near [OF d])
qed

lemma show_reread:
  assumes "wf_double v" "readable v"
  shows "show_double (reread_value v) = show_double v"
proof (cases v)
  case (DFin s m)
  show ?thesis
  proof (cases "m = 0")
    case False
    with assms(1) DFin have m: "0 < m" by simp
    obtain w where w: "range_checked s (g6_value m) = Inr w"
      using assms(2) DFin False by (auto simp: readable_def split: sum.splits)
    then obtain s' r where sr: "w = DFin s' r" by (cases w) (auto simp: range_checked_def split: if_splits double.splits)
    note g = g6_reread [OF m w [unfolded sr]]
    have "reread_value v = DFin s r" using DFin False w sr g(3) by (simp add: reread_value_def)
    then show ?thesis using DFin False g by (simp add: show_mag_def)
  qed (simp add: DFin reread_value_def)
qed (simp_all add: reread_value_def)

subsection \<open>Registries that are written twice\<close>

lemma update_fresh: "k \<notin> fst ` set al \<Longrightarrow> AList.update k v al = al @ [(k, v)]"
  by (induction al) auto

lemma metrics_upsert_fresh:
  assumes "accepted_spec spec" "spec_name spec \<notin> fst ` set (metrics r)"
  shows "metrics (snd (upsert r spec)) = metrics r @ [(spec_name spec, metric_of spec)]"
  using assms makeMetric_accepted [OF assms(1)]
  by (simp add: upsert_def accepted_spec_def update_fresh)

lemma metrics_upsert_all:
  assumes "distinct (map spec_name specs)" "list_all accepted_spec specs"
    and "spec_name ` set specs \<inter> fst ` set (metrics r) = {}"
  shows "metrics (fold (\<lambda>spec r. snd (upsert r spec)) specs r) =
    metrics r @ map (\<lambda>spec. (spec_name spec, metric_of spec)) specs"
  using assms
proof (induction specs arbitrary: r)
  case (Cons spec specs)
  then have new: "metrics (snd (upsert r spec)) = metrics r @ [(spec_name spec, metric_of spec)]"
    by (intro metrics_upsert_fresh) auto
  with Cons.prems show ?case by (simp add: Cons.IH new)
qed simp

text \<open>A registry refilled from the samples \<open>respec m\<close> of another, in the order of the names, lists the
  metrics made from them in that order.\<close>

lemma sorted_refilled:
  assumes wf: "wf_registry r"
    and spec: "\<And>m. m \<in> set (registry_list r) \<Longrightarrow> accepted_spec (respec m) \<and> spec_name (respec m) = metric_name m"
  shows "sorted_metrics (fold (\<lambda>spec r. snd (upsert r spec)) (map respec (sorted_metrics r)) registry_empty) =
    map (\<lambda>m. metric_of (respec m)) (sorted_metrics r)"
proof -
  have name: "map spec_name (map respec (sorted_metrics r)) = map metric_name (sorted_metrics r)"
    using spec by simp
  have made: "metric_name (metric_of (respec m)) = metric_name m" if "m \<in> set (sorted_metrics r)" for m
    using makeMetric_name [OF makeMetric_accepted, of "respec m"] spec [of m] that by simp
  have sorted: "sorted_wrt (<) (map metric_name (sorted_metrics r))" by (rule strict_sorted_metrics [OF wf])
  then have "distinct (map metric_name (sorted_metrics r))" by (simp add: strict_sorted_iff)
  then have distinct: "distinct (map spec_name (map respec (sorted_metrics r)))" by (simp only: name)
  have accepted: "list_all accepted_spec (map respec (sorted_metrics r))" using spec by (simp add: list_all_iff)
  have "registry_list (fold (\<lambda>spec r. snd (upsert r spec)) (map respec (sorted_metrics r)) registry_empty) =
      map (\<lambda>m. metric_of (respec m)) (sorted_metrics r)"
    by (simp add: registry_list_def metrics_upsert_all [OF distinct accepted] registry_empty_def comp_def)
  moreover have "sort_key metric_name (map (\<lambda>m. metric_of (respec m)) (sorted_metrics r)) =
      map (\<lambda>m. metric_of (respec m)) (sorted_metrics r)"
  proof (rule sort_key_id_if_sorted)
    have "map metric_name (map (\<lambda>m. metric_of (respec m)) (sorted_metrics r)) = map metric_name (sorted_metrics r)"
      using made by simp
    then show "sorted (map metric_name (map (\<lambda>m. metric_of (respec m)) (sorted_metrics r)))"
      using sorted_sorted_metrics [of r] by (simp only:)
  qed
  ultimately show ?thesis by (simp add: sorted_metrics_def)
qed

subsection \<open>Counters and gauges come back with the same text\<close>

text \<open>The sample of a counter or gauge that was printed, in a scrape or in a snapshot.\<close>

lemma reprinted_scalar:
  assumes "metric_type m \<noteq> Histogram" "wf_metric m" "readable (metric_value m)"
  defines "m' \<equiv> metric_of (snapshot_spec m)"
  shows "metric_ident m' = metric_ident m"
    and "show_double (metric_value m') = show_double (metric_value m)"
proof -
  have same: "metric_ident m' = metric_ident m \<and> metric_value m' = reread_value (metric_value m)"
    unfolding m'_def by (rule metric_of_snapshot_scalar [OF assms(1,2)])
  then show "metric_ident m' = metric_ident m" ..
  show "show_double (metric_value m') = show_double (metric_value m)"
    using same show_reread [OF wf_metric_value [OF assms(2)] assms(3)] by simp
qed

lemma metric_lines_scalar:
  "metric_type m \<noteq> Histogram \<Longrightarrow>
   metric_lines m meta =
     (if meta
      then (if metric_help m \<noteq> [] then [''# HELP '' @ metric_name m @ '' '' @ metric_help m] else []) @
           [''# TYPE '' @ metric_name m @ '' '' @ toString (metric_type m)]
      else []) @
     [metric_name m @ braced (metric_labels m) @ '' '' @ show_double (metric_value m)]"
  by (cases m) simp_all

lemma scraped_scalar: "metric_type m \<noteq> Histogram \<Longrightarrow> scraped_specs m = [snapshot_spec m]"
  by (cases m) (simp_all add: snapshot_spec_def)

lemma snapshot_spec_name: "spec_name (snapshot_spec m) = metric_name m"
  by (simp add: snapshot_spec_def series_def)

lemma sorted_reprinted:
  assumes "wf_registry r"
  shows "sorted_metrics (fold (\<lambda>spec r. snd (upsert r spec)) (map snapshot_spec (sorted_metrics r)) registry_empty) =
    map (\<lambda>m. metric_of (snapshot_spec m)) (sorted_metrics r)"
proof (rule sorted_refilled [OF assms])
  fix m assume m: "m \<in> set (registry_list r)"
  then have "registry_find r (metric_name m) = Some m" using registry_list_find [OF assms] by simp
  then have "metric_name m \<noteq> []" using wf_registry_find [OF assms] by blast
  then show "accepted_spec (snapshot_spec m) \<and> spec_name (snapshot_spec m) = metric_name m"
    by (simp add: snapshot_spec_accepted snapshot_spec_name)
qed

text \<open>Counters and gauges only.\<close>

definition scalar_registry :: "MetricRegistry \<Rightarrow> bool" where
  "scalar_registry r \<longleftrightarrow> list_all (\<lambda>m. metric_type m \<noteq> Histogram) (registry_list r)"

lemma reprinted_lines:
  assumes "metric_type m \<noteq> Histogram" "wf_metric m" "readable (metric_value m)"
  shows "metric_lines (metric_of (snapshot_spec m)) meta = metric_lines m meta"
    and "snapshot_line (metric_of (snapshot_spec m)) = snapshot_line m"
  using reprinted_scalar [OF assms] assms(1) by (simp_all add: metric_ident_def metric_lines_scalar snapshot_line_def)

subsection \<open>Properties\<close>

text \<open>C2: Federation is transparent: a daemon that starts with nothing and scrapes another one, whose
  registry holds counters and gauges that the text format can carry (\<open>scrape_safe\<close>), serves on \<^verbatim>\<open>/metrics\<close> the text of the other, byte for byte.
  What the six digits have lost is lost once, however long the chain of daemons is.\<close>

theorem federation_is_transparent:
  assumes "wf_registry r" "list_all scrape_safe (registry_list r)" "scalar_registry r"
  shows "renderPrometheusText (fst (snd (mergePrometheusText registry_empty (renderPrometheusText r True)))) meta =
    renderPrometheusText r meta"
proof -
  have each: "metric_type m \<noteq> Histogram \<and> wf_metric m \<and> readable (metric_value m)"
    if "m \<in> set (sorted_metrics r)" for m
    using assms wf_registry_sorted [OF assms(1) that] that
    by (cases m) (auto simp: list_all_iff scalar_registry_def scrape_safe_def exposed_value_def)
  then have "map scraped_specs (sorted_metrics r) = map (\<lambda>m. [snapshot_spec m]) (sorted_metrics r)"
    by (simp add: scraped_scalar)
  then have specs: "concat (map scraped_specs (sorted_metrics r)) = map snapshot_spec (sorted_metrics r)"
    by (simp only: concat_map_singleton)
  let ?r' = "fst (snd (mergePrometheusText registry_empty (renderPrometheusText r True)))"
  have sorted: "sorted_metrics ?r' = map (\<lambda>m. metric_of (snapshot_spec m)) (sorted_metrics r)"
    by (simp add: merge_eq [OF parse_render [OF assms(1,2)]] specs sorted_reprinted [OF assms(1)])
  have "map (\<lambda>m. unlines (metric_lines m meta)) (sorted_metrics ?r') =
      map (\<lambda>m. unlines (metric_lines m meta)) (sorted_metrics r)"
    using each reprinted_lines(1) by (simp add: sorted)
  then show ?thesis unfolding renderPrometheusText_def by (rule arg_cong)
qed

theorem federation_is_transparent_witness:
  "let r = \<lparr>metrics = [(''hits'', CounterObj \<lparr>c_name = ''hits'', c_help = ''all of them'', c_labels = [], c_value = DFin False 41\<rparr>)]\<rparr>
   in renderPrometheusText (fst (snd (mergePrometheusText registry_empty (renderPrometheusText r True)))) True =
      renderPrometheusText r True"
proof -
  let ?r = "\<lparr>metrics = [(''hits'', CounterObj \<lparr>c_name = ''hits'', c_help = ''all of them'', c_labels = [], c_value = DFin False 41\<rparr>)]\<rparr>"
  have wf: "wf_registry ?r" by (simp add: wf_registry_def wf_double_numeral del: wf_double.simps)
  have safe: "list_all scrape_safe (registry_list ?r)"
    using readable_whole [of 41 False]
    by (simp add: registry_list_def scrape_safe_def exposed_value_def isNameChar_def isalnum_def trimmed_def isspace_def)
  have scalar: "scalar_registry ?r" by (simp add: scalar_registry_def registry_list_def)
  from federation_is_transparent [OF wf safe scalar, of True] show ?thesis by (simp only: Let_def)
qed

text \<open>A restart settles: the registry that a snapshot of counters and gauges loads into is saved
  as the same file, byte for byte, so restarts after the first lose nothing.\<close>

lemma restart_settles:
  assumes "wf_registry r" "list_all snapshot_safe (registry_list r)" "scalar_registry r" "snap_path s \<noteq> []"
    and "fs (snap_path s) = Some (snapshot_text r)"
  shows "snapshot_save s Save_Succeeds (fst (snd (snapshot_load s fs registry_empty))) fs' =
    snapshot_save s Save_Succeeds r fs'"
proof -
  have each: "metric_type m \<noteq> Histogram \<and> wf_metric m \<and> readable (metric_value m)"
    if "m \<in> set (sorted_metrics r)" for m
    using assms wf_registry_sorted [OF assms(1) that] that
    by (auto simp: list_all_iff scalar_registry_def snapshot_safe_def)
  let ?r' = "fst (snd (snapshot_load s fs registry_empty))"
  have sorted: "sorted_metrics ?r' = map (\<lambda>m. metric_of (snapshot_spec m)) (sorted_metrics r)"
    by (simp add: load_snapshot_text [where fs = fs, OF assms(1,2,4,5)] sorted_reprinted [OF assms(1)])
  have "map snapshot_line (sorted_metrics ?r') = map snapshot_line (sorted_metrics r)"
    using each reprinted_lines(2) by (simp add: sorted)
  moreover have "length (registry_list ?r') = length (registry_list r)"
    using arg_cong [OF sorted, of length] by (simp add: sorted_metrics_def)
  ultimately show ?thesis by (simp add: snapshot_save_def snapshot_text_def)
qed

end
