(* ===== verification/Registry_Heap.thy ===== *)
theory Registry_Heap
  imports Exposition Transition
begin

section \<open>The registry on the heap (registry.cpp, exposition.cpp)\<close>

text \<open>
  In the code \<^verbatim>\<open>metrics_\<close> maps names to \<^verbatim>\<open>unique_ptr\<close>s, and \<^verbatim>\<open>list()\<close> hands out raw
  pointers that are read after the lock is gone. This theory models that: objects live in cells,
  the registry owns addresses, replacing an entry frees the old object. The operations refine
  those of \<open>Registry\<close>, and a renderer that interleaves with other threads reads through the
  addresses it listed, or faults on one that has been freed. An address that was freed is taken to be dangling until
  it is allocated again; the allocator may return any free address.
\<close>

subsection \<open>Objects and their owners\<close>

type_synonym addr = nat

record RegistryHeap =
  cells :: "addr \<rightharpoonup> Metric"
  slots :: "(string \<times> addr) list"

definition heap_empty :: RegistryHeap where
  "heap_empty = \<lparr>cells = Map.empty, slots = []\<rparr>"

definition heap_find :: "RegistryHeap \<Rightarrow> string \<Rightarrow> addr option" where
  "heap_find h name = map_of (slots h) name"

text \<open>\<open>a\<close> is the address the allocator returns. An object that is not stored is freed again.\<close>

definition heap_register :: "addr \<Rightarrow> RegistryHeap \<Rightarrow> MetricSpec \<Rightarrow> bool \<times> RegistryHeap" where
  "heap_register a h spec =
     (if spec_name spec = [] then (False, h)
      else case makeMetric spec of
        None \<Rightarrow> (False, h)
      | Some metric \<Rightarrow>
          if heap_find h (spec_name spec) \<noteq> None then (False, h)
          else (True, \<lparr>cells = (cells h)(a \<mapsto> metric), slots = slots h @ [(spec_name spec, a)]\<rparr>))"

definition free :: "addr option \<Rightarrow> (addr \<rightharpoonup> Metric) \<Rightarrow> (addr \<rightharpoonup> Metric)" where
  "free old c = (case old of None \<Rightarrow> c | Some b \<Rightarrow> c(b := None))"

definition heap_upsert :: "addr \<Rightarrow> RegistryHeap \<Rightarrow> MetricSpec \<Rightarrow> bool \<times> RegistryHeap" where
  "heap_upsert a h spec =
     (if spec_name spec = [] then (False, h)
      else case makeMetric spec of
        None \<Rightarrow> (False, h)
      | Some metric \<Rightarrow>
          (True, \<lparr>cells = free (heap_find h (spec_name spec)) ((cells h)(a \<mapsto> metric)),
                  slots = AList.update (spec_name spec) a (slots h)\<rparr>))"

definition heap_setValue :: "RegistryHeap \<Rightarrow> string \<Rightarrow> double \<Rightarrow> bool \<times> RegistryHeap" where
  "heap_setValue h name value =
     (case heap_find h name of
        None \<Rightarrow> (False, h)
      | Some p \<Rightarrow>
          let (ok, m') = metric_setValue (the (cells h p)) value
          in (ok, h\<lparr>cells := (cells h)(p \<mapsto> m')\<rparr>))"

definition heap_increment :: "RegistryHeap \<Rightarrow> string \<Rightarrow> double \<Rightarrow> bool \<times> RegistryHeap" where
  "heap_increment h name delta =
     (if delta < dzero then (False, h)
      else case heap_find h name of
        None \<Rightarrow> (False, h)
      | Some p \<Rightarrow>
          let metric = the (cells h p)
          in if metric_type metric \<noteq> Counter then (False, h)
             else let (ok, m') = metric_setValue metric (dadd (metric_value metric) delta)
                  in (ok, h\<lparr>cells := (cells h)(p \<mapsto> m')\<rparr>))"

definition heap_list :: "RegistryHeap \<Rightarrow> addr list" where
  "heap_list h = map snd (slots h)"

definition heap_clear :: "RegistryHeap \<Rightarrow> RegistryHeap" where
  "heap_clear h = \<lparr>cells = cells h |` (- set (heap_list h)), slots = []\<rparr>"

fun heap_apply :: "addr \<Rightarrow> RegistryHeap \<Rightarrow> registry_op \<Rightarrow> bool \<times> RegistryHeap" where
  "heap_apply a h (Op_register spec) = heap_register a h spec"
| "heap_apply a h (Op_upsert spec) = heap_upsert a h spec"
| "heap_apply a h (Op_setValue name v) = heap_setValue h name v"
| "heap_apply a h (Op_increment name d) = heap_increment h name d"
| "heap_apply a h Op_clear = (True, heap_clear h)"

subsection \<open>The registry that a heap stands for\<close>

definition read_slot :: "(addr \<rightharpoonup> Metric) \<Rightarrow> string \<times> addr \<Rightarrow> string \<times> Metric" where
  "read_slot c e = (fst e, the (c (snd e)))"

definition heap_abs :: "RegistryHeap \<Rightarrow> MetricRegistry" where
  "heap_abs h = \<lparr>metrics = map (read_slot (cells h)) (slots h)\<rparr>"

text \<open>Every name has one slot, every slot an object of its own, and every live object a slot: nothing
  dangles inside the registry and nothing leaks.\<close>

definition wf_heap :: "RegistryHeap \<Rightarrow> bool" where
  "wf_heap h \<longleftrightarrow> distinct (map fst (slots h)) \<and> distinct (heap_list h) \<and> dom (cells h) = set (heap_list h)"

lemma read_slot_pair [simp]: "read_slot c (k, a) = (k, the (c a))"
  by (simp add: read_slot_def)

lemma map_of_read_slot: "map_of (map (read_slot c) al) k = map_option (\<lambda>a. the (c a)) (map_of al k)"
  by (induction al) (auto simp: read_slot_def)

lemma find_heap_abs: "registry_find (heap_abs h) k = map_option (\<lambda>a. the (cells h a)) (heap_find h k)"
  by (simp add: registry_find_def heap_abs_def heap_find_def map_of_read_slot)

lemma map_update_slot:
  "map (read_slot c) (AList.update k a al) = AList.update k (the (c a)) (map (read_slot c) al)"
  by (induction al) (auto simp: read_slot_def)

lemma read_slot_unused:
  "a \<notin> snd ` set al \<Longrightarrow> map (read_slot (c(a := x))) al = map (read_slot c) al"
  by (auto simp: read_slot_def)

lemma map_write_slot:
  "map_of al k = Some p \<Longrightarrow> distinct (map snd al) \<Longrightarrow> distinct (map fst al) \<Longrightarrow>
   map (read_slot (c(p \<mapsto> m))) al = AList.update k m (map (read_slot c) al)"
proof (induction al)
  case (Cons e al)
  show ?case
  proof (cases "fst e = k")
    case True
    with Cons.prems have "snd e = p" "p \<notin> snd ` set al" by (auto split: if_splits)
    with read_slot_unused [OF this(2), of c "Some m"] True show ?thesis by (simp add: read_slot_def)
  next
    case False
    with Cons.prems have k: "map_of al k = Some p" by (cases e) simp
    then have "p \<in> snd ` set al" by (force dest: map_of_SomeD)
    with Cons.prems have "snd e \<noteq> p" by auto
    with False Cons k show ?thesis by (simp add: read_slot_def)
  qed
qed simp

lemma update_slot_cong:
  assumes "distinct (map fst al)" "\<And>e. e \<in> set al \<Longrightarrow> fst e \<noteq> k \<Longrightarrow> c (snd e) = d (snd e)"
  shows "AList.update k m (map (read_slot c) al) = AList.update k m (map (read_slot d) al)"
  using assms
proof (induction al)
  case (Cons e al)
  then have IH: "AList.update k m (map (read_slot c) al) = AList.update k m (map (read_slot d) al)" by simp
  show ?case
  proof (cases "fst e = k")
    case True
    then have "c (snd x) = d (snd x)" if "x \<in> set al" for x
      using Cons.prems(1) Cons.prems(2) [of x] that by (force simp: image_iff)
    then have "map (read_slot c) al = map (read_slot d) al" by (simp add: read_slot_def)
    with True show ?thesis by (simp add: read_slot_def)
  next
    case False
    with IH Cons.prems(2) [of e] show ?thesis by (cases e) simp
  qed
qed simp

lemma addresses_update:
  assumes "distinct (map fst al)" "distinct (map snd al)" "a \<notin> set (map snd al)"
  shows "distinct (map snd (AList.update k a al)) \<and>
    set (map snd (AList.update k a al)) = insert a (set (map snd al) - set_option (map_of al k))"
  using assms
proof (induction al)
  case (Cons e al)
  have old: "b \<in> snd ` set al" if "map_of al k = Some b" for b using that by (force dest: map_of_SomeD)
  have key: "map_of al k = None" if "fst e = k" using that Cons.prems(1) by (auto simp: map_of_eq_None_iff)
  have IH: "distinct (map snd (AList.update k a al))"
    "set (map snd (AList.update k a al)) = insert a (set (map snd al) - set_option (map_of al k))"
    using Cons by auto
  show ?case
  proof (cases "fst e = k")
    case True
    with Cons.prems show ?thesis by (cases e) auto
  next
    case False
    have "snd e \<notin> set (map snd (AList.update k a al))" unfolding IH(2) using Cons.prems by auto
    moreover have "snd e \<notin> set_option (map_of al k)" using Cons.prems(2) old by auto
    ultimately show ?thesis using False IH by (cases e) auto
  qed
qed simp

lemma dom_free: "dom (free old c) = dom c - set_option old"
  by (auto simp: free_def split: option.splits if_splits)

lemma unused_address: "wf_heap h \<Longrightarrow> cells h a = None \<Longrightarrow> a \<notin> set (heap_list h)"
  unfolding wf_heap_def by (metis domIff)

lemma heap_find_address: "heap_find h k = Some p \<Longrightarrow> p \<in> set (heap_list h)"
  by (force simp: heap_find_def heap_list_def dest: map_of_SomeD)

lemma wf_heap_write: "wf_heap h \<Longrightarrow> p \<in> set (heap_list h) \<Longrightarrow> wf_heap (h\<lparr>cells := (cells h)(p \<mapsto> m)\<rparr>)"
  by (auto simp: wf_heap_def heap_list_def)

lemma heap_abs_write:
  "wf_heap h \<Longrightarrow> heap_find h k = Some p \<Longrightarrow>
   heap_abs (h\<lparr>cells := (cells h)(p \<mapsto> m)\<rparr>) = heap_abs h\<lparr>metrics := AList.update k m (metrics (heap_abs h))\<rparr>"
  by (simp add: heap_abs_def wf_heap_def heap_list_def heap_find_def map_write_slot)

lemma heap_register_refines:
  assumes "wf_heap h" "cells h a = None"
  shows "registerMetric (heap_abs h) spec = apsnd heap_abs (heap_register a h spec)"
    and "wf_heap (snd (heap_register a h spec))"
proof -
  have a: "a \<notin> set (heap_list h)" by (rule unused_address [OF assms])
  then have abs: "map (read_slot ((cells h)(a \<mapsto> m))) (slots h) = map (read_slot (cells h)) (slots h)" for m
    by (simp add: read_slot_unused heap_list_def)
  have grown: "heap_abs \<lparr>cells = (cells h)(a \<mapsto> m), slots = slots h @ [(k, a)]\<rparr> =
      heap_abs h\<lparr>metrics := metrics (heap_abs h) @ [(k, m)]\<rparr>" for k m
    by (simp add: heap_abs_def abs)
  show "registerMetric (heap_abs h) spec = apsnd heap_abs (heap_register a h spec)"
    by (auto simp: registerMetric_def heap_register_def find_heap_abs grown split: option.splits)
  have "k \<notin> fst ` set (slots h)" if "heap_find h k = None" for k
    using that by (simp add: heap_find_def map_of_eq_None_iff)
  with assms(1) a show "wf_heap (snd (heap_register a h spec))"
    by (auto simp: heap_register_def wf_heap_def heap_list_def split: option.splits)
qed

lemma heap_upsert_refines:
  assumes "wf_heap h" "cells h a = None"
  shows "upsert (heap_abs h) spec = apsnd heap_abs (heap_upsert a h spec)"
    and "wf_heap (snd (heap_upsert a h spec))"
proof -
  have a: "a \<notin> set (heap_list h)" by (rule unused_address [OF assms])
  have keys: "distinct (map fst (slots h))" "distinct (map snd (slots h))" "dom (cells h) = set (map snd (slots h))"
    using assms(1) by (simp_all add: wf_heap_def heap_list_def)
  have owner: "snd e \<noteq> b" if "heap_find h k = Some b" "e \<in> set (slots h)" "fst e \<noteq> k" for b k e
  proof
    assume "snd e = b"
    moreover have "(k, b) \<in> set (slots h)" using that(1) by (simp add: heap_find_def map_of_SomeD)
    ultimately show False using keys(2) that(2,3) inj_onD [of snd "set (slots h)" e "(k, b)"] by (auto simp: distinct_map)
  qed
  have fresh: "snd e \<noteq> a" if "e \<in> set (slots h)" for e using a that by (auto simp: heap_list_def)
  have live: "the (free (heap_find h k) ((cells h)(a \<mapsto> m)) a) = m" for k m
    using a heap_find_address [of h k] by (auto simp: free_def split: option.splits)
  have abs: "map (read_slot (free (heap_find h k) ((cells h)(a \<mapsto> m)))) (AList.update k a (slots h)) =
      AList.update k m (map (read_slot (cells h)) (slots h))" for k m
    unfolding map_update_slot live
    by (rule update_slot_cong [OF keys(1)]) (auto simp: free_def owner fresh split: option.splits)
  show "upsert (heap_abs h) spec = apsnd heap_abs (heap_upsert a h spec)"
    by (auto simp: upsert_def heap_upsert_def heap_abs_def abs split: option.splits)
  have "a \<notin> set (map snd (slots h))" using a by (simp add: heap_list_def)
  from addresses_update [OF keys(1,2) this] have
    "wf_heap \<lparr>cells = free (heap_find h k) ((cells h)(a \<mapsto> m)), slots = AList.update k a (slots h)\<rparr>" for k m
    using keys(1,3) a heap_find_address [of h k]
    by (auto simp: wf_heap_def heap_list_def dom_free distinct_update heap_find_def)
  then show "wf_heap (snd (heap_upsert a h spec))"
    using assms(1) by (auto simp: heap_upsert_def split: option.splits)
qed

lemma heap_setValue_refines:
  assumes "wf_heap h"
  shows "registry_setValue (heap_abs h) name v = apsnd heap_abs (heap_setValue h name v)"
    and "wf_heap (snd (heap_setValue h name v))"
  using assms heap_abs_write [OF assms, of name] wf_heap_write [OF assms] heap_find_address [of h name]
  by (auto simp: registry_setValue_def heap_setValue_def find_heap_abs case_prod_beta Let_def split: option.splits)

lemma heap_increment_refines:
  assumes "wf_heap h"
  shows "increment (heap_abs h) name d = apsnd heap_abs (heap_increment h name d)"
    and "wf_heap (snd (heap_increment h name d))"
  using assms heap_abs_write [OF assms, of name] wf_heap_write [OF assms] heap_find_address [of h name]
  by (auto simp: increment_def heap_increment_def find_heap_abs case_prod_beta Let_def split: option.splits)

lemma heap_clear_refines:
  assumes "wf_heap h"
  shows "registry_clear (heap_abs h) = heap_abs (heap_clear h)" and "wf_heap (heap_clear h)"
  using assms by (auto simp: registry_clear_def heap_abs_def heap_clear_def wf_heap_def heap_list_def)

lemma heap_apply_refines:
  assumes "wf_heap h" "cells h a = None"
  shows "registry_apply (heap_abs h) op = apsnd heap_abs (heap_apply a h op)"
    and "wf_heap (snd (heap_apply a h op))"
  using assms heap_register_refines heap_upsert_refines heap_setValue_refines heap_increment_refines heap_clear_refines
  by (cases op; simp)+

lemma wf_heap_empty: "wf_heap heap_empty"
  by (simp add: wf_heap_def heap_empty_def heap_list_def)

subsection \<open>Rendering through listed addresses\<close>

text \<open>
  \<^verbatim>\<open>renderPrometheusText\<close> lists the pointers under the lock, sorts them by the names of the objects
  and writes one object after the other; only the first step excludes the other threads. A sort of
  fewer than two pointers reads none.
\<close>

datatype reader = Not_Started | Listed "addr list" | Writing "addr list" string | Rendered string | Faulted

record rendering =
  rd_heap :: RegistryHeap
  rd_state :: reader

definition name_at :: "(addr \<rightharpoonup> Metric) \<Rightarrow> addr \<Rightarrow> string" where
  "name_at c p = metric_name (the (c p))"

inductive read_step :: "bool \<Rightarrow> rendering \<Rightarrow> rendering \<Rightarrow> bool" for include_metadata :: bool where
  list_pointers: "rd_state s = Not_Started \<Longrightarrow> read_step include_metadata s (s\<lparr>rd_state := Listed (heap_list (rd_heap s))\<rparr>)"
| sort_pointers: "rd_state s = Listed ps \<Longrightarrow> length ps < 2 \<or> set ps \<subseteq> dom (cells (rd_heap s)) \<Longrightarrow>
    read_step include_metadata s (s\<lparr>rd_state := Writing (sort_key (name_at (cells (rd_heap s))) ps) []\<rparr>)"
| sort_dangling: "rd_state s = Listed ps \<Longrightarrow> 2 \<le> length ps \<Longrightarrow> \<not> set ps \<subseteq> dom (cells (rd_heap s)) \<Longrightarrow>
    read_step include_metadata s (s\<lparr>rd_state := Faulted\<rparr>)"
| write_object: "rd_state s = Writing (p # ps) out \<Longrightarrow> cells (rd_heap s) p = Some m \<Longrightarrow>
    read_step include_metadata s (s\<lparr>rd_state := Writing ps (out @ unlines (metric_lines m include_metadata))\<rparr>)"
| write_dangling: "rd_state s = Writing (p # ps) out \<Longrightarrow> cells (rd_heap s) p = None \<Longrightarrow>
    read_step include_metadata s (s\<lparr>rd_state := Faulted\<rparr>)"
| return_text: "rd_state s = Writing [] out \<Longrightarrow> read_step include_metadata s (s\<lparr>rd_state := Rendered out\<rparr>)"

inductive_cases read_stepE: "read_step include_metadata s t"

text \<open>Other threads call the registry in between; \<open>allowed\<close> restricts what they call.\<close>

inductive render_step :: "(RegistryHeap \<Rightarrow> registry_op \<Rightarrow> bool) \<Rightarrow> bool \<Rightarrow> rendering \<Rightarrow> rendering \<Rightarrow> bool"
  for allowed :: "RegistryHeap \<Rightarrow> registry_op \<Rightarrow> bool" and include_metadata :: bool where
  reading: "read_step include_metadata s t \<Longrightarrow> render_step allowed include_metadata s t"
| call: "cells (rd_heap s) a = None \<Longrightarrow> allowed (rd_heap s) op \<Longrightarrow>
    render_step allowed include_metadata s (s\<lparr>rd_heap := snd (heap_apply a (rd_heap s) op)\<rparr>)"

inductive_cases render_stepE: "render_step allowed include_metadata s t"

text \<open>Calls that free no object.\<close>

fun frees_nothing :: "RegistryHeap \<Rightarrow> registry_op \<Rightarrow> bool" where
  "frees_nothing h (Op_upsert spec) \<longleftrightarrow> heap_find h (spec_name spec) = None"
| "frees_nothing h Op_clear \<longleftrightarrow> False"
| "frees_nothing h _ \<longleftrightarrow> True"

text \<open>What was live stays live and keeps its name, type, help and labels.\<close>

definition extends :: "(addr \<rightharpoonup> Metric) \<Rightarrow> (addr \<rightharpoonup> Metric) \<Rightarrow> bool" where
  "extends c c' \<longleftrightarrow> (\<forall>p m. c p = Some m \<longrightarrow> (\<exists>m'. c' p = Some m' \<and> metric_ident m' = metric_ident m))"

lemma extends_refl: "extends c c"
  by (simp add: extends_def)

lemma extends_trans: "extends c c' \<Longrightarrow> extends c' c'' \<Longrightarrow> extends c c''"
  unfolding extends_def by metis

lemma extends_dom: "extends c c' \<Longrightarrow> dom c \<subseteq> dom c'"
  unfolding extends_def by auto

lemma extends_fresh: "c a = None \<Longrightarrow> extends c (c(a \<mapsto> m))"
  by (auto simp: extends_def)

lemma extends_write: "c p = Some m \<Longrightarrow> metric_ident m' = metric_ident m \<Longrightarrow> extends c (c(p \<mapsto> m'))"
  by (auto simp: extends_def)

lemma extends_apply:
  assumes wf: "wf_heap h" and a: "cells h a = None" and gentle: "frees_nothing h op"
  shows "extends (cells h) (cells (snd (heap_apply a h op)))"
proof -
  have live: "\<exists>m. cells h p = Some m" if "heap_find h k = Some p" for k p
    using heap_find_address [OF that] wf by (auto simp: wf_heap_def)
  have keep: "extends (cells h) ((cells h)(p \<mapsto> snd (metric_setValue (the (cells h p)) v)))"
    if "heap_find h k = Some p" for k p v
    using live [OF that] by (auto intro!: extends_write simp: metric_ident_def)
  show ?thesis
    using a gentle keep
    by (cases op) (auto simp: heap_register_def heap_upsert_def heap_setValue_def heap_increment_def free_def
        extends_refl extends_fresh case_prod_beta Let_def split: option.splits)
qed

lemma sort_key_map: "sort_key f (map g xs) = map g (sort_key (\<lambda>x. f (g x)) xs)"
proof -
  have "insort_key f (g x) (map g ys) = map g (insort_key (\<lambda>x. f (g x)) x ys)" for x ys
    by (induction ys) simp_all
  then show ?thesis by (induction xs) simp_all
qed

lemma sort_key_agree: "(\<And>x. x \<in> set xs \<Longrightarrow> f x = g x) \<Longrightarrow> sort_key f xs = sort_key g xs"
proof (induction xs)
  case (Cons x xs)
  have "insort_key f x ys = insort_key g x ys" if "set ys \<subseteq> set xs" for ys
    using that Cons.prems by (induction ys) auto
  with Cons show ?case by simp
qed simp

lemma name_at_extends: "extends c c' \<Longrightarrow> p \<in> dom c \<Longrightarrow> name_at c' p = name_at c p"
  by (force simp: extends_def name_at_def metric_ident_def)

text \<open>Sorting the pointers by the names sorts the objects.\<close>

lemma sorted_pointers:
  "map (\<lambda>p. the (cells h p)) (sort_key (name_at (cells h)) (heap_list h)) = sorted_metrics (heap_abs h)"
proof -
  have "registry_list (heap_abs h) = map (\<lambda>p. the (cells h p)) (heap_list h)"
    by (simp add: registry_list_def heap_abs_def heap_list_def read_slot_def comp_def)
  then show ?thesis by (simp add: sorted_metrics_def sort_key_map name_at_def [abs_def])
qed

definition text_of :: "bool \<Rightarrow> Metric list \<Rightarrow> string" where
  "text_of include_metadata ms = concat (map (\<lambda>m. unlines (metric_lines m include_metadata)) ms)"

lemma text_of_append: "text_of meta (ms @ [m]) = text_of meta ms @ unlines (metric_lines m meta)"
  by (simp add: text_of_def)

text \<open>Where a rendering stands that has listed the pointers of heap \<open>h\<close>: the objects it has written are
  those of the head of the sorted list, up to their values.\<close>

definition idents_at :: "(addr \<rightharpoonup> Metric) \<Rightarrow> addr list \<Rightarrow> (string \<times> MetricType \<times> string \<times> string) list" where
  "idents_at c ps = map (\<lambda>p. metric_ident (the (c p))) ps"

definition undisturbed :: "bool \<Rightarrow> RegistryHeap \<Rightarrow> rendering \<Rightarrow> bool" where
  "undisturbed meta h s \<longleftrightarrow> wf_heap (rd_heap s) \<and> extends (cells h) (cells (rd_heap s)) \<and>
     (case rd_state s of
        Not_Started \<Rightarrow> False
      | Listed ps \<Rightarrow> ps = heap_list h
      | Writing ps out \<Rightarrow> set ps \<subseteq> dom (cells h) \<and>
          (\<exists>ms. out = text_of meta ms \<and>
             map metric_ident ms @ idents_at (cells h) ps = map metric_ident (sorted_metrics (heap_abs h)))
      | Rendered out \<Rightarrow>
          (\<exists>ms. out = text_of meta ms \<and> map metric_ident ms = map metric_ident (sorted_metrics (heap_abs h)))
      | Faulted \<Rightarrow> False)"

lemma undisturbed_step:
  assumes h: "wf_heap h" and s: "undisturbed meta h s" and step: "render_step frees_nothing meta s t"
  shows "undisturbed meta h t"
  using step
proof (cases rule: render_step.cases)
  case (call a op)
  with s show ?thesis
    using heap_apply_refines(2) extends_apply extends_trans by (auto simp: undisturbed_def)
next
  case reading
  have dom: "set (heap_list h) = dom (cells h)" using h by (simp add: wf_heap_def)
  have live: "p \<in> dom (cells (rd_heap s))" if "p \<in> dom (cells h)" for p
    using s that extends_dom [of "cells h" "cells (rd_heap s)"] unfolding undisturbed_def by blast
  from reading show ?thesis
  proof (cases rule: read_step.cases)
    case (sort_pointers ps)
    then have ps: "ps = heap_list h" and ext: "extends (cells h) (cells (rd_heap s))"
      using s by (simp_all add: undisturbed_def)
    have "sort_key (name_at (cells (rd_heap s))) ps = sort_key (name_at (cells h)) ps"
      using name_at_extends [OF ext] by (intro sort_key_agree) (simp_all add: ps dom)
    moreover have "idents_at (cells h) (sort_key (name_at (cells h)) ps) = map metric_ident (sorted_metrics (heap_abs h))"
      by (simp add: idents_at_def ps flip: sorted_pointers)
    ultimately show ?thesis
      using s sort_pointers dom by (auto simp: undisturbed_def text_of_def ps intro!: exI [of _ "[]"])
  next
    case (write_object p ps out m)
    then obtain ms where ms: "out = text_of meta ms" "set (p # ps) \<subseteq> dom (cells h)"
        "map metric_ident ms @ idents_at (cells h) (p # ps) = map metric_ident (sorted_metrics (heap_abs h))"
      using s by (auto simp: undisturbed_def)
    have "metric_ident m = metric_ident (the (cells h p))"
      using s write_object(3) ms(2) by (force simp: undisturbed_def extends_def)
    with ms show ?thesis
      using s write_object by (auto simp: undisturbed_def idents_at_def text_of_append [symmetric] intro!: exI [of _ "ms @ [m]"])
  qed (use s live dom in \<open>auto simp: undisturbed_def idents_at_def\<close>)
qed

lemma undisturbed_run:
  assumes "wf_heap h" "(render_step frees_nothing meta)\<^sup>*\<^sup>* \<lparr>rd_heap = h, rd_state = Listed (heap_list h)\<rparr> s"
  shows "undisturbed meta h s"
  using assms(2)
proof (induction rule: rtranclp_induct)
  case base
  show ?case using assms(1) by (simp add: undisturbed_def extends_refl)
next
  case (step s t)
  then show ?case using undisturbed_step [OF assms(1)] by blast
qed

text \<open>A rendering that has not ended can go on.\<close>

lemma read_progress:
  assumes "\<forall>out. rd_state s \<noteq> Rendered out" "rd_state s \<noteq> Faulted"
  shows "\<exists>t. read_step meta s t"
proof (cases "rd_state s")
  case (Listed ps)
  then show ?thesis
    using read_step.sort_pointers [OF Listed] read_step.sort_dangling [OF Listed] by (meson not_le)
next
  case (Writing ps out)
  then show ?thesis
    using read_step.write_object [of s] read_step.write_dangling [of s] read_step.return_text [of s]
    by (cases ps) (blast, metis option.exhaust)
qed (use assms read_step.list_pointers in blast)+

text \<open>Undisturbed by any call, the text is that of the registry.\<close>

lemma write_all:
  "set ps \<subseteq> dom (cells h) \<Longrightarrow>
   (read_step meta)\<^sup>*\<^sup>* \<lparr>rd_heap = h, rd_state = Writing ps out\<rparr>
     \<lparr>rd_heap = h, rd_state = Rendered (out @ text_of meta (map (\<lambda>p. the (cells h p)) ps))\<rparr>"
proof (induction ps arbitrary: out)
  case Nil
  show ?case using read_step.return_text [of "\<lparr>rd_heap = h, rd_state = Writing [] out\<rparr>"] by (auto simp: text_of_def)
next
  case (Cons p ps)
  then obtain m where m: "cells h p = Some m" by auto
  then have "read_step meta \<lparr>rd_heap = h, rd_state = Writing (p # ps) out\<rparr>
      \<lparr>rd_heap = h, rd_state = Writing ps (out @ unlines (metric_lines m meta))\<rparr>"
    using read_step.write_object [of "\<lparr>rd_heap = h, rd_state = Writing (p # ps) out\<rparr>" p ps out m] by simp
  with Cons.IH [of "out @ unlines (metric_lines m meta)"] Cons.prems m show ?case
    by (auto simp: text_of_def intro: converse_rtranclp_into_rtranclp)
qed

lemma render_alone:
  assumes "wf_heap h"
  shows "(read_step meta)\<^sup>*\<^sup>* \<lparr>rd_heap = h, rd_state = Not_Started\<rparr>
    \<lparr>rd_heap = h, rd_state = Rendered (renderPrometheusText (heap_abs h) meta)\<rparr>"
proof -
  let ?ps = "sort_key (name_at (cells h)) (heap_list h)"
  have dom: "set (heap_list h) \<subseteq> dom (cells h)" using assms by (simp add: wf_heap_def)
  have "read_step meta \<lparr>rd_heap = h, rd_state = Not_Started\<rparr> \<lparr>rd_heap = h, rd_state = Listed (heap_list h)\<rparr>"
    using read_step.list_pointers [of "\<lparr>rd_heap = h, rd_state = Not_Started\<rparr>"] by simp
  moreover have "read_step meta \<lparr>rd_heap = h, rd_state = Listed (heap_list h)\<rparr> \<lparr>rd_heap = h, rd_state = Writing ?ps []\<rparr>"
    using read_step.sort_pointers [of "\<lparr>rd_heap = h, rd_state = Listed (heap_list h)\<rparr>"] dom by simp
  moreover have "renderPrometheusText (heap_abs h) meta = text_of meta (map (\<lambda>p. the (cells h p)) ?ps)"
    by (simp add: renderPrometheusText_def text_of_def sorted_pointers)
  ultimately show ?thesis
    using write_all [of ?ps h meta "[]"] dom by (simp add: converse_rtranclp_into_rtranclp)
qed

text \<open>An \<^verbatim>\<open>upsert\<close> of a listed name frees an object the renderer will read.\<close>

lemma upsert_frees:
  assumes "wf_heap h" "heap_find h (spec_name spec) = Some p" "accepted_spec spec" "cells h a = None"
  shows "cells (snd (heap_upsert a h spec)) p = None"
proof -
  have "p \<noteq> a" using heap_find_address [OF assms(2)] unused_address [OF assms(1,4)] by auto
  then show ?thesis
    using assms(2,3) makeMetric_accepted [OF assms(3)] by (simp add: heap_upsert_def accepted_spec_def free_def)
qed

subsection \<open>Properties\<close>

text \<open>C11: The registry on the heap implements the registry of values: every call gives the same answer
  and leaves the heap of the registry the value-level call leaves, whatever free address the allocator returns. Inside the
  registry nothing dangles, no two entries share an object, and no object leaks.\<close>

theorem pointers_implement_registry:
  assumes "wf_heap h" "cells h a = None"
  shows "registry_apply (heap_abs h) op = apsnd heap_abs (heap_apply a h op) \<and> wf_heap (snd (heap_apply a h op))"
  using heap_apply_refines [OF assms] by blast

theorem pointers_implement_registry_witness:
  "let spec = \<lparr>spec_name = ''up'', spec_type = ''gauge'', spec_help = [], spec_value = DFin False 1,
              spec_labels = [], spec_buckets = []\<rparr>
   in registry_apply registry_empty (Op_upsert spec) = apsnd heap_abs (heap_apply 7 heap_empty (Op_upsert spec))"
proof -
  have "cells heap_empty 7 = None" "heap_abs heap_empty = registry_empty"
    by (simp_all add: heap_empty_def heap_abs_def registry_empty_def)
  with pointers_implement_registry [OF wf_heap_empty this(1)] show ?thesis by (simp only: Let_def)
qed

text \<open>C10: A rendering reads through its pointers safely as long as the other threads free nothing: they
  may register metrics, set and increment values and \<^verbatim>\<open>upsert\<close> new names while it runs. It never faults, it can always go on,
  and its text shows the metrics that were listed, in the order of their names, with their types,
  helps and labels; only the values may come from different moments. With no call in between it
  is the text of the registry.\<close>

theorem render_without_frees:
  assumes "wf_heap h"
    and "(render_step frees_nothing meta)\<^sup>*\<^sup>* \<lparr>rd_heap = h, rd_state = Listed (heap_list h)\<rparr> s"
  shows "rd_state s \<noteq> Faulted \<and> ((\<exists>out. rd_state s = Rendered out) \<or> (\<exists>t. read_step meta s t)) \<and>
    (\<forall>out. rd_state s = Rendered out \<longrightarrow>
      (\<exists>ms. out = text_of meta ms \<and> map metric_ident ms = map metric_ident (sorted_metrics (heap_abs h)))) \<and>
    (read_step meta)\<^sup>*\<^sup>* \<lparr>rd_heap = h, rd_state = Not_Started\<rparr>
      \<lparr>rd_heap = h, rd_state = Rendered (renderPrometheusText (heap_abs h) meta)\<rparr>"
proof -
  have s: "undisturbed meta h s" by (rule undisturbed_run [OF assms])
  then have "rd_state s \<noteq> Faulted" by (auto simp: undisturbed_def)
  moreover have "\<exists>ms. out = text_of meta ms \<and> map metric_ident ms = map metric_ident (sorted_metrics (heap_abs h))"
    if "rd_state s = Rendered out" for out
    using s that by (simp add: undisturbed_def)
  ultimately show ?thesis using read_progress [of s meta] render_alone [OF assms(1)] by blast
qed

theorem render_without_frees_witness:
  "let m = GaugeObj \<lparr>g_name = ''up'', g_help = [], g_labels = [], g_value = DFin False 1\<rparr>;
       h = \<lparr>cells = [7 \<mapsto> m], slots = [(''up'', 7)]\<rparr>;
       s = \<lparr>rd_heap = snd (heap_apply 8 h (Op_setValue ''up'' (DFin False 2))), rd_state = Listed [7]\<rparr>
   in \<exists>t. read_step True s t"
proof -
  let ?m = "GaugeObj \<lparr>g_name = ''up'', g_help = [], g_labels = [], g_value = DFin False 1\<rparr>"
  let ?h = "\<lparr>cells = [7 \<mapsto> ?m], slots = [(''up'', 7)]\<rparr>"
  let ?s = "\<lparr>rd_heap = snd (heap_apply 8 ?h (Op_setValue ''up'' (DFin False 2))), rd_state = Listed [7]\<rparr>"
  have wf: "wf_heap ?h" by (simp add: wf_heap_def heap_list_def)
  have "render_step frees_nothing True \<lparr>rd_heap = ?h, rd_state = Listed (heap_list ?h)\<rparr> ?s"
    using render_step.call [of "\<lparr>rd_heap = ?h, rd_state = Listed (heap_list ?h)\<rparr>" 8 frees_nothing
        "Op_setValue ''up'' (DFin False 2)" True] by (simp add: heap_list_def)
  then show ?thesis
    using render_without_frees [OF wf r_into_rtranclp, of True ?s] by (simp add: Let_def)
qed

text \<open>C9: A single \<^verbatim>\<open>upsert\<close> of a name that is already there, between \<^verbatim>\<open>list()\<close> and the end of a
  rendering, is enough for the rendering to read an object that has been freed. The scraper makes
  such calls on every round, the server renders on every request.\<close>

theorem render_reads_freed_object:
  assumes "wf_heap h" "heap_find h (spec_name spec) = Some p" "accepted_spec spec" "cells h a = None"
  shows "\<exists>s t. read_step meta \<lparr>rd_heap = h, rd_state = Not_Started\<rparr> s \<and>
    (read_step meta)\<^sup>*\<^sup>* (s\<lparr>rd_heap := snd (heap_apply a (rd_heap s) (Op_upsert spec))\<rparr>) t \<and> rd_state t = Faulted"
proof -
  let ?h' = "snd (heap_upsert a h spec)" and ?ps = "heap_list h"
  let ?s = "\<lparr>rd_heap = ?h', rd_state = Listed ?ps\<rparr>"
  have gone: "cells ?h' p = None" by (rule upsert_frees [OF assms])
  have p: "p \<in> set ?ps" by (rule heap_find_address [OF assms(2)])
  have "\<exists>t. (read_step meta)\<^sup>*\<^sup>* ?s t \<and> rd_state t = Faulted"
  proof (cases "2 \<le> length ?ps")
    case True
    have "read_step meta ?s (?s\<lparr>rd_state := Faulted\<rparr>)"
      using gone p True by (intro read_step.sort_dangling) auto
    then show ?thesis by (intro exI [of _ "?s\<lparr>rd_state := Faulted\<rparr>"]) auto
  next
    case False
    with p have ps: "?ps = [p]" by (cases ?ps; cases "tl ?ps") auto
    let ?w = "?s\<lparr>rd_state := Writing [p] []\<rparr>"
    have "read_step meta ?s ?w" using read_step.sort_pointers [of ?s "[p]" meta] ps by simp
    moreover have "read_step meta ?w (?w\<lparr>rd_state := Faulted\<rparr>)"
      using gone by (intro read_step.write_dangling) simp_all
    ultimately show ?thesis
      by (intro exI [of _ "?w\<lparr>rd_state := Faulted\<rparr>"]) (simp add: converse_rtranclp_into_rtranclp)
  qed
  moreover have "read_step meta \<lparr>rd_heap = h, rd_state = Not_Started\<rparr> \<lparr>rd_heap = h, rd_state = Listed ?ps\<rparr>"
    using read_step.list_pointers [of "\<lparr>rd_heap = h, rd_state = Not_Started\<rparr>"] by simp
  ultimately show ?thesis by force
qed

theorem render_reads_freed_object_witness:
  "let m = GaugeObj \<lparr>g_name = ''up'', g_help = [], g_labels = [], g_value = DFin False 1\<rparr>;
       h = \<lparr>cells = [7 \<mapsto> m], slots = [(''up'', 7)]\<rparr>;
       spec = \<lparr>spec_name = ''up'', spec_type = ''gauge'', spec_help = [], spec_value = DFin False 2,
               spec_labels = [], spec_buckets = []\<rparr>
   in \<exists>s t. read_step True \<lparr>rd_heap = h, rd_state = Not_Started\<rparr> s \<and>
     (read_step True)\<^sup>*\<^sup>* (s\<lparr>rd_heap := snd (heap_apply 8 (rd_heap s) (Op_upsert spec))\<rparr>) t \<and> rd_state t = Faulted"
proof -
  let ?m = "GaugeObj \<lparr>g_name = ''up'', g_help = [], g_labels = [], g_value = DFin False 1\<rparr>"
  let ?h = "\<lparr>cells = [7 \<mapsto> ?m], slots = [(''up'', 7)]\<rparr>"
  let ?spec = "\<lparr>spec_name = ''up'', spec_type = ''gauge'', spec_help = [], spec_value = DFin False 2,
    spec_labels = [], spec_buckets = []\<rparr>"
  have wf: "wf_heap ?h" by (simp add: wf_heap_def heap_list_def)
  have "parseMetricType ''gauge'' = Gauge" by code_simp
  then have spec: "accepted_spec ?spec" by (simp add: accepted_spec_def)
  have find: "heap_find ?h (spec_name ?spec) = Some 7" by (simp add: heap_find_def)
  have fresh: "cells ?h 8 = None" by simp
  from render_reads_freed_object [OF wf find spec fresh, of True] show ?thesis by (simp only: Let_def)
qed

end
