(* ===== verification/Tls_Session.thy ===== *)
theory Tls_Session
  imports Metrics_Server
begin

section \<open>Requests over plain and TLS connections (net.cpp, metrics_server.cpp)\<close>

text \<open>
  With a TLS session, \<^verbatim>\<open>recvLine\<close> takes its bytes from \<^verbatim>\<open>SSL_read\<close>, but still waits with
  \<^verbatim>\<open>poll\<close> on the socket before each of them, and \<^verbatim>\<open>recvExact\<close> reads from the socket itself. OpenSSL
  is a parameter: a record of the calls on a session of any type. What the code meets is documented: \<^verbatim>\<open>SSL_read\<close>
  takes one record off the socket, hands out what was asked for and keeps the rest for the next call, where
  \<^verbatim>\<open>poll\<close> does not see it. The theory reads requests through either kind of connection and
  shows what a TLS client's request looks like to the server.
\<close>

subsection \<open>Receiving\<close>

record 't ssl =
  ssl_poll :: "'t \<Rightarrow> bool \<times> 't"
  ssl_read :: "nat \<Rightarrow> 't \<Rightarrow> string option \<times> 't"
  ssl_recv :: "nat \<Rightarrow> 't \<Rightarrow> string option \<times> 't"
  ssl_write :: "string \<Rightarrow> 't \<Rightarrow> int \<times> 't"

text \<open>A connection without a session delivers a stream of events; one with a session delivers what the
  library makes of it.\<close>

datatype 't transport = Plain rx_stream | Session 't

text \<open>\<^verbatim>\<open>waitReadable\<close> and one read, of the session where there is one; and the same on the bare socket.\<close>

definition conn_read :: "'t ssl \<Rightarrow> nat \<Rightarrow> 't transport \<Rightarrow> string option \<times> 't transport" where
  "conn_read lib n c =
     (case c of
        Plain es \<Rightarrow> apsnd Plain (recv_some n es)
      | Session t \<Rightarrow>
          (case ssl_poll lib t of
             (ready, t') \<Rightarrow> apsnd Session (if ready then ssl_read lib n t' else (None, t'))))"

definition conn_recv :: "'t ssl \<Rightarrow> nat \<Rightarrow> 't transport \<Rightarrow> string option \<times> 't transport" where
  "conn_recv lib n c =
     (case c of
        Plain es \<Rightarrow> apsnd Plain (recv_some n es)
      | Session t \<Rightarrow>
          (case ssl_poll lib t of
             (ready, t') \<Rightarrow> apsnd Session (if ready then ssl_recv lib n t' else (None, t'))))"

text \<open>\<^verbatim>\<open>recvLine\<close> over a way to read; zero bytes are the end, as \<open>n <= 0\<close> is in the code.\<close>

fun line_via :: "(nat \<Rightarrow> 's \<Rightarrow> string option \<times> 's) \<Rightarrow> nat \<Rightarrow> string \<Rightarrow> 's \<Rightarrow> bool \<times> string \<times> 's" where
  "line_via read 0 line s = (False, line, s)"
| "line_via read (Suc k) line s =
     (case read 1 s of
        (Some (ch # _), s') \<Rightarrow>
          if ch = newline then (True, strip_line_end line, s') else line_via read k (line @ [ch]) s'
      | (_, s') \<Rightarrow> (False, line, s'))"

definition recvLine_via :: "(nat \<Rightarrow> 's \<Rightarrow> string option \<times> 's) \<Rightarrow> 's \<Rightarrow> bool \<times> string \<times> 's" where
  "recvLine_via read s = line_via read max_line [] s"

function exact_via :: "(nat \<Rightarrow> 's \<Rightarrow> string option \<times> 's) \<Rightarrow> string \<Rightarrow> nat \<Rightarrow> 's \<Rightarrow> bool \<times> string \<times> 's" where
  "exact_via read data bytes s =
     (if length data < bytes then
        (case read (min 4096 (bytes - length data)) s of
           (Some (c # cs), s') \<Rightarrow> exact_via read (data @ c # cs) bytes s'
         | (_, s') \<Rightarrow> (False, data, s'))
      else (True, data, s))"
  by pat_completeness auto

termination
  by (relation "measure (\<lambda>(read, data, bytes, s). bytes - length data)") auto

declare exact_via.simps [simp del]

text \<open>The header loop goes on while lines come; a client that never stops sending them keeps it for ever,
  which is the result \<open>None\<close>.\<close>

partial_function (option) headers_via ::
    "(nat \<Rightarrow> 's \<Rightarrow> string option \<times> 's) \<Rightarrow> 64 word \<times> string \<Rightarrow> 's \<Rightarrow> ((64 word \<times> string) \<times> 's) option" where
  "headers_via read acc s =
     (case recvLine_via read s of
        (ok, line, s') \<Rightarrow> if ok \<and> line \<noteq> [] then headers_via read (header_line line acc) s' else Some (acc, s'))"

definition request_via ::
    "(nat \<Rightarrow> 's \<Rightarrow> string option \<times> 's) \<Rightarrow> (nat \<Rightarrow> 's \<Rightarrow> string option \<times> 's) \<Rightarrow> 's \<Rightarrow> http_request option option" where
  "request_via read recv s =
     (case recvLine_via read s of
        (ok, line, s1) \<Rightarrow>
          if \<not> ok then Some None
          else
            let (method, path) = request_line line
            in case headers_via read (0, []) s1 of
                 None \<Rightarrow> None
               | Some ((content_length, authorization), s2) \<Rightarrow>
                   Some (if content_length > 0 then
                           if content_length > 1024 * 1024 then None
                           else case exact_via recv [] (unat content_length) s2 of
                             (got, data, s3) \<Rightarrow>
                               if got then Some \<lparr>req_method = method, req_path = path, req_authorization = authorization, req_body = data\<rparr>
                               else None
                         else Some \<lparr>req_method = method, req_path = path, req_authorization = authorization, req_body = []\<rparr>))"

text \<open>\<^verbatim>\<open>handleClient\<close> on either kind of connection, and \<^verbatim>\<open>sendAll\<close> on a session: the length goes
  through an \<^verbatim>\<open>int\<close>.\<close>

definition handle_via :: "'t ssl \<Rightarrow> MetricsServer \<Rightarrow> MetricRegistry \<Rightarrow> time_point \<Rightarrow> string \<Rightarrow> 't transport \<Rightarrow> served option" where
  "handle_via lib s registry now peer c =
     map_option (answer s registry now peer) (request_via (conn_read lib) (conn_recv lib) c)"

definition sendAll_session :: "'t ssl \<Rightarrow> string \<Rightarrow> 't \<Rightarrow> bool \<times> 't" where
  "sendAll_session lib data t =
     (case ssl_write lib data t of (n, t') \<Rightarrow> (n = sint (word_of_nat (length data) :: 32 word), t'))"

subsection \<open>A request as a function of the bytes\<close>

text \<open>What the readers make of the bytes that can be read.\<close>

fun line_spec :: "nat \<Rightarrow> string \<Rightarrow> string \<Rightarrow> bool \<times> string \<times> string" where
  "line_spec 0 line bs = (False, line, bs)"
| "line_spec (Suc k) line [] = (False, line, [])"
| "line_spec (Suc k) line (c # bs) =
     (if c = newline then (True, strip_line_end line, bs) else line_spec k (line @ [c]) bs)"

lemma line_spec_less: "line_spec k line bs = (True, l, bs') \<Longrightarrow> length bs' < length bs"
  by (induction k line bs rule: line_spec.induct) (auto split: if_splits)

lemma line_spec_none: "newline \<notin> set bs \<Longrightarrow> \<not> fst (line_spec k line bs)"
  by (induction k line bs rule: line_spec.induct) auto

lemma line_spec_line:
  "newline \<notin> set l \<Longrightarrow> length l < k \<Longrightarrow> line_spec k line (l @ newline # bs) = (True, strip_line_end (line @ l), bs)"
proof (induction l arbitrary: k line)
  case Nil
  then show ?case by (cases k) simp_all
next
  case (Cons c l)
  then show ?case by (cases k) auto
qed

function headers_spec :: "64 word \<times> string \<Rightarrow> string \<Rightarrow> 64 word \<times> string" where
  "headers_spec acc bs =
     (case line_spec max_line [] bs of
        (ok, line, bs') \<Rightarrow> if ok \<and> line \<noteq> [] then headers_spec (header_line line acc) bs' else acc)"
  by pat_completeness auto

termination
  by (relation "measure (\<lambda>(acc, bs). length bs)") (auto dest: line_spec_less [OF sym])

declare headers_spec.simps [simp del]

text \<open>The request without its body, with the length that the headers announce.\<close>

definition head_spec :: "string \<Rightarrow> (http_request \<times> 64 word) option" where
  "head_spec bs =
     (case line_spec max_line [] bs of
        (ok, line, bs') \<Rightarrow>
          if \<not> ok then None
          else let (method, path) = request_line line; (content_length, authorization) = headers_spec (0, []) bs'
               in Some (\<lparr>req_method = method, req_path = path, req_authorization = authorization, req_body = []\<rparr>, content_length))"

text \<open>The contract of a reader that is asked for one byte: the next of the bytes that can be read, or
  nothing when there are none.\<close>

locale byte_source =
  fixes read :: "nat \<Rightarrow> 's \<Rightarrow> string option \<times> 's" and bytes :: "'s \<Rightarrow> string" and good :: "'s \<Rightarrow> bool"
  assumes read_one: "good s \<Longrightarrow> bytes s = c # bs \<Longrightarrow> \<exists>s'. read 1 s = (Some [c], s') \<and> bytes s' = bs \<and> good s'"
    and read_end: "good s \<Longrightarrow> bytes s = [] \<Longrightarrow> fst (read 1 s) = None"
begin

lemma line_via_spec:
  assumes "good s" "line_spec k line (bytes s) = (ok, l, bs)"
  obtains s' where "line_via read k line s = (ok, l, s')" "ok \<Longrightarrow> bytes s' = bs \<and> good s'"
  using assms
proof (induction k arbitrary: line s thesis)
  case 0
  then show ?case by simp
next
  case (Suc k)
  show ?case
  proof (cases "bytes s")
    case Nil
    obtain s' where "read 1 s = (None, s')" using read_end [OF Suc.prems(2) Nil] by (cases "read 1 s") auto
    with Suc.prems Nil show ?thesis by auto
  next
    case (Cons c bs')
    obtain s' where got: "read 1 s = (Some [c], s')" "bytes s' = bs'" "good s'"
      using read_one [OF Suc.prems(2) Cons] by blast
    show ?thesis
    proof (cases "c = newline")
      case True
      then show ?thesis using Suc.prems got Cons by auto
    next
      case False
      with Suc.prems(3) Cons got(2) have "line_spec k (line @ [c]) (bytes s') = (ok, l, bs)" by simp
      from Suc.IH [OF _ got(3) this] obtain t where
        "line_via read k (line @ [c]) s' = (ok, l, t)" "ok \<Longrightarrow> bytes t = bs \<and> good t" by blast
      with False got(1) show ?thesis by (intro Suc.prems(1)) simp_all
    qed
  qed
qed

lemma headers_via_spec:
  "good s \<Longrightarrow> \<exists>s'. headers_via read acc s = Some (headers_spec acc (bytes s), s')"
proof (induction "length (bytes s)" arbitrary: acc s rule: less_induct)
  case less
  obtain ok l bs where spec: "line_spec max_line [] (bytes s) = (ok, l, bs)" by (metis prod_cases3)
  from line_via_spec [OF less.prems spec] obtain s' where
    via: "line_via read max_line [] s = (ok, l, s')" and rest: "ok \<Longrightarrow> bytes s' = bs \<and> good s'" by blast
  show ?case
  proof (cases "ok \<and> l \<noteq> []")
    case True
    then have "length (bytes s') < length (bytes s)" using line_spec_less [of max_line "[]" "bytes s"] spec rest by simp
    from less.hyps [OF this, of "header_line l acc"] rest True show ?thesis
      by (subst headers_via.simps) (simp add: recvLine_via_def via headers_spec.simps [of acc "bytes s"] spec)
  next
    case False
    then show ?thesis
      by (subst headers_via.simps) (auto simp: recvLine_via_def via headers_spec.simps [of acc "bytes s"] spec)
  qed
qed

text \<open>A request without a body is what \<open>head_spec\<close> makes of the bytes, however they are delivered.\<close>

lemma request_via_spec:
  assumes "good s" "case head_spec (bytes s) of None \<Rightarrow> True | Some (req, n) \<Rightarrow> n = 0"
  shows "request_via read recv s = Some (map_option fst (head_spec (bytes s)))"
proof -
  obtain ok l bs where spec: "line_spec max_line [] (bytes s) = (ok, l, bs)" by (metis prod_cases3)
  from line_via_spec [OF assms(1) spec] obtain s1 where
    via: "line_via read max_line [] s = (ok, l, s1)" and rest: "ok \<Longrightarrow> bytes s1 = bs \<and> good s1" by blast
  show ?thesis
  proof (cases ok)
    case False
    then show ?thesis by (simp add: request_via_def recvLine_via_def via head_spec_def spec)
  next
    case True
    with rest headers_via_spec [of s1 "(0, [])"] obtain s2 where
      "headers_via read (0, []) s1 = Some (headers_spec (0, []) bs, s2)" by blast
    with True assms(2) show ?thesis
      by (cases "headers_spec (0, []) bs")
        (simp add: request_via_def recvLine_via_def via head_spec_def spec case_prod_beta Let_def)
  qed
qed

end

interpretation plain: byte_source recv_some rx_bytes "\<lambda>es. True"
proof unfold_locales
  fix es :: rx_stream and c bs
  assume "rx_bytes es = c # bs"
  from recv_one [OF this] show "\<exists>es'. recv_some 1 es = (Some [c], es') \<and> rx_bytes es' = bs \<and> True" by metis
next
  fix es :: rx_stream
  assume "rx_bytes es = []"
  then show "fst (recv_some 1 es) = None" using recv_some_end [of es 1] by auto
qed

subsection \<open>Plain connections\<close>

lemma conn_plain [simp]:
  "conn_read lib n (Plain es) = apsnd Plain (recv_some n es)"
  "conn_recv lib n (Plain es) = apsnd Plain (recv_some n es)"
  by (simp_all add: conn_read_def conn_recv_def)

lemma recv_some_nonempty: "recv_some n es = (Some [], es') \<Longrightarrow> n = 0"
  using recv_some_weight [of n es "[]" es'] by auto

lemma recv_some_1: "recv_some 1 es = (Some bytes, es') \<Longrightarrow> \<exists>ch. bytes = [ch]"
proof (induction "1::nat" es rule: recv_some.induct)
  case (3 s es)
  then show ?case by (cases s) (auto split: if_splits)
qed simp_all

lemma line_via_plain:
  "line_via (conn_read lib) k line (Plain es) = apsnd (apsnd Plain) (recv_line_loop k line es)"
proof (induction k arbitrary: line es)
  case (Suc k)
  obtain r es' where r: "recv_some 1 es = (r, es')" by fastforce
  show ?case
  proof (cases r)
    case None
    with r show ?thesis by simp
  next
    case (Some bytes)
    with r recv_some_1 obtain ch where "bytes = [ch]" by blast
    with r Some Suc.IH show ?thesis by simp
  qed
qed simp

lemma recvLine_via_plain: "recvLine_via (conn_read lib) (Plain es) = apsnd (apsnd Plain) (recvLine es)"
  by (simp add: recvLine_via_def recvLine_def line_via_plain)

lemma exact_via_plain:
  "exact_via (conn_recv lib) data bytes (Plain es) = apsnd (apsnd Plain) (recv_exact_loop data bytes es)"
proof (induction data bytes es rule: recv_exact_loop.induct)
  case (1 data bytes es)
  show ?case
  proof (cases "length data < bytes")
    case True
    obtain r es' where r: "recv_some (min 4096 (bytes - length data)) es = (r, es')" by fastforce
    show ?thesis
    proof (cases r)
      case None
      with True r show ?thesis by (subst exact_via.simps, subst recv_exact_loop.simps) simp
    next
      case (Some got)
      have "got \<noteq> []" using recv_some_nonempty [of _ es es'] r Some True by fastforce
      then obtain c cs where "got = c # cs" by (meson list.exhaust)
      with True r Some 1 show ?thesis by (subst exact_via.simps, subst recv_exact_loop.simps) simp
    qed
  next
    case False
    then show ?thesis by (subst exact_via.simps, subst recv_exact_loop.simps) simp
  qed
qed

lemma headers_via_plain:
  "headers_via (conn_read lib) acc (Plain es) = Some (apsnd Plain (read_headers acc es))"
proof (induction acc es rule: read_headers.induct)
  case (1 acc es)
  obtain ok l es' where r: "recvLine es = (ok, l, es')" by (metis prod_cases3)
  show ?case
    using 1 [OF r [symmetric] refl]
    by (subst headers_via.simps, subst read_headers.simps) (simp add: recvLine_via_plain r)
qed

lemma request_via_plain: "request_via (conn_read lib) (conn_recv lib) (Plain es) = Some (read_request es)"
proof -
  obtain ok l es1 where l: "recvLine es = (ok, l, es1)" by (metis prod_cases3)
  obtain n a es2 where h: "read_headers (0, []) es1 = ((n, a), es2)" by (metis prod.exhaust)
  obtain got data es3 where e: "recv_exact_loop [] (unat n) es2 = (got, data, es3)" by (metis prod_cases3)
  show ?thesis
    by (simp add: request_via_def read_request_def recvLine_via_plain l headers_via_plain h exact_via_plain e
        recvExact_def case_prod_beta Let_def)
qed

lemma handle_via_plain: "handle_via lib s registry now peer (Plain es) = Some (handleClient s registry now peer es)"
  by (simp add: handle_via_def request_via_plain handleClient_def)

subsection \<open>TLS connections\<close>

text \<open>
  The documented behaviour of a session whose client has sent the records \<open>wire\<close> and waits for the
  answer, after \<open>pending\<close> was taken off the socket but not yet handed out: the socket is readable
  while it holds a record; \<^verbatim>\<open>SSL_read\<close> hands out pending bytes first, and otherwise takes one record.
\<close>

definition tls_documented :: "'t ssl \<Rightarrow> ('t \<Rightarrow> string) \<Rightarrow> ('t \<Rightarrow> string list) \<Rightarrow> bool" where
  "tls_documented lib pending wire \<longleftrightarrow>
     (\<forall>t. \<exists>t'. ssl_poll lib t = (wire t \<noteq> [], t') \<and> pending t' = pending t \<and> wire t' = wire t) \<and>
     (\<forall>t n. 0 < n \<longrightarrow> pending t \<noteq> [] \<longrightarrow>
        (\<exists>t'. ssl_read lib n t = (Some (take n (pending t)), t') \<and> pending t' = drop n (pending t) \<and> wire t' = wire t)) \<and>
     (\<forall>t n r rs. 0 < n \<longrightarrow> pending t = [] \<longrightarrow> wire t = r # rs \<longrightarrow> r \<noteq> [] \<longrightarrow>
        (\<exists>t'. ssl_read lib n t = (Some (take n r), t') \<and> pending t' = drop n r \<and> wire t' = rs))"

text \<open>The bytes the readers can reach: all but the last record, and of that one the first byte, since
  taking it empties the socket.\<close>

definition visible :: "string \<Rightarrow> string list \<Rightarrow> string" where
  "visible pending records = (if records = [] then [] else pending @ concat (butlast records) @ take 1 (last records))"

lemma visible_Nil [simp]: "visible p [] = []"
  by (simp add: visible_def)

fun conn_bytes :: "('t \<Rightarrow> string) \<Rightarrow> ('t \<Rightarrow> string list) \<Rightarrow> 't transport \<Rightarrow> string" where
  "conn_bytes pending wire (Plain es) = rx_bytes es"
| "conn_bytes pending wire (Session t) = visible (pending t) (wire t)"

fun conn_good :: "('t \<Rightarrow> string list) \<Rightarrow> 't transport \<Rightarrow> bool" where
  "conn_good wire (Plain es) \<longleftrightarrow> True"
| "conn_good wire (Session t) \<longleftrightarrow> [] \<notin> set (wire t)"

lemma tls_poll:
  assumes "tls_documented lib pending wire"
  shows "\<exists>t'. ssl_poll lib t = (wire t \<noteq> [], t') \<and> pending t' = pending t \<and> wire t' = wire t"
  using assms [unfolded tls_documented_def, THEN conjunct1] by (rule spec)

lemma tls_read_pending:
  assumes "tls_documented lib pending wire" "pending t \<noteq> []"
  shows "\<exists>t'. ssl_read lib 1 t = (Some (take 1 (pending t)), t') \<and> pending t' = drop 1 (pending t) \<and> wire t' = wire t"
  using assms(1) [unfolded tls_documented_def, THEN conjunct2, THEN conjunct1, rule_format, OF zero_less_one assms(2)] .

lemma tls_read_record:
  assumes "tls_documented lib pending wire" "pending t = []" "wire t = r # rs" "r \<noteq> []"
  shows "\<exists>t'. ssl_read lib 1 t = (Some (take 1 r), t') \<and> pending t' = drop 1 r \<and> wire t' = rs"
  using assms(1) [unfolded tls_documented_def, THEN conjunct2, THEN conjunct2, rule_format, OF zero_less_one assms(2-4)] .

lemma session_read:
  assumes doc: "tls_documented lib pending wire" and good: "[] \<notin> set (wire t)"
    and bytes: "visible (pending t) (wire t) = c # bs"
  shows "\<exists>t'. conn_read lib 1 (Session t) = (Some [c], Session t') \<and> visible (pending t') (wire t') = bs \<and> [] \<notin> set (wire t') \<and>
    (wire t' = wire t \<or> wire t' = tl (wire t))"
proof -
  have w: "wire t \<noteq> []" using bytes by auto
  then obtain t0 where t0: "ssl_poll lib t = (True, t0)" "pending t0 = pending t" "wire t0 = wire t"
    using tls_poll [OF doc, of t] by auto
  show ?thesis
  proof (cases "pending t")
    case (Cons d p)
    with t0(2) have "pending t0 \<noteq> []" by simp
    then obtain t' where t': "ssl_read lib 1 t0 = (Some (take 1 (pending t0)), t')"
        "pending t' = drop 1 (pending t0)" "wire t' = wire t0"
      using tls_read_pending [OF doc] by blast
    with Cons w bytes good t0 show ?thesis by (simp add: conn_read_def visible_def)
  next
    case Nil
    obtain r rs where r: "wire t = r # rs" "r \<noteq> []" using w good by (cases "wire t") auto
    then obtain d r' where d: "r = d # r'" by (cases r) auto
    have "pending t0 = []" "wire t0 = r # rs" using t0 Nil r by simp_all
    then obtain t' where t': "ssl_read lib 1 t0 = (Some (take 1 r), t')" "pending t' = drop 1 r" "wire t' = rs"
      using tls_read_record [OF doc _ _ r(2)] by blast
    with Nil r bytes good t0(1) d show ?thesis
      by (cases "rs = []") (simp_all add: conn_read_def visible_def)
  qed
qed

lemma conn_source:
  assumes "tls_documented lib pending wire"
  shows "byte_source (conn_read lib) (conn_bytes pending wire) (conn_good wire)"
proof
  fix s :: "'a transport" and c bs
  assume "conn_good wire s" "conn_bytes pending wire s = c # bs"
  then show "\<exists>s'. conn_read lib 1 s = (Some [c], s') \<and> conn_bytes pending wire s' = bs \<and> conn_good wire s'"
    using session_read [OF assms] plain.read_one [OF TrueI] by (cases s) fastforce+
next
  fix s :: "'a transport"
  assume good: "conn_good wire s" and none: "conn_bytes pending wire s = []"
  show "fst (conn_read lib 1 s) = None"
  proof (cases s)
    case (Plain es)
    then show ?thesis using none plain.read_end by simp
  next
    case (Session t)
    with good have "wire t \<noteq> [] \<Longrightarrow> last (wire t) \<noteq> []" by (metis conn_good.simps(2) last_in_set)
    with none Session have "wire t = []" by (auto simp: visible_def split: if_splits)
    then obtain t' where "ssl_poll lib t = (False, t')" using tls_poll [OF assms, of t] by auto
    then show ?thesis using Session by (simp add: conn_read_def)
  qed
qed

text \<open>A session that behaves as documented: the bytes taken off the socket, and the records on it.\<close>

definition record_session :: "(string \<times> string list) ssl" where
  "record_session =
     \<lparr>ssl_poll = \<lambda>(p, w). (w \<noteq> [], (p, w)),
      ssl_read = \<lambda>n (p, w).
        if p \<noteq> [] then (Some (take n p), (drop n p, w))
        else (case w of [] \<Rightarrow> (None, (p, w)) | r # rs \<Rightarrow> (Some (take n r), (drop n r, rs))),
      ssl_recv = \<lambda>n t. (None, t),
      ssl_write = \<lambda>data t. (int (length data), t)\<rparr>"

lemma record_session_documented: "tls_documented record_session fst snd"
  by (auto simp: tls_documented_def record_session_def)

text \<open>What a TLS client's request without a body looks like, when it has sent its records and waits: the server
  handles it as if it had come in plain text with the last record cut after its first byte, because the
  rest of a record is where \<^verbatim>\<open>poll\<close> does not see it.\<close>

lemma handle_session:
  assumes "tls_documented lib pending wire" "[] \<notin> set (wire t)"
    and "case head_spec (visible (pending t) (wire t)) of None \<Rightarrow> True | Some (req, n) \<Rightarrow> n = 0"
  shows "handle_via lib s registry now peer (Session t) =
    Some (handleClient s registry now peer [Chunk (visible (pending t) (wire t))])"
proof -
  note source = byte_source.request_via_spec [OF conn_source [OF assms(1)]]
  have "request_via (conn_read lib) (conn_recv lib) (Session t) =
      request_via (conn_read lib) (conn_recv lib) (Plain [Chunk (visible (pending t) (wire t))])"
    using source [of "Session t"] source [of "Plain [Chunk (visible (pending t) (wire t))]"] assms(2,3) by simp
  then show ?thesis
    by (simp add: handle_via_def request_via_plain handleClient_def)
qed

lemma headers_none: "newline \<notin> set bs \<Longrightarrow> headers_spec acc bs = acc"
  using line_spec_none [of bs max_line "[]"] by (subst headers_spec.simps) (auto split: prod.split)

lemma head_none: "newline \<notin> set bs \<Longrightarrow> head_spec bs = None"
  using line_spec_none [of bs max_line "[]"] by (auto simp: head_spec_def split: prod.split)

subsection \<open>Properties\<close>

text \<open>C20: No GET that a TLS client sends in one record, which is how clients send them, is ever answered: the
  server gives up on the first line and changes nothing. The same bytes in plain text are answered.\<close>

theorem tls_request_in_one_record_unanswered:
  assumes "tls_documented lib pending wire" "pending t = []" "wire t = [get_request host path]"
    and "clean_host host" "clean_path path"
  shows "handle_via lib s registry now peer (Session t) =
      Some \<lparr>sent = None, new_limiter = srv_limiter s, new_registry = registry, logged = []\<rparr> \<and>
    (\<exists>out reply. handle_via lib s registry now peer (Plain [Chunk (get_request host path)]) = Some out \<and> sent out = Some reply)"
proof -
  have v: "visible (pending t) (wire t) = ''G''" by (simp add: assms(2,3) visible_def get_request_def)
  have one: "head_spec ''G'' = None" by (rule head_none) simp
  have "read_request [Chunk ''G''] = None"
    using byte_source.request_via_spec [OF conn_source [OF assms(1)], of "Plain [Chunk ''G'']" "conn_recv lib"]
    by (simp add: one request_via_plain)
  then have "handleClient s registry now peer [Chunk ''G''] =
      \<lparr>sent = None, new_limiter = srv_limiter s, new_registry = registry, logged = []\<rparr>"
    by (simp add: handleClient_eq)
  moreover have "handle_via lib s registry now peer (Session t) = Some (handleClient s registry now peer [Chunk ''G''])"
  proof -
    have "[] \<notin> set (wire t)" by (simp add: assms(3) get_request_def)
    from handle_session [OF assms(1) this, of s registry now peer] show ?thesis unfolding v by (simp add: one)
  qed
  moreover have "\<exists>reply. sent (handleClient s registry now peer [Chunk (get_request host path)]) = Some reply"
    using read_request_get [of host path "[Chunk (get_request host path)]"] assms(4,5)
    by (auto simp: handleClient_eq case_prod_beta Let_def)
  ultimately show ?thesis by (auto simp: handle_via_plain)
qed

theorem tls_request_in_one_record_unanswered_witness:
  "handle_via record_session (MetricsServer_new ''0.0.0.0'' 19100) registry_empty 0 ''10.0.0.1:80''
     (Session ([], [get_request ''h'' ''/metrics''])) =
   Some \<lparr>sent = None, new_limiter = RateLimiter_new 0, new_registry = registry_empty, logged = []\<rparr>"
proof -
  have clean: "clean_host ''h''" "clean_path ''/metrics''" by (simp_all add: clean_host_def clean_path_def isspace_def)
  show ?thesis
    using tls_request_in_one_record_unanswered [OF record_session_documented _ _ clean, of "([], [get_request ''h'' ''/metrics''])"
        "MetricsServer_new ''0.0.0.0'' 19100" registry_empty 0 "''10.0.0.1:80''"]
    by (simp add: MetricsServer_new_def)
qed

end
