(* ===== verification/Authorization.thy ===== *)
theory Authorization
  imports Metrics_Server
begin

section \<open>Basic authentication over HTTP (security/acl.cpp, http/metrics_server.cpp)\<close>

text \<open>
  The Authorization header from the bytes of a request to the reply: the credentials the documentation
  describes, the header that passes without a password, and the header a standard client sends.
\<close>

subsection \<open>Reference: the credentials of a standard client\<close>

text \<open>What RFC 7617 has a client send is the base64 code (RFC 4648) of the name, a colon and the password. The code
  is not the program's: \<^verbatim>\<open>acl.cpp\<close> mentions it and never decodes it.\<close>

definition base64_alphabet :: string where
  "base64_alphabet = ''ABCDEFGHIJKLMNOPQRSTUVWXYZabcdefghijklmnopqrstuvwxyz0123456789+/''"

definition digit64 :: "nat \<Rightarrow> char" where
  "digit64 n = base64_alphabet ! (n mod 64)"

definition octet :: "char \<Rightarrow> nat" where
  "octet c = of_char c"

fun base64 :: "string \<Rightarrow> string" where
  "base64 [] = []"
| "base64 [a] = [digit64 (octet a div 4), digit64 (octet a * 16), CHR ''='', CHR ''='']"
| "base64 [a, b] = [digit64 (octet a div 4), digit64 (octet a * 16 + octet b div 16), digit64 (octet b * 4), CHR ''='']"
| "base64 (a # b # c # s) =
     digit64 (octet a div 4) # digit64 (octet a * 16 + octet b div 16) # digit64 (octet b * 4 + octet c div 64) #
     digit64 (octet c) # base64 s"

definition base64_chars :: "char set" where
  "base64_chars = set base64_alphabet \<union> {CHR ''=''}"

lemma base64_length: "length (base64 s) \<le> 4 * length s"
  by (induction s rule: base64.induct) simp_all

lemma digit64_in: "digit64 n \<in> base64_chars"
proof -
  have "n mod 64 < length base64_alphabet" by (simp add: base64_alphabet_def)
  then show ?thesis unfolding digit64_def base64_chars_def by simp
qed

lemma base64_in: "set (base64 s) \<subseteq> base64_chars"
proof (induction s rule: base64.induct)
  case (4 a b c s)
  then show ?case by (simp add: digit64_in)
qed (simp_all add: digit64_in, simp_all add: base64_chars_def)

lemma base64_chars_plain: "c \<in> base64_chars \<Longrightarrow> c \<noteq> CHR '':'' \<and> c \<noteq> newline \<and> c \<noteq> carriage_return"
  by (auto simp: base64_chars_def base64_alphabet_def)

subsection \<open>The request with an Authorization header\<close>

definition authorized_get :: "string \<Rightarrow> string" where
  "authorized_get value = ''GET /metrics HTTP/1.1'' @ crlf @ ''Authorization: '' @ value @ crlf @ crlf"

definition header_value :: "string \<Rightarrow> bool" where
  "header_value v \<longleftrightarrow> v \<noteq> [] \<and> nonspace (hd v) \<and> newline \<notin> set v \<and> last v \<noteq> carriage_return \<and> length v < 8000"

lemma authorization_line:
  assumes "header_value v"
  shows "header_line (''Authorization: '' @ v) acc = (fst acc, v)"
proof -
  have k: "CHR '':'' \<notin> set ''Authorization''" by simp
  have "split_at CHR '':'' (''Authorization'' @ CHR '':'' # CHR '' '' # v) = Some (''Authorization'', CHR '' '' # v)"
    by (rule split_at_append [OF k])
  then have s: "split_at CHR '':'' (''Authorization: '' @ v) = Some (''Authorization'', CHR '' '' # v)" by simp
  have l: "lowerCopy ''Authorization'' = ''authorization''" by code_simp
  have d: "dropWhile isspace (CHR '' '' # v) = v"
    using assms by (cases v) (simp_all add: header_value_def isspace_def)
  show ?thesis by (cases acc) (simp only: header_line_def prod.case s option.case l Let_def d, simp)
qed

lemma read_request_authorized:
  assumes "header_value v" "rx_bytes es = authorized_get v"
  shows "read_request es = Some \<lparr>req_method = ''GET'', req_path = ''/metrics'', req_authorization = v, req_body = []\<rparr>"
proof -
  let ?line = "''GET /metrics HTTP/1.1''" and ?hs = "[''Authorization: '' @ v]"
  have cl: "clean_line ?line" by (simp add: clean_line_def max_line_def)
  have b: "rx_bytes es = ?line @ crlf @ concat (map (\<lambda>h. h @ crlf) ?hs) @ crlf"
    using assms(2) by (simp add: authorized_get_def)
  obtain es1 where es1: "recvLine es = (True, ?line, es1)" "rx_bytes es1 = concat (map (\<lambda>h. h @ crlf) ?hs) @ crlf"
    by (rule recvLine_crlf [OF cl b])
  have "\<forall>h \<in> set ?hs. clean_line h \<and> h \<noteq> []"
    using assms(1) by (simp add: header_value_def clean_line_def max_line_def)
  from read_headers_bytes [OF this, of es1 "[]" "(0, [])"] es1(2)
  obtain es2 where "read_headers (0, []) es1 = ((0, v), es2)"
    by (auto simp: authorization_line [OF assms(1)] simp del: append_assoc append_Cons)
  moreover have "clean_path ''/metrics''" by (simp add: clean_path_def isspace_def)
  then have "request_line ?line = (''GET'', ''/metrics'')"
    using request_line_tokens [of "''/metrics''" "''GET''"] by (simp add: isspace_def)
  ultimately show ?thesis using es1(1) unfolding read_request_def by simp
qed

text \<open>The two replies such a request can get once the limiter admits it.\<close>

definition metrics_reply :: "MetricRegistry \<Rightarrow> string" where
  "metrics_reply r = http_reply ''200 OK'' metrics_type (renderPrometheusText r True)"

definition forbidden_reply :: string where
  "forbidden_reply = http_reply ''403 Forbidden'' ''text/plain'' (''forbidden'' @ [newline])"

lemma replies_differ: "metrics_reply r \<noteq> forbidden_reply"
  by (simp add: metrics_reply_def forbidden_reply_def http_reply_def)

lemma status_text_200: "status_text 200 = ''200 OK''"
  by code_simp

lemma authorized_reply:
  assumes "header_value v" "rx_bytes es = authorized_get v" "ipAllowed (srv_acl s) peer" "fst (limiter_allow (srv_limiter s) peer now)"
  shows "sent (handleClient s r now peer es) = Some (if authOk (srv_acl s) v then metrics_reply r else forbidden_reply)"
proof -
  let ?req = "\<lparr>req_method = ''GET'', req_path = ''/metrics'', req_authorization = v, req_body = []\<rparr>"
  note req = read_request_authorized [OF assms(1,2)]
  have path: "path_of ?req = ''/metrics''" by (simp add: path_of_def)
  have permit: "acl_permits (srv_acl s) peer (path_of ?req) (req_authorization ?req) \<longleftrightarrow> authOk (srv_acl s) v"
    using assms(3) by (simp add: path acl_permits_def)
  have rt: "route r (srv_bound_port s) (req_method ?req) (path_of ?req) (req_body ?req) =
      (200, metrics_type, renderPrometheusText r True, r, [])"
    by (simp add: route_def path)
  show ?thesis
  proof (cases "authOk (srv_acl s) v")
    case True
    with handleClient_admitted [OF req _ assms(4) rt] permit show ?thesis
      by (simp add: metrics_reply_def status_text_200)
  next
    case False
    with permit show ?thesis by (simp add: handleClient_def answer_def req forbidden_reply_def)
  qed
qed

subsection \<open>What is accepted\<close>

lemma contains_set: "contains p s \<Longrightarrow> set p \<subseteq> set s"
  by (auto simp: contains_iff)

lemma authOk_plain_header:
  assumes "acl_user p \<noteq> []" "\<not> starts_with ''Basic '' v \<or> CHR '':'' \<notin> set v"
  shows "authOk p v \<longleftrightarrow> contains (acl_user p) v"
proof (rule authOk_no_colon [OF assms(1)])
  show "CHR '':'' \<notin> set (decodeBasic v)"
    using assms(2) by (auto simp: decodeBasic_def dest: in_set_dropD)
qed

lemma standard_header:
  assumes "length user + length password < 1900"
  shows "header_value (''Basic '' @ base64 (user @ '':'' @ password))"
    and "set (''Basic '' @ base64 (user @ '':'' @ password)) \<subseteq> base64_chars \<union> {CHR '' ''}"
proof -
  let ?b = "base64 (user @ '':'' @ password)"
  have "length ?b \<le> 4 * length (user @ '':'' @ password)" by (rule base64_length)
  moreover have "c \<in> set ?b \<Longrightarrow> c \<noteq> newline \<and> c \<noteq> carriage_return" for c
    using base64_in [of "user @ '':'' @ password"] base64_chars_plain by blast
  ultimately show "header_value (''Basic '' @ ?b)"
    using assms by (auto simp: header_value_def isspace_def last_append dest: last_in_set)
  show "set (''Basic '' @ ?b) \<subseteq> base64_chars \<union> {CHR '' ''}"
  proof -
    have "set ''Basic '' \<subseteq> base64_chars \<union> {CHR '' ''}" by (simp add: base64_chars_def base64_alphabet_def)
    with base64_in [of "user @ '':'' @ password"] show ?thesis unfolding set_append by blast
  qed
qed

subsection \<open>Property\<close>

text \<open>C36: Basic authentication, from the request's bytes to the reply. The server has credentials, the policy admits
  the peer's address and the limiter the request. A client that sends \<open>Basic user:password\<close> in the clear, as the
  documentation says, gets the metrics exactly when both are right. But no password is needed: any header value
  that does not start with \<open>Basic \<close>, or has no colon, gets them when it contains the user name. And the right
  credentials in base64, as a standard client sends them, are refused unless the code happens to contain
  the user name, so always when the name has a character that base64 does not use, such as a dash.\<close>

theorem authorization_over_http:
  assumes "acl_user (srv_acl s) \<noteq> []" "ipAllowed (srv_acl s) peer" "fst (limiter_allow (srv_limiter s) peer now)"
  shows "(\<forall>user password es. CHR '':'' \<notin> set user \<and> header_value (''Basic '' @ user @ '':'' @ password) \<and>
      rx_bytes es = authorized_get (''Basic '' @ user @ '':'' @ password) \<longrightarrow>
      sent (handleClient s r now peer es) =
        Some (if user = acl_user (srv_acl s) \<and> password = acl_password (srv_acl s) then metrics_reply r else forbidden_reply)) \<and>
    (\<forall>v es. header_value v \<and> (\<not> starts_with ''Basic '' v \<or> CHR '':'' \<notin> set v) \<and> rx_bytes es = authorized_get v \<longrightarrow>
      sent (handleClient s r now peer es) =
        Some (if \<exists>before after. v = before @ acl_user (srv_acl s) @ after then metrics_reply r else forbidden_reply)) \<and>
    (\<forall>es. length (acl_user (srv_acl s)) + length (acl_password (srv_acl s)) < 1900 \<and>
      \<not> set (acl_user (srv_acl s)) \<subseteq> base64_chars \<union> {CHR '' ''} \<and>
      rx_bytes es = authorized_get (''Basic '' @ base64 (acl_user (srv_acl s) @ '':'' @ acl_password (srv_acl s))) \<longrightarrow>
      sent (handleClient s r now peer es) = Some forbidden_reply)"
proof (intro conjI allI impI; elim conjE)
  fix user password es
  assume "CHR '':'' \<notin> set user" "header_value (''Basic '' @ user @ '':'' @ password)"
    "rx_bytes es = authorized_get (''Basic '' @ user @ '':'' @ password)"
  with authorized_reply [OF this(2,3) assms(2,3)] authOk_credentials [OF assms(1) this(1)]
  show "sent (handleClient s r now peer es) =
      Some (if user = acl_user (srv_acl s) \<and> password = acl_password (srv_acl s) then metrics_reply r else forbidden_reply)"
    by simp
next
  fix v es
  assume "header_value v" "\<not> starts_with ''Basic '' v \<or> CHR '':'' \<notin> set v" "rx_bytes es = authorized_get v"
  with authorized_reply [OF this(1,3) assms(2,3)] authOk_plain_header [OF assms(1) this(2)]
  show "sent (handleClient s r now peer es) =
      Some (if \<exists>before after. v = before @ acl_user (srv_acl s) @ after then metrics_reply r else forbidden_reply)"
    by (simp add: contains_iff)
next
  let ?u = "acl_user (srv_acl s)"
  let ?v = "''Basic '' @ base64 (?u @ '':'' @ acl_password (srv_acl s))"
  fix es
  assume len: "length ?u + length (acl_password (srv_acl s)) < 1900" and odd: "\<not> set ?u \<subseteq> base64_chars \<union> {CHR '' ''}"
    and es: "rx_bytes es = authorized_get ?v"
  have "CHR '':'' \<notin> set ?v" "\<not> contains ?u ?v"
    using standard_header(2) [OF len] odd contains_set [of ?u ?v] base64_chars_plain by blast+
  with authOk_plain_header [OF assms(1), of ?v] have "\<not> authOk (srv_acl s) ?v" by blast
  with authorized_reply [OF standard_header(1) [OF len] es assms(2,3)] show "sent (handleClient s r now peer es) = Some forbidden_reply"
    by simp
qed

text \<open>A server for \<open>metrics-user\<close>: the documented header, a wrong password, the bare name, and base64.\<close>

theorem authorization_over_http_witness:
  "let s = setAcl (MetricsServer_new ''0.0.0.0'' 19100) (setCredentials AclPolicy_new ''metrics-user'' ''secret'');
       reply = (\<lambda>v. sent (handleClient s registry_empty 0 ''10.0.0.1:80'' [Chunk (authorized_get v)]))
   in reply ''Basic metrics-user:secret'' = Some (metrics_reply registry_empty) \<and>
      reply ''Basic metrics-user:guess'' = Some forbidden_reply \<and>
      reply ''basic metrics-user:guess'' = Some (metrics_reply registry_empty) \<and>
      reply ''Basic metrics-user'' = Some (metrics_reply registry_empty) \<and>
      reply (''Basic '' @ base64 ''metrics-user:secret'') = Some forbidden_reply"
proof -
  let ?s = "setAcl (MetricsServer_new ''0.0.0.0'' 19100) (setCredentials AclPolicy_new ''metrics-user'' ''secret'')"
  have u: "acl_user (srv_acl ?s) = ''metrics-user''" "acl_password (srv_acl ?s) = ''secret''"
    by (simp_all add: setAcl_def setCredentials_def)
  have "acl_user (srv_acl ?s) \<noteq> []" "ipAllowed (srv_acl ?s) ''10.0.0.1:80''"
    "fst (limiter_allow (srv_limiter ?s) ''10.0.0.1:80'' 0)"
    by (simp_all add: setAcl_def setCredentials_def AclPolicy_new_def ipAllowed_def MetricsServer_new_def RateLimiter_new_def limiter_allow_def)
  note auth = authorization_over_http [OF this, of registry_empty, unfolded u]
  note plain = conjunct1 [OF auth, rule_format] and name = conjunct1 [OF conjunct2 [OF auth], rule_format]
    and standard = conjunct2 [OF conjunct2 [OF auth], rule_format]
  let ?reply = "\<lambda>v. sent (handleClient ?s registry_empty 0 ''10.0.0.1:80'' [Chunk (authorized_get v)])"
  have "?reply ''Basic metrics-user:secret'' = Some (metrics_reply registry_empty)"
    using plain [of "''metrics-user''" "''secret''" "[Chunk (authorized_get ''Basic metrics-user:secret'')]"]
    by (simp add: header_value_def isspace_def)
  moreover have "?reply ''Basic metrics-user:guess'' = Some forbidden_reply"
    using plain [of "''metrics-user''" "''guess''" "[Chunk (authorized_get ''Basic metrics-user:guess'')]"]
    by (simp add: header_value_def isspace_def)
  moreover have "?reply ''basic metrics-user:guess'' = Some (metrics_reply registry_empty)"
    using name [of "''basic metrics-user:guess''" "[Chunk (authorized_get ''basic metrics-user:guess'')]"] contains_iff [of "''metrics-user''" "''basic metrics-user:guess''"]
    by (simp add: header_value_def isspace_def)
  moreover have "?reply ''Basic metrics-user'' = Some (metrics_reply registry_empty)"
    using name [of "''Basic metrics-user''" "[Chunk (authorized_get ''Basic metrics-user'')]"] contains_iff [of "''metrics-user''" "''Basic metrics-user''"]
    by (simp add: header_value_def isspace_def)
  moreover have "CHR ''-'' \<notin> base64_chars" by (simp add: base64_chars_def base64_alphabet_def)
  then have "?reply (''Basic '' @ base64 ''metrics-user:secret'') = Some forbidden_reply"
    using standard [of "[Chunk (authorized_get (''Basic '' @ base64 ''metrics-user:secret''))]"] by (simp add: rx_bytes.simps del: base64.simps)
  ultimately show ?thesis unfolding Let_def by blast
qed

end
