(* ===== verification/Broken_Pipe.thy ===== *)
theory Broken_Pipe
  imports Tls_Session Sockets
begin

section \<open>Connections that the peer resets (net.cpp, metrics_server.cpp)\<close>

text \<open>
  What the kernel does with a plain connection that its peer resets is documented: the bytes that have arrived can
  still be read; then the next call on the socket, \<^verbatim>\<open>recv\<close> or \<^verbatim>\<open>send\<close>, fails once with \<^verbatim>\<open>ECONNRESET\<close>; a
  \<^verbatim>\<open>send\<close> after that fails with \<^verbatim>\<open>EPIPE\<close> and raises \<^verbatim>\<open>SIGPIPE\<close>, unless it is called with \<^verbatim>\<open>MSG_NOSIGNAL\<close>.
  The code never does, and has no handler. The theory runs \<^verbatim>\<open>handleClient\<close> over such a connection: whether the
  signal comes depends on who sees the reset first, the headers' last \<^verbatim>\<open>recvLine\<close> or the reply's \<^verbatim>\<open>send\<close>.
\<close>

subsection \<open>The socket\<close>

text \<open>What the socket delivers while the server reads, whether a reset follows it, and whether a call has
  reported the reset already.\<close>

record link =
  arriving :: rx_stream
  resets :: bool
  reported :: bool

text \<open>Nothing is left to read, and no time-out comes first.\<close>

definition drained :: "rx_stream \<Rightarrow> bool" where
  "drained es \<longleftrightarrow> list_all (\<lambda>e. e = Chunk []) es"

definition link_recv :: "nat \<Rightarrow> link \<Rightarrow> string option \<times> link" where
  "link_recv n k =
     (case recv_some n (arriving k) of
        (r, es) \<Rightarrow> (r, k\<lparr>arriving := es, reported := (reported k \<or> drained (arriving k) \<and> resets k)\<rparr>))"

text \<open>\<^verbatim>\<open>sendBytes\<close>: for each \<^verbatim>\<open>send\<close>, whether a reset has arrived by then, and otherwise its answer. As
  in \<open>sendBytes\<close>, no further answer is an error.\<close>

datatype send_outcome = Sent_All | Send_Failed | Signalled

fun send_over :: "bool \<Rightarrow> string \<Rightarrow> (bool \<times> int) list \<Rightarrow> send_outcome" where
  "send_over was_reported data [] =
     (if data = [] then Sent_All else if was_reported then Signalled else Send_Failed)"
| "send_over was_reported data ((reset, n) # ns) =
     (if data = [] then Sent_All
      else if was_reported then Signalled
      else if reset \<or> n \<le> 0 then Send_Failed
      else send_over was_reported (drop (nat n) data) ns)"

subsection \<open>The handler\<close>

text \<open>\<open>request_via\<close> again, with the connection as the reads leave it.\<close>

definition request_with ::
    "(nat \<Rightarrow> 's \<Rightarrow> string option \<times> 's) \<Rightarrow> (nat \<Rightarrow> 's \<Rightarrow> string option \<times> 's) \<Rightarrow> 's \<Rightarrow> (http_request option \<times> 's) option" where
  "request_with read recv s =
     (case recvLine_via read s of
        (ok, line, s1) \<Rightarrow>
          if \<not> ok then Some (None, s1)
          else
            let (method, path) = request_line line
            in case headers_via read (0, []) s1 of
                 None \<Rightarrow> None
               | Some ((content_length, authorization), s2) \<Rightarrow>
                   Some (if content_length > 0 then
                           if content_length > 1024 * 1024 then (None, s2)
                           else case exact_via recv [] (unat content_length) s2 of
                             (got, data, s3) \<Rightarrow>
                               (if got then Some \<lparr>req_method = method, req_path = path, req_authorization = authorization, req_body = data\<rparr>
                                else None, s3)
                         else (Some \<lparr>req_method = method, req_path = path, req_authorization = authorization, req_body = []\<rparr>, s2)))"

lemma request_via_with: "request_via read recv s = map_option fst (request_with read recv s)"
  by (simp add: request_via_def request_with_def case_prod_beta Let_def split: option.split)

text \<open>\<^verbatim>\<open>handleClient\<close>: what it does, and how the sending of its reply ends, if it has one.\<close>

definition serve_link :: "MetricsServer \<Rightarrow> MetricRegistry \<Rightarrow> time_point \<Rightarrow> string \<Rightarrow> link \<Rightarrow> (bool \<times> int) list \<Rightarrow>
    (served \<times> send_outcome option) option" where
  "serve_link s registry now peer k sends =
     (case request_with link_recv link_recv k of
        None \<Rightarrow> None
      | Some (request, k') \<Rightarrow>
          let out = answer s registry now peer request
          in Some (out, map_option (\<lambda>reply. send_over (reported k') reply sends) (sent out)))"

subsection \<open>Without a reset\<close>

text \<open>When no reset comes, \<open>send_over\<close> is \<open>sendBytes\<close>.\<close>

lemma send_over_no_reset:
  "list_all (\<lambda>(reset, n). \<not> reset) ns \<Longrightarrow>
     send_over False data ns = (if fst (sendBytes data (map snd ns)) then Sent_All else Send_Failed)"
  by (induction "False" data ns rule: send_over.induct) (auto simp: case_prod_beta Let_def)

text \<open>The signal comes exactly when the reset was reported before the reply.\<close>

lemma send_over_signal: "data \<noteq> [] \<Longrightarrow> send_over was_reported data ns = Signalled \<longleftrightarrow> was_reported"
proof -
  have "send_over False data ns \<noteq> Signalled" by (induction "False" data ns rule: send_over.induct) auto
  moreover have "data \<noteq> [] \<Longrightarrow> send_over True data ns = Signalled" by (cases "(True, data, ns)" rule: send_over.cases) auto
  ultimately show "data \<noteq> [] \<Longrightarrow> send_over was_reported data ns = Signalled \<longleftrightarrow> was_reported" by (cases was_reported) auto
qed

text \<open>What is read does not depend on whether a reset follows: the handler does what it does on the stream.\<close>

lemma link_recv_stream: "recv_some n (arriving k) = apsnd arriving (link_recv n k)"
  by (simp add: link_recv_def case_prod_beta apsnd_def map_prod_def)

lemma link_line: "recv_line_loop n line (arriving k) = apsnd (apsnd arriving) (line_via link_recv n line k)"
proof (induction n arbitrary: line k)
  case (Suc n)
  obtain r k1 where r: "link_recv 1 k = (r, k1)" by fastforce
  then have r': "recv_some 1 (arriving k) = (r, arriving k1)" by (simp add: link_recv_stream)
  show ?case
  proof (cases r)
    case None
    with r r' show ?thesis by simp
  next
    case (Some bytes)
    with r' recv_some_1 obtain ch where "bytes = [ch]" by blast
    with r r' Some Suc.IH show ?thesis by simp
  qed
qed simp

lemma link_exact: "recv_exact_loop data n (arriving k) = apsnd (apsnd arriving) (exact_via link_recv data n k)"
proof (induction "n - length data" arbitrary: data k rule: less_induct)
  case less
  show ?case
  proof (cases "length data < n")
    case True
    let ?m = "min 4096 (n - length data)"
    obtain r k1 where r: "link_recv ?m k = (r, k1)" by fastforce
    then have r': "recv_some ?m (arriving k) = (r, arriving k1)" by (simp add: link_recv_stream)
    show ?thesis
    proof (cases r)
      case None
      with True r r' show ?thesis by (subst exact_via.simps, subst recv_exact_loop.simps) simp
    next
      case (Some got)
      have "got \<noteq> []" using recv_some_nonempty [of ?m "arriving k"] r' Some True by fastforce
      then obtain c cs where g: "got = c # cs" by (meson list.exhaust)
      have "n - length (data @ got) < n - length data" using g True by simp
      from less.hyps [OF this] True r r' Some g show ?thesis
        by (subst exact_via.simps, subst recv_exact_loop.simps) simp
    qed
  next
    case False
    then show ?thesis by (subst exact_via.simps, subst recv_exact_loop.simps) simp
  qed
qed

lemma link_headers: "\<exists>k'. headers_via link_recv acc k = Some (fst (read_headers acc (arriving k)), k')  \<and>
    arriving k' = snd (read_headers acc (arriving k))"
proof (induction "rx_weight (arriving k)" arbitrary: acc k rule: less_induct)
  case less
  obtain ok l k1 where v: "line_via link_recv max_line [] k = (ok, l, k1)" by (metis prod_cases3)
  then have r: "recvLine (arriving k) = (ok, l, arriving k1)" by (simp add: recvLine_def link_line)
  show ?case
  proof (cases "ok \<and> l \<noteq> []")
    case True
    then have "rx_weight (arriving k1) < rx_weight (arriving k)" using recvLine_weight [of "arriving k" l "arriving k1"] r by simp
    from less.hyps [OF this, of "header_line l acc"] True show ?thesis
      by (subst headers_via.simps, subst (1 2) read_headers.simps) (simp add: recvLine_via_def v r)
  next
    case False
    then show ?thesis by (subst headers_via.simps, subst (1 2) read_headers.simps) (auto simp: recvLine_via_def v r)
  qed
qed

lemma link_request: "\<exists>k'. request_with link_recv link_recv k = Some (read_request (arriving k), k')"
proof -
  obtain ok l k1 where v: "line_via link_recv max_line [] k = (ok, l, k1)" by (metis prod_cases3)
  then have r: "recvLine (arriving k) = (ok, l, arriving k1)" by (simp add: recvLine_def link_line)
  obtain k2 where h: "headers_via link_recv (0, []) k1 = Some (fst (read_headers (0, []) (arriving k1)), k2)"
    "arriving k2 = snd (read_headers (0, []) (arriving k1))" using link_headers by blast
  obtain n a where na: "fst (read_headers (0, []) (arriving k1)) = (n, a)" by fastforce
  have "read_headers (0, []) (arriving k1) = ((n, a), arriving k2)" using h(2) na by (metis prod.collapse)
  then show ?thesis
    by (auto simp: request_with_def read_request_def recvLine_via_def recvExact_def v r h(1) na link_exact case_prod_beta Let_def)
qed

lemma serve_link_out:
  "\<exists>outcome. serve_link s registry now peer k sends = Some (handleClient s registry now peer (arriving k), outcome)"
  using link_request [of k] by (auto simp: serve_link_def handleClient_def Let_def)

subsection \<open>Who sees the reset\<close>

definition link_bytes :: "link \<Rightarrow> string" where
  "link_bytes k = rx_bytes (arriving k)"

text \<open>A connection on which no time-out comes and no reset has been reported; \<open>b\<close>: a reset follows the bytes.\<close>

definition link_good :: "bool \<Rightarrow> link \<Rightarrow> bool" where
  "link_good b k \<longleftrightarrow> Stall \<notin> set (arriving k) \<and> \<not> reported k \<and> resets k = b"

lemma drained_bytes: "Stall \<notin> set es \<Longrightarrow> drained es \<longleftrightarrow> rx_bytes es = []"
  unfolding drained_def by (induction es rule: rx_bytes.induct) auto

lemma recv_some_no_stall: "recv_some n es = (r, es') \<Longrightarrow> Stall \<notin> set es \<Longrightarrow> Stall \<notin> set es'"
  by (induction n es rule: recv_some.induct) (auto split: if_splits)

interpretation link: byte_source link_recv link_bytes "link_good b"
proof unfold_locales
  fix k c bs
  assume good: "link_good b k" and bytes: "link_bytes k = c # bs"
  then have "rx_bytes (arriving k) = c # bs" by (simp add: link_bytes_def)
  then obtain es where es: "recv_some 1 (arriving k) = (Some [c], es)" "rx_bytes es = bs" by (rule recv_one)
  have "\<not> drained (arriving k)" using good bytes by (simp add: link_good_def link_bytes_def drained_bytes)
  with es good recv_some_no_stall [OF es(1)]
  show "\<exists>k'. link_recv 1 k = (Some [c], k') \<and> link_bytes k' = bs \<and> link_good b k'"
    by (simp add: link_recv_def link_bytes_def link_good_def)
next
  fix k
  assume "link_good b k" "link_bytes k = []"
  then show "fst (link_recv 1 k) = None"
    using recv_some_end [of "arriving k" 1] by (auto simp: link_bytes_def link_recv_def)
qed

lemma link_full_line:
  assumes "link_good b k" "clean_line l" "link_bytes k = l @ crlf @ bs"
  obtains k' where "recvLine_via link_recv k = (True, l, k')" "link_good b k'" "link_bytes k' = bs"
proof -
  have n: "newline \<notin> set (l @ [carriage_return])" and m: "length (l @ [carriage_return]) < max_line"
    using assms(2) by (simp_all add: clean_line_def)
  have "line_spec max_line [] (link_bytes k) = (True, l, bs)"
    using line_spec_line [OF n m, of "[]" bs] assms(2,3) by (simp add: crlf_def strip_line_end_cr)
  from link.line_via_spec [OF assms(1) this] show thesis
    using that unfolding recvLine_via_def by blast
qed

text \<open>A line that does not come to its end: the reader meets the reset.\<close>

lemma link_partial_line:
  "link_good b k \<Longrightarrow> newline \<notin> set (link_bytes k) \<Longrightarrow> length (link_bytes k) < n \<Longrightarrow>
     \<exists>l k'. line_via link_recv n line k = (False, l, k') \<and> (reported k' \<longleftrightarrow> b)"
proof (induction n arbitrary: line k)
  case (Suc n)
  show ?case
  proof (cases "link_bytes k")
    case Nil
    then obtain es where "recv_some 1 (arriving k) = (None, es)"
      using recv_some_end [of "arriving k" 1] by (auto simp: link_bytes_def)
    with Nil Suc.prems(1) show ?thesis by (simp add: link_recv_def link_bytes_def link_good_def drained_bytes)
  next
    case (Cons c bs)
    obtain k1 where k1: "link_recv 1 k = (Some [c], k1)" "link_bytes k1 = bs" "link_good b k1"
      using link.read_one [OF Suc.prems(1) Cons] by blast
    with Suc.IH [of k1 "line @ [c]"] Suc.prems(2,3) Cons show ?thesis by auto
  qed
qed simp

lemma link_full_headers:
  assumes "link_good b k" "\<forall>h \<in> set hs. clean_line h \<and> h \<noteq> []" "link_bytes k = concat (map (\<lambda>h. h @ crlf) hs) @ bs"
  shows "\<exists>k'. headers_via link_recv acc k = headers_via link_recv (fold header_line hs acc) k' \<and> link_good b k' \<and> link_bytes k' = bs"
  using assms
proof (induction hs arbitrary: acc k)
  case Nil
  then show ?case by auto
next
  case (Cons h hs)
  have cl: "clean_line h" "h \<noteq> []" using Cons.prems(2) by simp_all
  have "link_bytes k = h @ crlf @ concat (map (\<lambda>h. h @ crlf) hs) @ bs" using Cons.prems(3) by simp
  from link_full_line [OF Cons.prems(1) cl(1) this] obtain k1 where
    k1: "recvLine_via link_recv k = (True, h, k1)" "link_good b k1" "link_bytes k1 = concat (map (\<lambda>h. h @ crlf) hs) @ bs" .
  from Cons.IH [OF k1(2) _ k1(3), of "header_line h acc"] Cons.prems(2) k1(1) cl(2) show ?case
    by (subst headers_via.simps) simp
qed

text \<open>The reads of a request without a body: \<open>rest\<close> is a header that is not finished, or the empty line.\<close>

lemma link_head:
  assumes "link_good b k" "clean_line line" "\<forall>h \<in> set hs. clean_line h \<and> h \<noteq> []" "fst (fold header_line hs (0, [])) = 0"
    and "link_bytes k = line @ crlf @ concat (map (\<lambda>h. h @ crlf) hs) @ rest"
    and "rest = crlf \<or> newline \<notin> set rest \<and> length rest < max_line"
  shows "\<exists>req k'. request_with link_recv link_recv k = Some (Some req, k') \<and> (reported k' \<longleftrightarrow> b \<and> rest \<noteq> crlf)"
proof -
  obtain k1 where k1: "recvLine_via link_recv k = (True, line, k1)" "link_good b k1"
      "link_bytes k1 = concat (map (\<lambda>h. h @ crlf) hs) @ rest"
    by (rule link_full_line [OF assms(1,2,5)])
  obtain k2 where k2: "headers_via link_recv (0, []) k1 = headers_via link_recv (fold header_line hs (0, [])) k2"
      "link_good b k2" "link_bytes k2 = rest"
    using link_full_headers [OF k1(2) assms(3) k1(3), of "(0, [])"] by blast
  have "\<exists>k'. headers_via link_recv (fold header_line hs (0, [])) k2 = Some (fold header_line hs (0, []), k') \<and>
      (reported k' \<longleftrightarrow> b \<and> rest \<noteq> crlf)"
  proof (cases "rest = crlf")
    case True
    then have "link_bytes k2 = [] @ crlf @ []" using k2(3) by simp
    from link_full_line [OF k2(2) _ this] obtain k3 where "recvLine_via link_recv k2 = (True, [], k3)" "link_good b k3"
      by (auto simp: clean_line_def max_line_def)
    with True show ?thesis by (subst headers_via.simps) (simp add: link_good_def)
  next
    case False
    with assms(6) k2(3) have "newline \<notin> set (link_bytes k2)" "length (link_bytes k2) < max_line" by simp_all
    from link_partial_line [OF k2(2) this, of "[]"] obtain l k3 where
      "recvLine_via link_recv k2 = (False, l, k3)" "reported k3 \<longleftrightarrow> b" unfolding recvLine_via_def by blast
    with False show ?thesis by (subst headers_via.simps) simp
  qed
  then obtain k' where "headers_via link_recv (0, []) k1 = Some (fold header_line hs (0, []), k')" "reported k' \<longleftrightarrow> b \<and> rest \<noteq> crlf"
    using k2(1) by auto
  with k1(1) assms(4) show ?thesis
    by (cases "fold header_line hs (0, [])") (auto simp: request_with_def Let_def case_prod_beta)
qed

text \<open>Every request that was read is answered, whether it is permitted or not.\<close>

lemma answer_sent: "\<exists>reply. sent (answer s registry now peer (Some req)) = Some reply \<and> reply \<noteq> []"
  by (simp add: answer_def http_reply_def case_prod_beta Let_def)

lemma serve_link_signal:
  assumes "request_with link_recv link_recv k = Some (Some req, k')"
  shows "\<exists>out outcome. serve_link s registry now peer k sends = Some (out, Some outcome) \<and> (outcome = Signalled \<longleftrightarrow> reported k')"
  using answer_sent [of s registry now peer req] assms by (auto simp: serve_link_def Let_def send_over_signal)

end
