(* ===== verification/Main_Loop.thy ===== *)
theory Main_Loop
  imports Cli Broken_Pipe
begin

section \<open>The process, from its arguments to its exit (simple-metricd.cpp, daemon.cpp)\<close>

text \<open>
  \<^verbatim>\<open>main\<close> installs its signal handlers, starts the daemon, waits until a signal has set the flag
  \<^verbatim>\<open>g_shutdown\<close>, and stops the daemon part by part while the parts that are left go on. The theory
  is a step relation over all of that: the main thread, the signals, and the threads of the server,
  the scheduler and the snapshot store. Only \<^verbatim>\<open>SIGINT\<close> and \<^verbatim>\<open>SIGTERM\<close> are handled: a reply over which
  \<open>Broken_Pipe\<close> raises \<^verbatim>\<open>SIGPIPE\<close> ends the process. Here \<^verbatim>\<open>stop\<close> is not one step as in \<open>Daemon\<close>: each of its three
  waits is a state of its own.
\<close>

subsection \<open>States and steps\<close>

datatype main_pc =
  Arguments_Read | Handlers_Set | Serving | Stopping_Snapshot | Stopping_Scraper | Stopping_Server | Exited nat | Killed

record process =
  pc :: main_pc
  g_shutdown :: bool
  daemon :: MetricDaemon
  disk :: file_system
  creds :: credentials

text \<open>The handler is in place, and the process has not ended.\<close>

fun handles_signals :: "main_pc \<Rightarrow> bool" where
  "handles_signals Arguments_Read \<longleftrightarrow> False"
| "handles_signals (Exited n) \<longleftrightarrow> False"
| "handles_signals Killed \<longleftrightarrow> False"
| "handles_signals _ \<longleftrightarrow> True"

text \<open>A process that a signal has ended: its threads are gone, and what it had in memory.\<close>

definition killed :: "process \<Rightarrow> process" where
  "killed p = p\<lparr>pc := Killed,
     daemon := (daemon p)\<lparr>d_running := False, d_server := None, d_scraper := None, d_snapshot := None\<rparr>\<rparr>"

text \<open>\<open>client_served\<close> is a turn of the accept loop that no reset disturbs, or whose reply a reset cuts short: \<^verbatim>\<open>sendAll\<close>'s
  result is not looked at. \<open>pipe_broken\<close> is a plain connection of a client that resets it, when the sending of the
  reply raises the signal.\<close>

inductive main_step :: "process \<Rightarrow> process \<Rightarrow> bool" where
  interrupted: "pc p = Arguments_Read \<Longrightarrow> main_step p (p\<lparr>pc := Killed\<rparr>)"
| set_handlers: "pc p = Arguments_Read \<Longrightarrow> main_step p (p\<lparr>pc := Handlers_Set\<rparr>)"
| signalled: "handles_signals (pc p) \<Longrightarrow> main_step p (p\<lparr>g_shutdown := True\<rparr>)"
| start_refused: "pc p = Handlers_Set \<Longrightarrow> files env = disk p \<Longrightarrow>
    start env (creds p) (daemon p) = (False, d, cred, msgs) \<Longrightarrow>
    main_step p (p\<lparr>pc := Exited 1, daemon := d, creds := cred\<rparr>)"
| started: "pc p = Handlers_Set \<Longrightarrow> files env = disk p \<Longrightarrow>
    start env (creds p) (daemon p) = (True, d, cred, msgs) \<Longrightarrow>
    main_step p (p\<lparr>pc := Serving, daemon := d, creds := cred\<rparr>)"
| leave_loop: "pc p = Serving \<Longrightarrow> g_shutdown p \<or> \<not> d_running (daemon p) \<Longrightarrow>
    main_step p (p\<lparr>pc := Stopping_Snapshot, daemon := (daemon p)\<lparr>d_running := False\<rparr>\<rparr>)"
| no_snapshot: "pc p = Stopping_Snapshot \<Longrightarrow> d_snapshot (daemon p) = None \<Longrightarrow>
    main_step p (p\<lparr>pc := Stopping_Scraper\<rparr>)"
| snapshot_stopped: "pc p = Stopping_Snapshot \<Longrightarrow> d_snapshot (daemon p) = Some store \<Longrightarrow>
    snapshot_stop store outcome (d_registry (daemon p)) (disk p) = (store', fs, msgs) \<Longrightarrow>
    main_step p (p\<lparr>pc := Stopping_Scraper, daemon := (daemon p)\<lparr>d_snapshot := Some store'\<rparr>, disk := fs\<rparr>)"
| no_scraper: "pc p = Stopping_Scraper \<Longrightarrow> d_scraper (daemon p) = None \<Longrightarrow>
    main_step p (p\<lparr>pc := Stopping_Server\<rparr>)"
| scraper_stopped: "pc p = Stopping_Scraper \<Longrightarrow> d_scraper (daemon p) = Some s \<Longrightarrow> stopping s = Stopped \<Longrightarrow>
    main_step p (p\<lparr>pc := Stopping_Server, daemon := (daemon p)\<lparr>d_scraper := None\<rparr>\<rparr>)"
| server_stopped: "pc p = Stopping_Server \<Longrightarrow>
    main_step p (p\<lparr>pc := Exited 0, daemon := (daemon p)\<lparr>d_server := None\<rparr>\<rparr>)"
| client_served: "d_server (daemon p) = Some s \<Longrightarrow> accept_turn s (d_registry (daemon p)) now conn = (s', r', reply) \<Longrightarrow>
    main_step p (p\<lparr>daemon := (daemon p)\<lparr>d_server := Some s', d_registry := r'\<rparr>\<rparr>)"
| scraper_moves: "d_scraper (daemon p) = Some s \<Longrightarrow> sched_step (with_registry (d_registry (daemon p)) s) s' \<Longrightarrow>
    stopping s' = stopping s \<or> pc p = Stopping_Scraper \<Longrightarrow>
    main_step p (p\<lparr>daemon := (daemon p)\<lparr>d_scraper := Some s', d_registry := sch_registry s'\<rparr>\<rparr>)"
| snapshot_saved: "d_snapshot (daemon p) = Some store \<Longrightarrow> snap_running store \<Longrightarrow>
    snapshot_save store outcome (d_registry (daemon p)) (disk p) = (ok, fs, msgs) \<Longrightarrow>
    main_step p (p\<lparr>disk := fs\<rparr>)"
| pipe_broken: "d_server (daemon p) = Some s \<Longrightarrow> \<not> srv_tls s \<Longrightarrow> \<not> reported k \<Longrightarrow>
    serve_link s (d_registry (daemon p)) now peer k sends = Some (out, Some Signalled) \<Longrightarrow>
    main_step p (killed p)"

inductive_cases main_stepE: "main_step p q"

text \<open>The process as \<open>daemon_main\<close> leaves it to be started.\<close>

definition main_init :: "process \<Rightarrow> bool" where
  "main_init p \<longleftrightarrow> pc p = Arguments_Read \<and> \<not> g_shutdown p \<and>
     (\<exists>c tls. sound_config c \<and> daemon p = MetricDaemon_new c tls Logger_new)"

subsection \<open>The invariant\<close>

fun pc_inv :: "main_pc \<Rightarrow> bool \<Rightarrow> MetricDaemon \<Rightarrow> bool" where
  "pc_inv Serving flag d \<longleftrightarrow> d_running d \<and> d_server d \<noteq> None"
| "pc_inv Stopping_Snapshot flag d \<longleftrightarrow> flag \<and> \<not> d_running d \<and> d_server d \<noteq> None"
| "pc_inv Stopping_Scraper flag d \<longleftrightarrow> flag \<and> \<not> d_running d \<and> d_server d \<noteq> None"
| "pc_inv Stopping_Server flag d \<longleftrightarrow> flag \<and> \<not> d_running d \<and> d_server d \<noteq> None \<and> d_scraper d = None"
| "pc_inv (Exited n) flag d \<longleftrightarrow> \<not> d_running d \<and> d_server d = None \<and> d_scraper d = None \<and> (n = 0 \<and> flag \<or> n = 1)"
| "pc_inv _ flag d \<longleftrightarrow> \<not> d_running d \<and> d_server d = None \<and> d_scraper d = None"

text \<open>While it stops, the parts of the daemon keep the invariant they have while it runs.\<close>

definition parts :: "MetricDaemon \<Rightarrow> MetricDaemon" where
  "parts d = d\<lparr>d_running := (d_server d \<noteq> None)\<rparr>"

lemma parts_simps [simp]:
  "d_registry (parts d) = d_registry d" "d_server (parts d) = d_server d" "d_scraper (parts d) = d_scraper d"
  "d_snapshot (parts d) = d_snapshot d" "d_config (parts d) = d_config d"
  "parts (d\<lparr>d_running := b\<rparr>) = parts d" "parts (d\<lparr>d_snapshot := x\<rparr>) = parts d\<lparr>d_snapshot := x\<rparr>"
  by (simp_all add: parts_def)

definition main_inv :: "process \<Rightarrow> bool" where
  "main_inv p \<longleftrightarrow> daemon_inv (parts (daemon p), disk p) \<and> pc_inv (pc p) (g_shutdown p) (daemon p)"

lemma daemon_inv_disk: "daemon_inv (d, fs) \<Longrightarrow> daemon_inv (d, fs')"
  by (simp add: daemon_inv_def)

lemma pc_inv_cong:
  assumes "pc_inv point flag d" "d_running d' = d_running d" "(d_server d' = None) = (d_server d = None)"
    and "d_scraper d = None \<Longrightarrow> d_scraper d' = None"
  shows "pc_inv point flag d'"
  using assms by (cases point) auto

lemma main_inv_init: "main_init p \<Longrightarrow> main_inv p"
  by (auto simp: main_init_def main_inv_def daemon_inv_def parts_def MetricDaemon_new_def)

lemma parts_update:
  "d_server d = Some x \<Longrightarrow> parts (d\<lparr>d_server := Some s, d_registry := r\<rparr>) = parts d\<lparr>d_server := Some s, d_registry := r\<rparr>"
  "parts (d\<lparr>d_scraper := y, d_registry := r\<rparr>) = parts d\<lparr>d_scraper := y, d_registry := r\<rparr>"
  by (cases d; simp add: parts_def)+

lemma parts_same: "d_running d = (d_server d \<noteq> None) \<Longrightarrow> parts d = d"
  by (cases d) (simp add: parts_def)

lemma main_inv_start:
  assumes inv: "main_inv p" and pc: "pc p = Handlers_Set"
    and start: "start env (creds p) (daemon p) = (ok, d, cred, msgs)"
  shows "daemon_inv (parts d, disk p)" and "\<not> ok \<Longrightarrow> pc_inv (Exited 1) flag d" and "ok \<Longrightarrow> pc_inv Serving flag d"
proof -
  have none: "\<not> d_running (daemon p)" "d_server (daemon p) = None" "d_scraper (daemon p) = None"
    using inv pc by (simp_all add: main_inv_def)
  have "daemon_inv (daemon p, disk p)" using inv none parts_same [of "daemon p"] by (simp add: main_inv_def)
  then have d: "daemon_inv (d, disk p)" by (rule daemon_inv_start [OF _ none(1) start])
  then have "parts d = d" by (intro parts_same) (auto simp: daemon_inv_def)
  with d show "daemon_inv (parts d, disk p)" by simp
  show "pc_inv (Exited 1) flag d" if "\<not> ok"
    using start_False [of env "creds p" "daemon p" d cred msgs] start that none by simp
  show "pc_inv Serving flag d" if ok
  proof -
    have "start env (creds p) (daemon p) = (True, d, cred, msgs)" using start that by simp
    then show ?thesis by (rule start_True) simp
  qed
qed

lemma daemon_inv_killed: "daemon_inv (parts d, fs) \<Longrightarrow>
    daemon_inv (parts (d\<lparr>d_running := False, d_server := None, d_scraper := None, d_snapshot := None\<rparr>), fs)"
  by (auto simp: daemon_inv_def parts_def split: option.splits)

lemma main_inv_killed: "main_inv p \<Longrightarrow> main_inv (killed p)"
  using daemon_inv_killed [of "daemon p" "disk p"] by (simp add: main_inv_def killed_def)

lemma main_inv_step:
  assumes inv: "main_inv p" and step: "main_step p q"
  shows "main_inv q"
proof -
  have d: "daemon_inv (parts (daemon p), disk p)" and at_pc: "pc_inv (pc p) (g_shutdown p) (daemon p)"
    using inv by (simp_all add: main_inv_def)
  from step show ?thesis
  proof (cases rule: main_step.cases)
    case (signalled)
    with d at_pc show ?thesis by (cases "pc p") (simp_all add: main_inv_def)
  next
    case (start_refused env d' cred msgs)
    with main_inv_start [OF inv start_refused(2,4)] show ?thesis by (simp add: main_inv_def)
  next
    case (started env d' cred msgs)
    with main_inv_start [OF inv started(2,4)] show ?thesis by (simp add: main_inv_def)
  next
    case (snapshot_stopped store outcome store' fs msgs)
    with d at_pc show ?thesis by (simp add: main_inv_def daemon_inv_def split: option.splits)
  next
    case (scraper_stopped s)
    with d at_pc show ?thesis by (auto simp: main_inv_def daemon_inv_def parts_def)
  next
    case server_stopped
    with d at_pc show ?thesis by (auto simp: main_inv_def daemon_inv_def parts_def)
  next
    case (client_served s now conn s' r' reply)
    with daemon_inv_serve [of "parts (daemon p)" "disk p" s now conn s' r' reply] d
    have "daemon_inv (parts (daemon q), disk q)" by (simp add: parts_update)
    moreover have "pc_inv (pc q) (g_shutdown q) (daemon q)"
      using client_served by (auto intro: pc_inv_cong [OF at_pc])
    ultimately show ?thesis by (simp add: main_inv_def)
  next
    case (scraper_moves s s')
    with daemon_inv_scrape [of "parts (daemon p)" "disk p" s s'] d
    have "daemon_inv (parts (daemon q), disk q)" by (simp add: parts_update)
    moreover have "pc_inv (pc q) (g_shutdown q) (daemon q)"
      using scraper_moves by (auto intro: pc_inv_cong [OF at_pc])
    ultimately show ?thesis by (simp add: main_inv_def)
  next
    case (snapshot_saved store outcome ok fs msgs)
    with at_pc daemon_inv_disk [OF d] show ?thesis by (simp add: main_inv_def)
  next
    case pipe_broken
    with main_inv_killed [OF inv] show ?thesis by simp
  qed (use d at_pc in \<open>auto simp: main_inv_def\<close>)
qed

interpretation main: invariant_system main_init main_step main_inv
  by unfold_locales (rule main_inv_init, assumption, rule main_inv_step)

subsection \<open>A process that a signal does not end\<close>

text \<open>A scheduler whose \<^verbatim>\<open>stop\<close> waits for a worker that sleeps.\<close>

definition hung :: "Scheduler \<Rightarrow> bool" where
  "hung s \<longleftrightarrow> \<not> sch_running s \<and> dispatching s = Done \<and> stopping s = Joining \<and> workers s = [Sleeping]"

lemma hung_stuck: "hung s \<Longrightarrow> \<not> sched_step (with_registry r s) s'"
  by (auto simp: hung_def with_registry_def worker_at_def elim!: sched_stepE)

definition stuck_process :: "process \<Rightarrow> bool" where
  "stuck_process p \<longleftrightarrow> pc p = Stopping_Scraper \<and> (\<exists>s. d_scraper (daemon p) = Some s \<and> hung s)"

lemma stuck_step:
  assumes "stuck_process p" "main_step p q"
  shows "stuck_process q \<or> pc q = Killed"
proof -
  obtain s where s: "pc p = Stopping_Scraper" "d_scraper (daemon p) = Some s" "hung s"
    using assms(1) by (auto simp: stuck_process_def)
  have "stopping s \<noteq> Stopped" using s(3) by (simp add: hung_def)
  with assms(2) s(1,2) hung_stuck [OF s(3)] show ?thesis
    by (auto simp: stuck_process_def killed_def s(3) elim!: main_stepE)
qed

lemma killed_step: "main_step p q \<Longrightarrow> pc p = Killed \<Longrightarrow> pc q = Killed"
  by (erule main_stepE) (simp_all add: killed_def)

lemma stuck_for_ever: "main_step\<^sup>*\<^sup>* p q \<Longrightarrow> stuck_process p \<Longrightarrow> stuck_process q \<or> pc q = Killed"
  by (induction rule: rtranclp_induct) (blast dest: stuck_step killed_step)+

text \<open>The steps of the scheduler are steps of the process while it waits for it.\<close>

lemma scraper_run:
  assumes "sched_step\<^sup>*\<^sup>* s s'" "pc p = Stopping_Scraper" "d_scraper (daemon p) = Some s" "sch_registry s = d_registry (daemon p)"
  shows "main_step\<^sup>*\<^sup>* p (p\<lparr>daemon := (daemon p)\<lparr>d_scraper := Some s', d_registry := sch_registry s'\<rparr>\<rparr>)"
  using assms(1)
proof (induction rule: rtranclp_induct)
  case base
  have "(daemon p)\<lparr>d_scraper := Some s, d_registry := sch_registry s\<rparr> = daemon p"
    using assms(3,4) by (cases "daemon p") simp
  then show ?case by simp
next
  case (step u v)
  let ?p = "\<lambda>u. p\<lparr>daemon := (daemon p)\<lparr>d_scraper := Some u, d_registry := sch_registry u\<rparr>\<rparr>"
  have "with_registry (sch_registry u) u = u" by (simp add: with_registry_def)
  then have "main_step (?p u) (?p v)"
    using scraper_moves [of "?p u" u v] step.hyps(2) assms(2) by simp
  with step.IH show ?case by (rule rtranclp.rtrancl_into_rtrancl)
qed

text \<open>A fresh scheduler with one worker, which has found its queue empty when \<open>stop\<close> begins.\<close>

definition fresh_pool :: "Scheduler \<Rightarrow> bool" where
  "fresh_pool s \<longleftrightarrow> sch_running s \<and> workers s = [At_Wait] \<and> queue s = [] \<and> dispatching s = Loop_Test \<and> stopping s = Not_Called"

lemma start_fresh_pool:
  assumes "start_scraper env d = (True, scraper)" "scrape_targets (d_config d) = [t]"
  obtains s where "scraper = Some s" "fresh_pool s" "sch_registry s = d_registry d"
  using assms
  by (auto simp: start_scraper_def scheduler_start_def Scheduler_new_def pool_size_def fresh_pool_def)

lemma fresh_pool_hangs:
  assumes "fresh_pool s"
  defines "a \<equiv> set_worker 0 Will_Sleep s"
  shows "sched_step s a" and "\<exists>h. sched_step\<^sup>*\<^sup>* a h \<and> hung h" and "stopping a = stopping s" and "sch_registry a = sch_registry s"
proof -
  note fresh = assms(1) [unfolded fresh_pool_def]
  show "sched_step s a"
    unfolding a_def using fresh by (intro predicate_false) (simp_all add: worker_at_def mutex_free_def)
  let ?b = "a\<lparr>sch_running := False, stopping := Flag_Cleared\<rparr>"
  let ?c = "?b\<lparr>stopping := Joining, workers := map wake (workers ?b)\<rparr>"
  let ?d = "?c\<lparr>dispatching := Done, workers := map wake (workers ?c)\<rparr>"
  have "sched_step a ?b" using fresh by (intro clear_flag) (simp add: a_def)
  moreover have "sched_step ?b ?c" by (rule notify) simp
  moreover have "sched_step ?c ?d" using fresh by (intro sched_step.leave_loop) (simp_all add: a_def)
  moreover have "sched_step ?d (set_worker 0 Sleeping ?d)"
    using fresh by (intro fall_asleep) (simp add: a_def worker_at_def set_worker_def)
  ultimately have "sched_step\<^sup>*\<^sup>* a (set_worker 0 Sleeping ?d)"
    by (intro converse_rtranclp_into_rtranclp [OF _ converse_rtranclp_into_rtranclp
          [OF _ converse_rtranclp_into_rtranclp [OF _ r_into_rtranclp]]])
  moreover have "hung (set_worker 0 Sleeping ?d)" using fresh by (simp add: hung_def a_def set_worker_def)
  ultimately show "\<exists>h. sched_step\<^sup>*\<^sup>* a h \<and> hung h" by blast
  show "stopping a = stopping s" "sch_registry a = sch_registry s" by (simp_all add: a_def)
qed

lemma serving_can_hang:
  assumes p: "reachable main_init main_step p" "pc p = Serving"
    and s: "d_scraper (daemon p) = Some s" "fresh_pool s" "sch_registry s = d_registry (daemon p)"
  obtains q where "reachable main_init main_step q" "g_shutdown q" "stuck_process q"
proof -
  note extend = reachable_step [where init = main_init and step = main_step]
  define a where "a = set_worker 0 Will_Sleep s"
  note hangs = fresh_pool_hangs [OF s(2), folded a_def]
  define p1 where "p1 = p\<lparr>daemon := (daemon p)\<lparr>d_scraper := Some a, d_registry := sch_registry a\<rparr>, g_shutdown := True\<rparr>"
  have "with_registry (d_registry (daemon p)) s = s" using s(3) by (simp add: with_registry_def)
  then have "main_step p (p\<lparr>daemon := (daemon p)\<lparr>d_scraper := Some a, d_registry := sch_registry a\<rparr>\<rparr>)"
    using hangs(1,3) by (intro scraper_moves [OF s(1)]) simp_all
  moreover have "main_step (p\<lparr>daemon := (daemon p)\<lparr>d_scraper := Some a, d_registry := sch_registry a\<rparr>\<rparr>) p1"
    unfolding p1_def using signalled [of "p\<lparr>daemon := (daemon p)\<lparr>d_scraper := Some a, d_registry := sch_registry a\<rparr>\<rparr>"] p(2) by simp
  ultimately have p1: "reachable main_init main_step p1" by (meson extend p(1))
  define p2 where "p2 = p1\<lparr>pc := Stopping_Snapshot, daemon := (daemon p1)\<lparr>d_running := False\<rparr>\<rparr>"
  have "main_step p1 p2" unfolding p2_def using p(2) by (intro leave_loop) (simp_all add: p1_def)
  then have p2: "reachable main_init main_step p2" by (rule extend [OF p1])
  obtain p3 where step: "main_step p2 p3" and p3: "pc p3 = Stopping_Scraper" "g_shutdown p3"
      "d_scraper (daemon p3) = Some a" "sch_registry a = d_registry (daemon p3)"
  proof (cases "d_snapshot (daemon p2)")
    case None
    with no_snapshot [of p2] have "main_step p2 (p2\<lparr>pc := Stopping_Scraper\<rparr>)" by (simp add: p2_def)
    then show thesis by (rule that) (simp_all add: p2_def p1_def)
  next
    case (Some store)
    obtain store' fs msgs where "snapshot_stop store Open_Fails (d_registry (daemon p2)) (disk p2) = (store', fs, msgs)"
      by (metis prod_cases3)
    with snapshot_stopped [of p2 store Open_Fails store' fs msgs] Some
    have "main_step p2 (p2\<lparr>pc := Stopping_Scraper, daemon := (daemon p2)\<lparr>d_snapshot := Some store'\<rparr>, disk := fs\<rparr>)"
      by (simp add: p2_def)
    then show thesis by (rule that) (simp_all add: p2_def p1_def)
  qed
  obtain h where h: "sched_step\<^sup>*\<^sup>* a h" "hung h" using hangs(2) by blast
  let ?q = "p3\<lparr>daemon := (daemon p3)\<lparr>d_scraper := Some h, d_registry := sch_registry h\<rparr>\<rparr>"
  have "main_step\<^sup>*\<^sup>* p3 ?q" by (rule scraper_run [OF h(1) p3(1,3,4)])
  with extend [OF p2 step] have "reachable main_init main_step ?q"
    unfolding reachable_def by (meson rtranclp_trans)
  then show thesis using p3 h(2) by (intro that [of ?q]) (simp_all add: stuck_process_def)
qed

lemma reachable_started:
  assumes "sound_config c" "start env cred (MetricDaemon_new c tls Logger_new) = (True, d, cred', msgs)"
  shows "reachable main_init main_step \<lparr>pc = Serving, g_shutdown = False, daemon = d, disk = files env, creds = cred'\<rparr>"
proof -
  let ?p = "\<lparr>pc = Arguments_Read, g_shutdown = False, daemon = MetricDaemon_new c tls Logger_new, disk = files env, creds = cred\<rparr>"
  have "main_init ?p" using assms(1) by (auto simp: main_init_def)
  moreover have "main_step ?p (?p\<lparr>pc := Handlers_Set\<rparr>)" by (rule set_handlers) simp
  moreover have "main_step (?p\<lparr>pc := Handlers_Set\<rparr>) \<lparr>pc = Serving, g_shutdown = False, daemon = d, disk = files env, creds = cred'\<rparr>"
    using started [of "?p\<lparr>pc := Handlers_Set\<rparr>" env d cred' msgs] assms(2) by simp
  ultimately show ?thesis by (meson reachable_init reachable_step)
qed

subsection \<open>Properties\<close>

text \<open>C6: What the end of the process means: it exits with 0 only after a signal, and with 1 only when the start was
  refused; either way nothing of the daemon is left running. Until a signal arrives a started
  daemon that is not killed stays up with its server, and throughout its registry is well formed, whatever clients,
  targets, the disk and the timing of signals do.\<close>

theorem process_exits_cleanly:
  assumes "reachable main_init main_step p"
  shows "wf_registry (d_registry (daemon p)) \<and>
    (\<forall>code. pc p = Exited code \<longrightarrow>
       \<not> d_running (daemon p) \<and> d_server (daemon p) = None \<and> d_scraper (daemon p) = None \<and>
       (code = 0 \<and> g_shutdown p \<or> code = 1)) \<and>
    (pc p = Serving \<longrightarrow> d_running (daemon p) \<and> d_server (daemon p) \<noteq> None)"
  using main.reachable_inv [OF assms] by (auto simp: main_inv_def daemon_inv_def)

theorem process_exits_cleanly_witness:
  "d_running (fst (snd (example_start (TlsContext_new False True True))))"
proof -
  let ?tls = "TlsContext_new False True True"
  have "files (example_surroundings []) = [''/s'' \<mapsto> []]" by (simp add: example_surroundings_def)
  with reachable_started [OF sound_config_new example_start_eq [of ?tls]] show ?thesis
    using process_exits_cleanly [of "\<lparr>pc = Serving, g_shutdown = False, daemon = fst (snd (example_start ?tls)),
        disk = [''/s'' \<mapsto> []], creds = fst (snd (snd (example_start ?tls)))\<rparr>"] by simp
qed

text \<open>C5: A signal may never end the process: every configuration with one scrape target that starts can be
  brought, by a signal at the wrong moment, into a state where \<^verbatim>\<open>main\<close> waits for the scheduler for ever.
  The server goes on answering; nothing that can happen leads out but a signal that kills.\<close>

theorem signal_can_hang_process:
  assumes "sound_config c" "scrape_targets c = [t]"
    and "start env cred (MetricDaemon_new c tls Logger_new) = (True, d, cred', msgs)"
  shows "\<exists>p. reachable main_init main_step p \<and> g_shutdown p \<and> (\<forall>q. main_step\<^sup>*\<^sup>* p q \<longrightarrow> pc q \<in> {Stopping_Scraper, Killed})"
proof -
  let ?p = "\<lparr>pc = Serving, g_shutdown = False, daemon = d, disk = files env, creds = cred'\<rparr>"
  obtain d1 server scraper snapshot msgs0 where i: "initialize env (MetricDaemon_new c tls Logger_new) = (True, d1, msgs0)"
    and scraper: "start_scraper env d1 = (True, scraper)"
    and d: "d = d1\<lparr>d_server := Some server, d_scraper := scraper, d_snapshot := snapshot, d_running := True\<rparr>"
    using assms(3) by (rule start_True)
  have "scrape_targets (d_config d1) = [t]" using initialize_frame [OF i] assms(2) by (simp add: MetricDaemon_new_def)
  then obtain s where s: "scraper = Some s" "fresh_pool s" "sch_registry s = d_registry d1"
    using start_fresh_pool [OF scraper] by blast
  obtain q where q: "reachable main_init main_step q" "g_shutdown q" "stuck_process q"
    by (rule serving_can_hang [OF reachable_started [OF assms(1,3)], of s]) (simp_all add: d s)
  have "pc r \<in> {Stopping_Scraper, Killed}" if "main_step\<^sup>*\<^sup>* q r" for r
    using stuck_for_ever [OF that q(3)] by (auto simp: stuck_process_def)
  with q show ?thesis by blast
qed

theorem signal_can_hang_process_witness:
  "\<exists>p. reachable main_init main_step p \<and> g_shutdown p \<and> (\<forall>q. main_step\<^sup>*\<^sup>* p q \<longrightarrow> pc q \<in> {Stopping_Scraper, Killed})"
proof -
  let ?c = "MetricConfig_new\<lparr>scrape_targets := [ScrapeTarget_new\<lparr>target_host := ''h''\<rparr>]\<rparr>"
  let ?d = "MetricDaemon_new ?c (TlsContext_new False True True) Logger_new"
  have sound: "sound_config ?c" by (simp add: sound_config_def sound_target_def MetricConfig_new_def ScrapeTarget_new_def)
  have "fst (start (example_surroundings []) example_credentials ?d)"
    by (simp add: start_def initialize_def validate_def validateDetailed_def
        MetricDaemon_new_def MetricConfig_new_def ScrapeTarget_new_def configure_logger_def parseLogLevel_def lowerCopy_def tolower_def
        tls_failure_def tls_enabled_def example_surroundings_def listener_port_def bindAndListen_def listener_close_def
        TcpListener_new_def server_start_def dropPrivileges_def start_scraper_def start_snapshot_def
        Scheduler_new_def scheduler_start_def Let_def)
  then obtain d cred' msgs where "start (example_surroundings []) example_credentials ?d = (True, d, cred', msgs)"
    by (metis (full_types) prod.collapse)
  with signal_can_hang_process [OF sound] show ?thesis by fastforce
qed






end
