(* ===== verification/Staged_Stop.thy ===== *)
theory Staged_Stop
  imports Main_Loop
begin

section \<open>Stopping in stages is stopping\<close>

text \<open>
  \<open>Daemon\<close> takes \<^verbatim>\<open>MetricDaemon::stop\<close> as one step that saves the snapshot and then lets any late
  calls reach the registry. In \<open>Main_Loop\<close> the same function stops part after part while the other threads go
  on. This theory shows that the second implements the first: whatever they do in between, they
  change the registry through its operations only.
\<close>

subsection \<open>What the threads do to the registry\<close>

definition leads :: "MetricRegistry \<Rightarrow> MetricRegistry \<Rightarrow> bool" where
  "leads r r' \<longleftrightarrow> (\<exists>ops. list_all wf_op ops \<and> r' = registry_run r ops)"

lemma leads_refl [simp, intro]: "leads r r"
  unfolding leads_def by (rule exI [of _ "[]"]) simp

lemma registry_run_append: "registry_run r (ops @ ops') = registry_run (registry_run r ops) ops'"
  by (simp add: registry_run_def)

lemma leads_trans [trans]: "leads r r' \<Longrightarrow> leads r' r'' \<Longrightarrow> leads r r''"
  unfolding leads_def by (metis list_all_append registry_run_append)

lemma leads_upsert [intro]: "wf_spec spec \<Longrightarrow> leads r (snd (upsert r spec))"
  unfolding leads_def by (rule exI [of _ "[Op_upsert spec]"]) simp

lemma leads_upserts: "list_all wf_spec specs \<Longrightarrow> leads r (fold (\<lambda>spec r. snd (upsert r spec)) specs r)"
proof (induction specs arbitrary: r)
  case (Cons spec specs)
  then have "leads r (snd (upsert r spec))" "leads (snd (upsert r spec)) (fold (\<lambda>spec r. snd (upsert r spec)) specs (snd (upsert r spec)))"
    by auto
  then show ?case by (simp add: leads_trans)
qed simp

lemma leads_merge: "leads r (fst (snd (mergePrometheusText r text)))"
proof (cases "parsePrometheusText text")
  case (fields ok specs error)
  from merge_eq [OF this] parse_wf [OF this] show ?thesis by (simp add: leads_upserts)
qed

lemma leads_ingestSimpleLine: "leads r (snd (ingestSimpleLine r line))"
  by (auto simp: ingestSimpleLine_def case_prod_beta Let_def wf_spec_def empty_spec_def
      intro!: leads_upsert dest: stod_wf split: option.splits sum.splits)

lemma leads_ingest_line: "leads (ing_registry st) (ing_registry (ingest_line raw st))"
proof -
  define line where "line = trim (pop_cr raw)"
  have reg: "ing_registry (ingest_accept r st) = r" "ing_registry (ingest_reject r e m st) = r" for r e m
    by (simp_all add: ingest_accept_def ingest_reject_def)
  obtain res r1 where s: "ingestSimpleLine (ing_registry st) line = (res, r1)" by fastforce
  have r1: "leads (ing_registry st) r1" using leads_ingestSimpleLine [of "ing_registry st" line] by (simp add: s)
  obtain ok specs e where p: "parsePrometheusText (line @ [newline]) = (ok, specs, e)" by (metis prod_cases3)
  obtain stored r2 where u: "upsert (ing_registry st) (hd specs) = (stored, r2)" by fastforce
  have r2: "leads (ing_registry st) r2" if "specs \<noteq> []"
    using leads_upsert [of "hd specs" "ing_registry st"] parse_wf [OF p] that u by (cases specs) simp_all
  show ?thesis
    unfolding ingest_line_def line_def [symmetric] Let_def s p u prod.case
    using r1 r2 by (cases res) (simp_all add: reg)
qed

lemma leads_ingestBody: "leads r (ing_registry (ingestBody r content))"
proof -
  have "leads (ing_registry st) (ing_registry (fold ingest_line ls st))" for ls st
  proof (induction ls arbitrary: st)
    case (Cons l ls)
    from leads_trans [OF leads_ingest_line [of st l] Cons.IH] show ?case by simp
  qed simp
  from this [of "ingest_start r"] leads_merge [of r content] show ?thesis
    by (auto simp: ingestBody_def ingest_start_def Let_def split: prod.splits)
qed

lemma leads_accept_turn:
  assumes "accept_turn s r now conn = (s', r', reply)"
  shows "leads r r'"
proof -
  have route: "leads r r'" if "route r port verb path content = (code, ct, c, r', msgs)" for port verb path content code ct c r' msgs
    using that route_registry [OF that] leads_ingestBody [of r content]
    by (cases "verb = ''POST'' \<and> isIngestPath path") (auto simp: route_def Let_def split: if_splits)
  have "leads r (new_registry (handleClient s r now peer es))" for peer es
    by (auto simp: handleClient_eq Let_def intro: route split: option.split prod.split)
  with assms show ?thesis by (cases conn) (auto simp: accept_turn_def Let_def split: if_splits)
qed

lemma leads_sched_step:
  assumes "sched_inv s" "sched_step s s'"
  shows "leads (sch_registry s) (sch_registry s')"
  using assms(2)
proof (cases rule: sched_step.cases)
  case (merge_sample w i spec specs)
  with worker_wf [OF assms(1)] have "wf_spec spec" by fastforce
  with merge_sample show ?thesis by (auto simp: set_worker_def)
qed (auto simp: dispatch_turn_def set_worker_def hand_back_def Let_def split: prod.split)

subsection \<open>The rest of the stages\<close>

text \<open>What holds of the process from the moment the snapshot store has stopped: \<open>d\<close> is the daemon and
  \<open>fs\<close> the disk at that moment.\<close>

definition same_settings :: "MetricDaemon \<Rightarrow> MetricDaemon \<Rightarrow> bool" where
  "same_settings d d' \<longleftrightarrow> d_running d' = d_running d \<and> d_config d' = d_config d \<and> d_snapshot d' = d_snapshot d \<and>
     d_tls d' = d_tls d \<and> d_logger d' = d_logger d \<and> d_initialized d' = d_initialized d"

lemma same_settings_update:
  "same_settings d d' \<Longrightarrow> d' = d\<lparr>d_registry := d_registry d', d_scraper := d_scraper d', d_server := d_server d'\<rparr>"
  by (cases d; cases d') (auto simp: same_settings_def)

definition stopping_from :: "MetricDaemon \<Rightarrow> file_system \<Rightarrow> process \<Rightarrow> bool" where
  "stopping_from d fs q \<longleftrightarrow>
     pc q \<in> {Stopping_Scraper, Stopping_Server, Exited 0} \<and> disk q = fs \<and> leads (d_registry d) (d_registry (daemon q)) \<and>
     same_settings d (daemon q)"

lemma stopping_from_step:
  assumes "stopping_from d fs q" "main_inv q" "main_step q q'" "\<And>store. d_snapshot d = Some store \<Longrightarrow> \<not> snap_running store"
  shows "stopping_from d fs q' \<or> pc q' = Killed"
  using assms(3)
proof (cases rule: main_step.cases)
  case (client_served s now conn s' r' reply)
  with assms(1) leads_accept_turn [OF client_served(3)] show ?thesis
    unfolding stopping_from_def same_settings_def by (auto intro: leads_trans)
next
  case (scraper_moves s s')
  from assms(2) scraper_moves(2) have "sched_inv (with_registry (d_registry (daemon q)) s)"
    by (simp add: main_inv_def daemon_inv_def)
  from leads_sched_step [OF this scraper_moves(3)] scraper_moves assms(1) show ?thesis
    unfolding stopping_from_def same_settings_def by (auto simp: with_registry_def intro: leads_trans)
qed (use assms(1,4) in \<open>auto simp: stopping_from_def same_settings_def killed_def\<close>)

lemma stopping_from_run:
  assumes "main_step\<^sup>*\<^sup>* p q" "reachable main_init main_step p" "stopping_from d fs p"
    and "\<And>store. d_snapshot d = Some store \<Longrightarrow> \<not> snap_running store"
  shows "stopping_from d fs q \<or> pc q = Killed"
  using assms(1)
proof (induction rule: rtranclp_induct)
  case (step q q')
  have "main_inv q" using step.hyps(1) assms(2) unfolding reachable_def by (intro main.reachable_inv) (meson rtranclp_trans reachable_def)
  with step.IH stopping_from_step [OF _ this step.hyps(2) assms(4)] killed_step [OF step.hyps(2)] show ?case by blast
qed (use assms(3) in simp)

text \<open>The step in which the snapshot store stops is the first part of \<open>stop\<close>.\<close>

lemma snapshot_stage:
  assumes "main_step p p1" "pc p = Stopping_Snapshot" "pc p1 = Stopping_Scraper" "main_inv p"
  obtains outcome where "stopping_from (daemon p1) (disk p1) p1"
    and "\<And>store. d_snapshot (daemon p1) = Some store \<Longrightarrow> \<not> snap_running store"
    and "\<And>late. \<exists>msgs. stop outcome late (disk p) (daemon p) =
           ((daemon p1)\<lparr>d_scraper := None, d_server := None, d_registry := registry_run (d_registry (daemon p1)) late\<rparr>, disk p1, msgs)"
proof -
  have d: "\<not> d_running (daemon p)" "d_server (daemon p) \<noteq> None" using assms(2,4) by (simp_all add: main_inv_def)
  have start: "stopping_from (daemon p1) (disk p1) p1" using assms(3) by (simp add: stopping_from_def same_settings_def)
  from assms(1) show thesis
  proof (cases rule: main_step.cases)
    case no_snapshot
    then show thesis using d by (intro that [OF start, of Open_Fails]) (auto simp: stop_def)
  next
    case (snapshot_stopped store outcome store' fs msgs)
    then have "\<not> snap_running store'" by (auto simp: snapshot_stop_def split: if_splits prod.splits)
    with snapshot_stopped d show thesis by (intro that [OF start, of outcome]) (auto simp: stop_def)
  qed (use assms(2,3) in \<open>auto simp: killed_def\<close>)
qed

subsection \<open>Properties\<close>

text \<open>C7: The staged stop implements the atomic one: a process that begins to stop and exits with 0 has turned
  its daemon and disk into what one call of \<open>stop\<close> makes of them, at the moment the snapshot was
  written, with the calls that its other threads made to the registry meanwhile as the late ones.
  So whatever is shown of \<open>stop\<close> in \<open>Daemon\<close> holds of the process.\<close>

theorem stop_in_stages_is_stop:
  assumes "reachable main_init main_step p" "pc p = Stopping_Snapshot"
    and "main_step p p1" "pc p1 = Stopping_Scraper" "main_step\<^sup>*\<^sup>* p1 q" "pc q = Exited 0"
  shows "\<exists>outcome late msgs. list_all wf_op late \<and> stop outcome late (disk p) (daemon p) = (daemon q, disk q, msgs)"
proof -
  obtain outcome where start: "stopping_from (daemon p1) (disk p1) p1"
    and idle: "\<And>store. d_snapshot (daemon p1) = Some store \<Longrightarrow> \<not> snap_running store"
    and stop: "\<And>late. \<exists>msgs. stop outcome late (disk p) (daemon p) =
      ((daemon p1)\<lparr>d_scraper := None, d_server := None, d_registry := registry_run (d_registry (daemon p1)) late\<rparr>, disk p1, msgs)"
    using snapshot_stage [OF assms(3,2,4) main.reachable_inv [OF assms(1)]] by blast
  have p1: "reachable main_init main_step p1" by (rule reachable_step [OF assms(1,3)])
  have final: "stopping_from (daemon p1) (disk p1) q"
    using stopping_from_run [OF assms(5) p1 start idle] assms(6) by auto
  have "main_inv q" using p1 assms(5) unfolding reachable_def by (intro main.reachable_inv) (meson rtranclp_trans reachable_def)
  then have "d_scraper (daemon q) = None" "d_server (daemon q) = None" using assms(6) by (simp_all add: main_inv_def)
  with final obtain late where late: "list_all wf_op late"
    and q: "daemon q = (daemon p1)\<lparr>d_scraper := None, d_server := None, d_registry := registry_run (d_registry (daemon p1)) late\<rparr>"
      "disk q = disk p1"
    by (cases "daemon q"; cases "daemon p1") (auto simp: stopping_from_def same_settings_def leads_def)
  from stop [of late] show ?thesis unfolding q [symmetric] using late by blast
qed

theorem stop_in_stages_is_stop_witness:
  "let d = fst (snd (example_start (TlsContext_new False True True)))
   in \<exists>outcome late msgs. list_all wf_op late \<and> stop outcome late [''/s'' \<mapsto> []] (d\<lparr>d_running := False\<rparr>) =
        (d\<lparr>d_running := False, d_server := None\<rparr>, [''/s'' \<mapsto> []], msgs)"
proof -
  let ?tls = "TlsContext_new False True True" and ?fs = "[''/s'' \<mapsto> []]"
  let ?d = "fst (snd (example_start ?tls))"
  have none: "d_snapshot ?d = None" "d_scraper ?d = None"
    by (simp_all add: example_start_def start_def initialize_def validate_def validateDetailed_def configure_logger_def
        parseLogLevel_def lowerCopy_def tolower_def tls_failure_def tls_enabled_def example_surroundings_def listener_port_def
        bindAndListen_def listener_close_def TcpListener_new_def server_start_def dropPrivileges_def start_scraper_def
        start_snapshot_def MetricDaemon_new_def MetricConfig_new_def Let_def)
  define p0 where "p0 = \<lparr>pc = Serving, g_shutdown = True, daemon = ?d, disk = ?fs, creds = fst (snd (snd (example_start ?tls)))\<rparr>"
  have "files (example_surroundings []) = ?fs" by (simp add: example_surroundings_def)
  with reachable_started [OF sound_config_new example_start_eq [of ?tls]]
  have "reachable main_init main_step (p0\<lparr>g_shutdown := False\<rparr>)" by (simp add: p0_def)
  moreover have "main_step (p0\<lparr>g_shutdown := False\<rparr>) p0"
    using signalled [of "p0\<lparr>g_shutdown := False\<rparr>"] by (simp add: p0_def)
  ultimately have "reachable main_init main_step p0" by (rule reachable_step)
  moreover define p where "p = p0\<lparr>pc := Stopping_Snapshot, daemon := ?d\<lparr>d_running := False\<rparr>\<rparr>"
  moreover have "main_step p0 p" using leave_loop [of p0] by (simp add: p_def p0_def)
  ultimately have p: "reachable main_init main_step p" "pc p = Stopping_Snapshot" by (auto intro: reachable_step)
  define p1 where "p1 = p\<lparr>pc := Stopping_Scraper\<rparr>"
  have p1: "main_step p p1" "pc p1 = Stopping_Scraper"
    using no_snapshot [of p] none by (simp_all add: p1_def p_def)
  let ?q = "p\<lparr>pc := Exited 0, daemon := ?d\<lparr>d_running := False, d_server := None\<rparr>\<rparr>"
  have "main_step p1 (p1\<lparr>pc := Stopping_Server\<rparr>)" using no_scraper [of p1] none by (simp add: p1_def p_def)
  moreover have "main_step (p1\<lparr>pc := Stopping_Server\<rparr>) ?q"
    using server_stopped [of "p1\<lparr>pc := Stopping_Server\<rparr>"] by (simp add: p1_def p_def)
  ultimately have "main_step\<^sup>*\<^sup>* p1 ?q" by (intro converse_rtranclp_into_rtranclp [OF _ r_into_rtranclp])
  from stop_in_stages_is_stop [OF p p1 this] show ?thesis by (simp add: p_def p0_def Let_def)
qed

end
