(* ===== verification/Http_Client.thy ===== *)
theory Http_Client
  imports Sockets
begin

section \<open>The HTTP client and its sockets (net.cpp)\<close>

text \<open>
  \<open>Net\<close> describes what \<^verbatim>\<open>httpGet\<close> and \<^verbatim>\<open>httpPost\<close> answer over a link that is given. Here
  is the code that makes the link: the loop over the addresses of \<^verbatim>\<open>getaddrinfo\<close>, the sending of
  the request, and the \<^verbatim>\<open>TcpConnection\<close> that is destroyed on every way out. The detailed
  functions answer as those of \<open>Net\<close>, and every socket that was made is closed, once.
\<close>

subsection \<open>Connecting\<close>

text \<open>One address: the socket made for it, if any, and whether \<^verbatim>\<open>connect\<close> succeeds.\<close>

record connect_try =
  ct_socket :: "socket_t option"
  ct_connects :: bool

fun connect_first :: "connect_try list \<Rightarrow> socket_t \<times> release list" where
  "connect_first [] = (invalid_socket, [])"
| "connect_first (a # as) =
     (case ct_socket a of
        None \<Rightarrow> connect_first as
      | Some s \<Rightarrow>
          if ct_connects a then (s, [])
          else (case connect_first as of (fd, calls) \<Rightarrow> (fd, Close_Socket s # calls)))"

subsection \<open>One exchange\<close>

text \<open>What the system and the peer do in one call: the addresses the name resolves to (none when it does not), the
  results of \<^verbatim>\<open>send\<close>, and what the peer answers to the bytes it has received.\<close>

record http_peer =
  peer_addresses :: "connect_try list"
  peer_sends :: "int list"
  peer_answer :: "string \<Rightarrow> rx_stream"

text \<open>The body that \<^verbatim>\<open>httpGet\<close> and \<^verbatim>\<open>httpPost\<close> share; at the end, and at every return after the
  connection was made, the destructor closes it.\<close>

definition http_exchange :: "http_peer \<Rightarrow> string \<Rightarrow> string \<Rightarrow> HttpResponse \<times> release list" where
  "http_exchange peer host request =
     (if peer_addresses peer = [] then (HttpResponse_new\<lparr>resp_error := ''resolve failed''\<rparr>, [])
      else case connect_first (peer_addresses peer) of (fd, calls) \<Rightarrow>
        if fd = invalid_socket then (HttpResponse_new\<lparr>resp_error := ''connect failed''\<rparr>, calls)
        else
          let conn = TcpConnection_new fd host;
              closing = snd (conn_close conn)
          in case sendBytes request (peer_sends peer) of (ok, received) \<Rightarrow>
               if \<not> ok then (HttpResponse_new\<lparr>resp_error := ''send failed''\<rparr>, calls @ closing)
               else (read_response (peer_answer peer received), calls @ closing))"

definition get_exchange :: "http_peer \<Rightarrow> string \<Rightarrow> string \<Rightarrow> HttpResponse \<times> release list" where
  "get_exchange peer host path = http_exchange peer host (get_request host path)"

definition post_exchange :: "http_peer \<Rightarrow> string \<Rightarrow> string \<Rightarrow> string \<Rightarrow> HttpResponse \<times> release list" where
  "post_exchange peer host path content = http_exchange peer host (post_request host path content)"

subsection \<open>The link that an exchange makes\<close>

definition usable_try :: "connect_try \<Rightarrow> bool" where
  "usable_try a \<longleftrightarrow> ct_socket a \<noteq> None \<and> ct_connects a"

text \<open>The addresses that are tried: up to the first that connects.\<close>

definition tried :: "connect_try list \<Rightarrow> connect_try list" where
  "tried as = takeWhile (\<lambda>a. \<not> usable_try a) as @ take 1 (dropWhile (\<lambda>a. \<not> usable_try a) as)"

definition link_of :: "http_peer \<Rightarrow> string \<Rightarrow> http_link" where
  "link_of peer request =
     (if peer_addresses peer = [] then Resolve_Fails
      else if \<not> list_ex usable_try (peer_addresses peer) then Connect_Fails
      else if \<not> fst (sendBytes request (peer_sends peer)) then Send_Fails
      else Answers (peer_answer peer request))"

definition sockets_of :: "connect_try list \<Rightarrow> socket_t list" where
  "sockets_of as = List.map_filter ct_socket as"

lemma tried_Cons: "tried (a # as) = (if usable_try a then [a] else a # tried as)"
  by (simp add: tried_def)

lemma tried_Nil [simp]: "tried [] = []"
  by (simp add: tried_def)

lemma sockets_of_Cons: "sockets_of (a # as) = (case ct_socket a of None \<Rightarrow> sockets_of as | Some s \<Rightarrow> s # sockets_of as)"
  by (simp add: sockets_of_def map_filter_simps split: option.split)

lemma sockets_of_Nil [simp]: "sockets_of [] = []"
  by (simp add: sockets_of_def map_filter_simps)

lemma connect_first_tried:
  assumes "\<forall>a \<in> set as. ct_socket a \<noteq> Some invalid_socket"
  shows "(fst (connect_first as) \<noteq> invalid_socket \<longleftrightarrow> list_ex usable_try as) \<and>
    map Close_Socket (sockets_of (tried as)) =
      snd (connect_first as) @ (if list_ex usable_try as then [Close_Socket (fst (connect_first as))] else [])"
  using assms
proof (induction as)
  case Nil
  show ?case by (simp add: sockets_of_def map_filter_simps)
next
  case (Cons a as)
  then show ?case
    by (cases "ct_socket a"; cases "ct_connects a")
      (auto simp: tried_Cons sockets_of_Cons usable_try_def case_prod_beta split: if_splits)
qed

lemma sendBytes_all: "sendBytes data ns = (True, received) \<Longrightarrow> received = data"
  using sendBytes_taken [of data ns] by auto

lemma http_exchange_link:
  assumes "\<forall>a \<in> set (peer_addresses peer). ct_socket a \<noteq> Some invalid_socket"
  shows "http_exchange peer host request =
    (http_send (\<lambda>h p r. link_of peer r) host port request, map Close_Socket (sockets_of (tried (peer_addresses peer))))"
proof -
  obtain fd calls where c: "connect_first (peer_addresses peer) = (fd, calls)" by fastforce
  obtain ok received where s: "sendBytes request (peer_sends peer) = (ok, received)" by fastforce
  note f = connect_first_tried [OF assms, unfolded c, simplified]
  have "received = request" if ok using s that sendBytes_all by simp
  with f show ?thesis
    by (cases ok; cases "peer_addresses peer = []"; cases "fd = invalid_socket")
      (auto simp: http_exchange_def c s link_of_def http_send_def conn_close_def TcpConnection_new_def Let_def
        sockets_of_def map_filter_simps)
qed

subsection \<open>Properties\<close>

text \<open>C24: The HTTP client: over whatever addresses, partial sends and answers, \<^verbatim>\<open>httpGet\<close> and \<^verbatim>\<open>httpPost\<close> return
  what they return over the link that the first address to connect gives, and of the sockets they
  made they leave none open, on any way out: those of the addresses that were tried are closed, each once.\<close>

theorem http_client_closes_sockets:
  assumes "\<forall>a \<in> set (peer_addresses peer). ct_socket a \<noteq> Some invalid_socket"
  shows "get_exchange peer host path =
      (httpGet (\<lambda>h p r. link_of peer r) host port path, map Close_Socket (sockets_of (tried (peer_addresses peer)))) \<and>
    post_exchange peer host path content =
      (httpPost (\<lambda>h p r. link_of peer r) host port path content, map Close_Socket (sockets_of (tried (peer_addresses peer))))"
  using http_exchange_link [OF assms] by (simp add: get_exchange_def post_exchange_def httpGet_def httpPost_def)

theorem http_client_closes_sockets_witness:
  "snd (get_exchange \<lparr>peer_addresses = [\<lparr>ct_socket = Some 3, ct_connects = False\<rparr>, \<lparr>ct_socket = None, ct_connects = True\<rparr>,
       \<lparr>ct_socket = Some 4, ct_connects = True\<rparr>, \<lparr>ct_socket = Some 5, ct_connects = True\<rparr>],
     peer_sends = [10, 0], peer_answer = \<lambda>r. []\<rparr> ''h'' ''/metrics'') = [Close_Socket 3, Close_Socket 4]"
  using http_client_closes_sockets [of "\<lparr>peer_addresses = [\<lparr>ct_socket = Some 3, ct_connects = False\<rparr>,
      \<lparr>ct_socket = None, ct_connects = True\<rparr>, \<lparr>ct_socket = Some 4, ct_connects = True\<rparr>, \<lparr>ct_socket = Some 5, ct_connects = True\<rparr>],
      peer_sends = [10, 0], peer_answer = \<lambda>r. []\<rparr>" "''h''" "''/metrics''" 80 "[]"]
  by (simp add: invalid_socket_def tried_Cons usable_try_def sockets_of_def map_filter_simps)

end
