(* ===== verification/Endless_Request.thy ===== *)
theory Endless_Request
  imports Tls_Session
begin

section \<open>A request without an end (metrics_server.cpp, net.cpp)\<close>

text \<open>
  \<^verbatim>\<open>handleClient\<close> reads header lines while they come. Each byte has its time limit, but neither the
  number of lines nor the time of a request has one, and the accept loop serves one connection at a
  time. The theory shows that a client can keep it, and how.
\<close>

subsection \<open>Reading for ever\<close>

text \<open>States of a connection from which a line comes, always, and never an empty one.\<close>

definition feeds :: "(nat \<Rightarrow> 's \<Rightarrow> string option \<times> 's) \<Rightarrow> 's set \<Rightarrow> bool" where
  "feeds read K \<longleftrightarrow> (\<forall>s \<in> K. \<exists>line s'. recvLine_via read s = (True, line, s') \<and> line \<noteq> [] \<and> s' \<in> K)"

lemma feedsD:
  assumes "feeds read K" "s \<in> K"
  obtains line s' where "recvLine_via read s = (True, line, s')" "line \<noteq> []" "s' \<in> K"
  using assms unfolding feeds_def by blast

lemma headers_returned:
  assumes "headers_via read acc s = Some y"
  shows "\<not> (feeds read K \<and> s \<in> K)"
proof (rule headers_via.raw_induct [where P = "\<lambda>read acc s y. \<not> (feeds read K \<and> s \<in> K)", OF _ assms])
  fix f and read :: "nat \<Rightarrow> 'a \<Rightarrow> string option \<times> 'a" and acc s y
  assume IH: "\<And>acc s b y. f acc s b = Some y \<Longrightarrow> \<not> (feeds acc K \<and> b \<in> K)"
    and body: "(case recvLine_via read s of
        (ok, line, s') \<Rightarrow> if ok \<and> line \<noteq> [] then f read (header_line line acc) s' else Some (acc, s')) = Some y"
  show "\<not> (feeds read K \<and> s \<in> K)"
  proof
    assume feeds: "feeds read K \<and> s \<in> K"
    then obtain line s' where line: "recvLine_via read s = (True, line, s')" "line \<noteq> []" "s' \<in> K"
      using feedsD by metis
    with body have "f read (header_line line acc) s' = Some y" by simp
    with IH feeds line(3) show False by blast
  qed
qed

lemma headers_for_ever: "feeds read K \<Longrightarrow> s \<in> K \<Longrightarrow> headers_via read acc s = None"
  using headers_returned [of read acc s] by (cases "headers_via read acc s") auto

lemma request_for_ever:
  assumes "feeds read K" "s \<in> K"
  shows "request_via read recv s = None"
proof -
  obtain line s' where "recvLine_via read s = (True, line, s')" "s' \<in> K" using assms by (rule feedsD)
  with headers_for_ever [OF assms(1)] show ?thesis by (simp add: request_via_def case_prod_beta Let_def)
qed

subsection \<open>A client that repeats a line\<close>

text \<open>The connection of a client that sends the line \<open>l\<close> over and over; the state is the rest of the line.\<close>

fun endless :: "string \<Rightarrow> nat \<Rightarrow> string \<Rightarrow> string option \<times> string" where
  "endless l n [] = (Some [newline], l)"
| "endless l n (c # cs) = (Some [c], cs)"

lemma endless_line:
  "newline \<notin> set cs \<Longrightarrow> length cs < m \<Longrightarrow> line_via (endless l) m line cs = (True, strip_line_end (line @ cs), l)"
proof (induction cs arbitrary: m line)
  case Nil
  then show ?case by (cases m) simp_all
next
  case (Cons c cs)
  then show ?case by (cases m) auto
qed

lemma strip_clean: "clean_line l \<Longrightarrow> strip_line_end l = l"
  by (cases l rule: rev_cases) (auto simp: strip_line_end_def clean_line_def)

lemma endless_feeds: "clean_line l \<Longrightarrow> l \<noteq> [] \<Longrightarrow> feeds (endless l) {l}"
  by (simp add: feeds_def recvLine_via_def endless_line strip_clean clean_line_def [of l])

subsection \<open>Properties\<close>

text \<open>C22: One client can hold the server for ever: a client that goes on sending a header line, any line, is
  read and never answered, refused or given up; the connection is not closed, and the accept loop takes no
  other. The policy and the limiter are asked only after the headers.\<close>

theorem endless_headers_hold_server:
  assumes "clean_line l" "l \<noteq> []"
  shows "request_via (endless l) recv l = None"
  by (rule request_for_ever [OF endless_feeds [OF assms]]) simp

theorem endless_headers_hold_server_witness:
  "request_via (endless ''a: b'') (\<lambda>n s. (None, s)) ''a: b'' = None"
  by (rule endless_headers_hold_server) (simp_all add: clean_line_def max_line_def)

end
