(* ===== verification/Tls_Post.thy ===== *)
theory Tls_Post
  imports Tls_Session
begin

section \<open>The body of a POST over TLS (net.cpp, metrics_server.cpp)\<close>

text \<open>
  The head of a request is read line by line through the session, its body with
  \<^verbatim>\<open>recvExact\<close>, which calls \<^verbatim>\<open>recv\<close> on the socket. What is there is the encrypted record.
\<close>

subsection \<open>Reading the head\<close>

context byte_source
begin

lemma recvLine_via_clean:
  assumes "good s" "bytes s = l @ crlf @ rest" "clean_line l"
  obtains s' where "recvLine_via read s = (True, l, s')" "bytes s' = rest" "good s'"
proof -
  have "line_spec max_line [] (bytes s) = (True, strip_line_end (l @ [carriage_return]), rest)"
    using line_spec_line [of "l @ [carriage_return]" max_line "[]" rest] assms(2,3) by (simp add: crlf_def clean_line_def)
  then have "line_spec max_line [] (bytes s) = (True, l, rest)" by (simp add: strip_line_end_cr [OF assms(3)])
  from line_via_spec [OF assms(1) this] that show thesis by (auto simp: recvLine_via_def)
qed

lemma headers_via_lines:
  assumes "good s" "bytes s = concat (map (\<lambda>h. h @ crlf) hs) @ crlf @ rest" "\<forall>h \<in> set hs. clean_line h \<and> h \<noteq> []"
  shows "\<exists>s'. headers_via read acc s = Some (fold header_line hs acc, s') \<and> bytes s' = rest \<and> good s'"
  using assms
proof (induction hs arbitrary: acc s)
  case Nil
  have "bytes s = [] @ crlf @ rest" "clean_line []" using Nil.prems(2) by (simp_all add: clean_line_def max_line_def)
  from recvLine_via_clean [OF Nil.prems(1) this] obtain s' where
    "recvLine_via read s = (True, [], s')" "bytes s' = rest" "good s'" .
  then show ?case by (subst headers_via.simps) simp
next
  case (Cons h hs)
  have h: "bytes s = h @ crlf @ concat (map (\<lambda>h. h @ crlf) hs) @ crlf @ rest" "clean_line h" "h \<noteq> []"
    using Cons.prems(2,3) by simp_all
  from recvLine_via_clean [OF Cons.prems(1) h(1,2)] obtain s1 where
    s1: "recvLine_via read s = (True, h, s1)" "bytes s1 = concat (map (\<lambda>h. h @ crlf) hs) @ crlf @ rest" "good s1" .
  from Cons.IH [OF s1(3,2), of "header_line h acc"] Cons.prems(3) s1(1) h(3) show ?case
    by (subst headers_via.simps) simp
qed

text \<open>The body of a POST is what the other way to receive delivers after the head.\<close>

lemma request_via_post:
  assumes "good s" "bytes s = post_line path @ crlf @ concat (map (\<lambda>h. h @ crlf) (post_headers host content)) @ crlf @ rest"
    and "clean_host host" "clean_path path" "length content \<le> 1024 * 1024" "content \<noteq> []"
  obtains s' where "bytes s' = rest" "good s'"
    "request_via read recv s = Some (case exact_via recv [] (length content) s' of (got, data, s3) \<Rightarrow>
       if got then Some \<lparr>req_method = ''POST'', req_path = path, req_authorization = [], req_body = data\<rparr> else None)"
proof -
  note head = post_head [OF assms(3-5)]
  from recvLine_via_clean [OF assms(1,2) head(2)] obtain s1 where
    s1: "recvLine_via read s = (True, post_line path, s1)"
      "bytes s1 = concat (map (\<lambda>h. h @ crlf) (post_headers host content)) @ crlf @ rest" "good s1" .
  from headers_via_lines [OF s1(3,2) head(4), of "(0, [])"] obtain s2 where
    s2: "headers_via read (0, []) s1 = Some ((of_nat (length content), []), s2)" "bytes s2 = rest" "good s2"
    by (auto simp: head(5))
  define n :: "64 word" where "n = of_nat (length content)"
  have un: "unat n = length content" using assms(5) by (simp add: n_def unat_of_nat_small)
  then have "0 < n" "\<not> n > 1024 * 1024"
    using assms(5,6) by (simp_all add: word_less_nat_alt word_gt_0)
  with s1(1) s2(1) un have "request_via read recv s = Some (case exact_via recv [] (length content) s2 of (got, data, s3) \<Rightarrow>
      if got then Some \<lparr>req_method = ''POST'', req_path = path, req_authorization = [], req_body = data\<rparr> else None)"
    by (simp add: request_via_def head(3) n_def [symmetric])
  with s2 that show thesis by blast
qed

end

subsection \<open>The session after the head\<close>

text \<open>The records on the socket are the last ones of those that were sent.\<close>

fun conn_tail :: "('t \<Rightarrow> string list) \<Rightarrow> string list \<Rightarrow> 't transport \<Rightarrow> bool" where
  "conn_tail wire records (Plain es) \<longleftrightarrow> False"
| "conn_tail wire records (Session t) \<longleftrightarrow> [] \<notin> set (wire t) \<and> (\<exists>taken. records = taken @ wire t)"

lemma conn_tail_source:
  assumes "tls_documented lib pending wire"
  shows "byte_source (conn_read lib) (conn_bytes pending wire) (conn_tail wire records)"
proof
  fix s :: "'a transport" and c bs
  assume tail: "conn_tail wire records s" and bytes: "conn_bytes pending wire s = c # bs"
  then obtain t taken where t: "s = Session t" "[] \<notin> set (wire t)" "records = taken @ wire t" by (cases s) auto
  obtain t' where t': "conn_read lib 1 (Session t) = (Some [c], Session t')" "visible (pending t') (wire t') = bs"
      "[] \<notin> set (wire t')" "wire t' = wire t \<or> wire t' = tl (wire t)"
    using session_read [OF assms t(2)] bytes t(1) by fastforce
  have "\<exists>taken. records = taken @ wire t'"
    using t(3) t'(4) by (cases "wire t") (auto intro: exI [of _ "taken @ [hd (wire t)]"])
  with t(1) t' show "\<exists>s'. conn_read lib 1 s = (Some [c], s') \<and> conn_bytes pending wire s' = bs \<and> conn_tail wire records s'"
    by (intro exI [of _ "Session t'"]) simp
next
  fix s :: "'a transport"
  assume "conn_tail wire records s" "conn_bytes pending wire s = []"
  then show "fst (conn_read lib 1 s) = None"
    using byte_source.read_end [OF conn_source [OF assms], of s] by (cases s) auto
qed

lemma only_last_record:
  assumes "visible p w = take 1 r" "[] \<notin> set w" "taken @ w = rs @ [r]" "r \<noteq> []"
  shows "p = [] \<and> w = [r]"
proof -
  have w: "w \<noteq> []" using assms(1,4) by (auto simp: visible_def take_Suc split: list.splits)
  then have last: "last w = r" using assms(3) by (metis last_appendR last_snoc)
  with assms(1) w have "p @ concat (butlast w) = []" by (simp add: visible_def)
  moreover have "[] \<notin> set (butlast w)" using assms(2) by (meson in_set_butlastD)
  ultimately have "p = []" "butlast w = []" by (cases "butlast w"; auto)+
  with w last show ?thesis by (metis append_butlast_last_id append_Nil)
qed

subsection \<open>Properties\<close>

text \<open>C21: What a client pushes over TLS never arrives: the server takes as the body of a POST not the content but as
  many bytes of the encrypted record, and ingests those. \<open>seal\<close> is what a record looks like on the
  wire, at least as long as its content; the last two hypotheses on the library say what \<^verbatim>\<open>recv\<close>
  finds on the socket of a session.\<close>

theorem tls_post_ingests_ciphertext:
  assumes "tls_documented lib pending wire"
    and "\<And>t n. wire t \<noteq> [] \<Longrightarrow> 0 < n \<Longrightarrow> fst (ssl_recv lib n t) = Some (take n (concat (map seal (wire t))))"
    and "\<And>r. length r \<le> length (seal r)"
    and "pending t = []" "wire t = head @ [content]" "[] \<notin> set head" "concat head @ content = post_request host path content"
    and "clean_host host" "clean_path path" "content \<noteq> []" "length content \<le> 4096"
  shows "handle_via lib s registry now peer (Session t) = Some (answer s registry now peer
    (Some \<lparr>req_method = ''POST'', req_path = path, req_authorization = [], req_body = take (length content) (seal content)\<rparr>))"
proof -
  let ?source = "conn_bytes pending wire" and ?tail = "conn_tail wire (head @ [content])"
  note source = conn_tail_source [OF assms(1), of "head @ [content]"]
  have size: "length content \<le> 1024 * 1024" using assms(11) by simp
  have good: "?tail (Session t)" using assms(5,6,10) by simp
  have bytes: "?source (Session t) = post_line path @ crlf @ concat (map (\<lambda>h. h @ crlf) (post_headers host content)) @ crlf @ take 1 content"
    using assms(4,5,7) post_head(1) [OF assms(8,9) size] by (simp add: visible_def)
  from byte_source.request_via_post [OF source good bytes assms(8,9) size assms(10), where recv = "conn_recv lib"] obtain c where
    c: "?source c = take 1 content" "?tail c" and request: "request_via (conn_read lib) (conn_recv lib) (Session t) =
      Some (case exact_via (conn_recv lib) [] (length content) c of (got, data, s3) \<Rightarrow>
        if got then Some \<lparr>req_method = ''POST'', req_path = path, req_authorization = [], req_body = data\<rparr> else None)"
    by blast
  obtain u where u: "c = Session u" using c(2) by (cases c) auto
  have w: "wire u = [content]" using c only_last_record [of "pending u" "wire u" content _ head] assms(10) by (auto simp: u)
  obtain u0 where u0: "ssl_poll lib u = (True, u0)" "wire u0 = [content]" using tls_poll [OF assms(1), of u] w by auto
  let ?n = "length content"
  have sealed: "take ?n (seal content) \<noteq> []" "length (take ?n (seal content)) = ?n"
    using assms(3) [of content] assms(10) by auto
  have "fst (ssl_recv lib ?n u0) = Some (take ?n (seal content))" using assms(2) [of u0 ?n] u0(2) assms(10) by simp
  then have recv: "conn_recv lib ?n c = (Some (take ?n (seal content)), Session (snd (ssl_recv lib ?n u0)))"
    by (simp add: conn_recv_def u u0(1) prod_eq_iff)
  obtain d ds where d: "take ?n (seal content) = d # ds" using sealed(1) by (cases "take ?n (seal content)") auto
  with sealed(2) have "length (d # ds) = ?n" by simp
  then have "exact_via (conn_recv lib) (d # ds) ?n c' = (True, d # ds, c')" for c'
    by (subst exact_via.simps) simp
  then have "\<exists>c'. exact_via (conn_recv lib) [] ?n c = (True, d # ds, c')"
    using assms(10,11) recv by (subst exact_via.simps) (simp add: d)
  with request show ?thesis by (auto simp: handle_via_def d)
qed

text \<open>A session over records that are sealed by one byte in front and reversed.\<close>

definition example_seal :: "string \<Rightarrow> string" where
  "example_seal r = CHR 0x17 # rev r"

definition sealed_session :: "(string \<times> string list) ssl" where
  "sealed_session = record_session\<lparr>ssl_recv := \<lambda>n t. (Some (take n (concat (map example_seal (snd t)))), t)\<rparr>"

theorem tls_post_ingests_ciphertext_witness:
  "handle_via sealed_session (MetricsServer_new ''0.0.0.0'' 19100) registry_empty 0 ''10.0.0.1:80''
     (Session ([], [post_line ''/ingest'' @ crlf @ concat (map (\<lambda>h. h @ crlf) (post_headers ''h'' ''a 1'')) @ crlf, ''a 1''])) =
   Some (answer (MetricsServer_new ''0.0.0.0'' 19100) registry_empty 0 ''10.0.0.1:80''
     (Some \<lparr>req_method = ''POST'', req_path = ''/ingest'', req_authorization = [], req_body = CHR 0x17 # ''1 ''\<rparr>))"
proof -
  let ?head = "[post_line ''/ingest'' @ crlf @ concat (map (\<lambda>h. h @ crlf) (post_headers ''h'' ''a 1'')) @ crlf]"
  have doc: "tls_documented sealed_session fst snd"
    using record_session_documented by (simp add: tls_documented_def sealed_session_def)
  have clean: "clean_host ''h''" "clean_path ''/ingest''" by (simp_all add: clean_host_def clean_path_def isspace_def)
  have post: "concat ?head @ ''a 1'' = post_request ''h'' ''/ingest'' ''a 1''"
    using post_head(1) [OF clean, of "''a 1''"] by simp
  have head: "[] \<notin> set ?head" by (simp add: crlf_def)
  show ?thesis
    using tls_post_ingests_ciphertext [OF doc _ _ _ _ head post clean, where seal = example_seal and t = "([], ?head @ [''a 1''])"
        and s = "MetricsServer_new ''0.0.0.0'' 19100" and registry = registry_empty and now = 0 and peer = "''10.0.0.1:80''"]
    by (simp add: sealed_session_def example_seal_def)
qed

end
