(* ===== verification/Concurrent_Merges.thy ===== *)
theory Concurrent_Merges
  imports Prom_Text
begin

section \<open>Merges that run at the same time (prometheus_text.cpp, registry.cpp)\<close>

text \<open>
  \<^verbatim>\<open>mergePrometheusText\<close> takes the registry's lock for each sample, so two scrapes, or a scrape and a
  push, interleave sample by sample. An interleaving is an element of \<open>shuffles\<close>: it keeps the
  order of each. The theory compares what it leaves with the two merges one after the other.
\<close>

subsection \<open>The last sample of a name\<close>

definition upserts :: "MetricSpec list \<Rightarrow> MetricRegistry \<Rightarrow> MetricRegistry" where
  "upserts specs r = fold (\<lambda>spec r. snd (upsert r spec)) specs r"

definition samples_of :: "string \<Rightarrow> MetricSpec list \<Rightarrow> MetricSpec list" where
  "samples_of name specs = filter (\<lambda>spec. accepted_spec spec \<and> spec_name spec = name) specs"

lemma upserts_append: "upserts (xs @ ys) r = upserts ys (upserts xs r)"
  by (simp add: upserts_def)

lemma upserts_find:
  "registry_find (upserts specs r) name =
     (if samples_of name specs = [] then registry_find r name else Some (metric_of (last (samples_of name specs))))"
proof (induction specs rule: rev_induct)
  case Nil
  show ?case by (simp add: upserts_def samples_of_def)
next
  case (snoc spec specs)
  have "upserts (specs @ [spec]) r = snd (upsert (upserts specs r) spec)" by (simp add: upserts_def)
  with snoc registry.store_iff [of "upserts specs r" spec] registry.store_accepted [of spec "upserts specs r"]
    registry.store_rejected [of spec "upserts specs r"]
  show ?case by (cases "accepted_spec spec") (auto simp: samples_of_def)
qed

lemma last_shuffles:
  "zs \<in> shuffles xs ys \<Longrightarrow> zs \<noteq> [] \<Longrightarrow> xs \<noteq> [] \<and> last zs = last xs \<or> ys \<noteq> [] \<and> last zs = last ys"
proof (induction zs arbitrary: xs ys)
  case (Cons z zs)
  show ?case
  proof (cases "zs = []")
    case True
    with Cons.prems(1) show ?thesis by (cases xs; cases ys) (auto simp: Cons_in_shuffles_iff)
  next
    case False
    from Cons.prems(1) consider (left) xs' where "xs = z # xs'" "zs \<in> shuffles xs' ys"
      | (right) ys' where "ys = z # ys'" "zs \<in> shuffles xs ys'"
      by (metis Cons_in_shuffles_iff list.collapse)
    then show ?thesis
    proof cases
      case left
      with Cons.IH [OF left(2) False] False show ?thesis by auto
    next
      case right
      with Cons.IH [OF right(2) False] False show ?thesis by auto
    qed
  qed
qed simp

lemma shuffle_samples: "zs \<in> shuffles xs ys \<Longrightarrow> samples_of name zs \<in> shuffles (samples_of name xs) (samples_of name ys)"
  unfolding samples_of_def filter_shuffles [symmetric] by blast

lemma shuffled_upserts:
  assumes "zs \<in> shuffles xs ys"
  shows "registry_find (upserts zs r) name \<in>
    {registry_find (upserts ys (upserts xs r)) name, registry_find (upserts xs (upserts ys r)) name}"
proof (cases "samples_of name zs = []")
  case True
  with shuffle_samples [OF assms, of name] have "samples_of name xs = []" "samples_of name ys = []"
    by (metis Nil_in_shuffles)+
  with True show ?thesis by (simp add: upserts_find)
next
  case False
  from last_shuffles [OF shuffle_samples [OF assms] this] False show ?thesis
    by (auto simp: upserts_find)
qed

text \<open>Two texts of two gauges.\<close>

definition example_text :: "char \<Rightarrow> string" where
  "example_text digit = ''a '' @ [digit, newline] @ ''b '' @ [digit, newline]"

definition example_samples :: "double \<Rightarrow> MetricSpec list" where
  "example_samples value = map (\<lambda>name. empty_spec\<lparr>spec_name := name, spec_type := ''gauge'', spec_value := value\<rparr>) [''a'', ''b'']"

lemma example_parse:
  "parsePrometheusText (example_text CHR ''1'') = (True, example_samples (DFin False 1), [])"
  "parsePrometheusText (example_text CHR ''2'') = (True, example_samples (DFin False 2), [])"
  by code_simp+

subsection \<open>Properties\<close>

text \<open>C14: Merges that run at the same time: whatever way two scrapes or pushes interleave in the registry, each
  series ends up as if one of them had run after the other, with nothing mixed inside a series. (Of different
  series one can come from one text and one from the other, so the registry as a whole may be in
  a state that neither order leaves.)\<close>

theorem concurrent_merges_serialise:
  assumes "parsePrometheusText t1 = (True, xs, e1)" "parsePrometheusText t2 = (True, ys, e2)" "zs \<in> shuffles xs ys"
  shows "registry_find (upserts zs r) name \<in>
    {registry_find (fst (snd (mergePrometheusText (fst (snd (mergePrometheusText r t1))) t2))) name,
     registry_find (fst (snd (mergePrometheusText (fst (snd (mergePrometheusText r t2))) t1))) name}"
  using shuffled_upserts [OF assms(3), of r name] by (simp add: merge_eq [OF assms(1)] merge_eq [OF assms(2)] upserts_def)

theorem concurrent_merges_serialise_witness:
  "let r = upserts [example_samples (DFin False 1) ! 0, example_samples (DFin False 2) ! 0,
         example_samples (DFin False 2) ! 1, example_samples (DFin False 1) ! 1] registry_empty;
       merge = \<lambda>r t. fst (snd (mergePrometheusText r t))
   in registry_find r ''a'' = registry_find (merge (merge registry_empty (example_text CHR ''1'')) (example_text CHR ''2'')) ''a'' \<and>
      registry_find r ''b'' \<noteq> registry_find (merge (merge registry_empty (example_text CHR ''1'')) (example_text CHR ''2'')) ''b''"
proof -
  let ?xs = "example_samples (DFin False 1)" and ?ys = "example_samples (DFin False 2)"
  have zs: "[?xs ! 0, ?ys ! 0, ?ys ! 1, ?xs ! 1] \<in> shuffles ?xs ?ys"
    by (simp add: example_samples_def Cons_in_shuffles_iff)
  show ?thesis
    using concurrent_merges_serialise [OF example_parse zs, of registry_empty "''a''"]
    by (simp add: merge_eq [OF example_parse(1)] merge_eq [OF example_parse(2)] example_samples_def upserts_def
        empty_spec_def upsert_def makeMetric_def GaugeMetric_new_def registry_find_def registry_empty_def Let_def)
qed

end
