(* ===== verification/Spec2Isabelle.thy ===== *)
theory Spec2Isabelle
  imports Prelude Doubles Double_Text Metric Registry Exposition Prom_Text Federation Logger Ingest Acl
    Rate_Limiter Field_Scanner Net Sockets Metrics_Server Snapshot Config Transition Scheduler Daemon Cli
    Target_Life Sched_Live Reprint Registry_Heap Tls_Session Authorization Broken_Pipe Main_Loop Staged_Stop
    Http_Client Endless_Request Tls_Post Concurrent_Merges
begin

text \<open>
  simple-metricd is a metrics daemon: it keeps named counters, gauges and histograms, serves them over
  HTTP in the Prometheus text format, takes samples by POST, scrapes other endpoints into its own
  registry, and carries its registry over a restart in a text file. \<^verbatim>\<open>metricctl\<close> is its command
  line client. This development is a model of the C++ code under \<^verbatim>\<open>src/src/simple-metricd\<close>,
  \<^verbatim>\<open>src/include/simple-metricd\<close> and \<^verbatim>\<open>src/main\<close>, with the theorems that say what it does.
  Names of files below are relative to the first of these unless they start with \<^verbatim>\<open>main/\<close>.

  \<^bold>\<open>The parts and how they interact.\<close> \<^verbatim>\<open>MetricDaemon\<close> owns everything. \<^verbatim>\<open>initialize\<close> fills the
  registry from the configuration and then from the snapshot file; \<^verbatim>\<open>start\<close> brings up the HTTP
  server (one accept loop, one connection at a time), the scrape scheduler (a dispatcher and a pool of
  workers) and the loop that saves snapshots; \<^verbatim>\<open>stop\<close> takes them down. The registry is the state
  they share. It enters through \<^verbatim>\<open>upsert\<close>, which the scraper, the ingest endpoint and the snapshot
  loader call, and leaves through \<^verbatim>\<open>list\<close>, which the exposition and the snapshot writer call.

  \<^bold>\<open>Conventions.\<close> A \<^verbatim>\<open>std::string\<close> is a list of bytes. A C++ object is a record of its fields;
  a member function takes the object and returns the new one beside its result. An exception, a
  refused value or an early return is a value of a sum, an option or a datatype of outcomes. A member
  function that holds its object's mutex for its whole body is one atomic function. What comes
  from outside (clock, network, files, the answers of system calls, OpenSSL) is an argument and a
  theorem holds for all of it, unless a hypothesis names what is needed.

  \<^bold>\<open>The theories.\<close>
  \<^item> \<open>Prelude\<close>: character classes and the string operations of the sources (\<^verbatim>\<open>trim\<close>,
    \<^verbatim>\<open>std::getline\<close>, \<^verbatim>\<open>operator>>\<close>), the order on strings, generic lemmas and the collections of hints.
  \<^item> \<open>Doubles\<close>: \<^verbatim>\<open>double\<close> as binary64 with its rounding and comparisons, an instance of the class
    of orders. \<open>Double_Text\<close>: \<^verbatim>\<open>std::stod\<close>, \<^verbatim>\<open>std::stoi\<close>, \<^verbatim>\<open>std::stoul\<close>, and what
    \<^verbatim>\<open>operator<<\<close> prints of a number; printing and reading composed.
  \<^item> \<open>Metric\<close> (metric/metric.cpp): the three classes, the factory, \<^verbatim>\<open>CounterRate\<close>. The contract
    of the abstract class is the locale \<open>metric_interface\<close>, interpreted on each class and on the
    dispatch over them. A histogram counts every observation in exactly the buckets its bound allows.
  \<^item> \<open>Registry\<close> (metric/registry.cpp): the store by name. What its writers rely on is the
    locale \<open>metric_store\<close>, interpreted on \<^verbatim>\<open>find\<close> and \<^verbatim>\<open>upsert\<close>; \<open>map_apply\<close> says what
    each call does to a partial map from names to metrics, which the registry implements; the invariant \<open>wf_registry\<close>
    is kept by every operation and, in the later theories, by every client of the registry.
  \<^item> \<open>Exposition\<close> (http/exposition.cpp), \<open>Prom_Text\<close> (scrape/prometheus_text.cpp) and
    \<open>Federation\<close>: the text of \<^verbatim>\<open>/metrics\<close>, its parser, and the two composed.
  \<^item> \<open>Ingest\<close> (http/ingest.cpp), \<open>Acl\<close> (security/acl.cpp), \<open>Rate_Limiter\<close>
    (security/rate_limiter.cpp), \<open>Metrics_Server\<close> (http/metrics_server.cpp): the request from its
    bytes to the reply. \<open>handleClient\<close> is the whole handler, with its guards in the order of the code.
    \<open>Authorization\<close> follows the Authorization header from there to the reply, beside a reference base64 encoder for what
    standard clients send.
  \<^item> \<open>Net\<close> and \<open>Sockets\<close> (utils/net.cpp): receiving from a connection that TCP cuts at
    will, the HTTP client and the parsers of addresses; sending, accepting, listening, and the ownership of
    sockets and TLS sessions by objects that are moved, swapped and destroyed.
  \<^item> \<open>Field_Scanner\<close>, \<open>Config\<close> (config/config.cpp) and \<open>Snapshot\<close> (metric/snapshot.cpp):
    the two line formats with the scanner they share, the configuration file, saving and loading.
  \<^item> \<open>Logger\<close> (utils/logger.cpp): levels, an instance of the class of linear orders, and the sinks.
  \<^item> \<open>Transition\<close>: reachable states, with the locales \<open>invariant_system\<close> and \<open>refined_system\<close> (every
    step is a step of an abstract system, or none).
  \<^item> \<open>Scheduler\<close> (scrape/scheduler.cpp): the step relation \<open>sched_step\<close> of dispatcher, workers
    and the caller of \<^verbatim>\<open>stop\<close>, and \<open>process_step\<close>, which adds the calls of other threads to the
    registry. \<open>invariant_system\<close> is interpreted on it with the invariant \<open>sched_inv\<close>. \<open>Target_Life\<close>: its specification
    \<open>life_step\<close>, a crew that takes due targets from a line in order and can halt, with an invariant of its own;
    \<open>refined_system\<close> is interpreted on the scheduler, this machine and \<open>life_of\<close>. \<open>Sched_Live\<close>: from every state
    it can reach before it is stopped, each target can be scraped again; one that \<^verbatim>\<open>stop\<close> dropped never is.
  \<^item> \<open>Daemon\<close> (core/daemon.cpp, security/tls.cpp, utils/privilege.cpp): \<open>initialize\<close>,
    \<open>start\<close> and \<open>stop\<close> in full, and the running daemon as \<open>daemon_step\<close> with its invariant.
  \<^item> \<open>Cli\<close> (main/metricctl.cpp, main/simple-metricd.cpp, cli/common.cpp, utils/platform.cpp):
    arguments, output and exit codes of both programs.
  \<^item> \<open>Reprint\<close>: six digits that are read and printed again are the same six digits; with it,
    what a registry serves after a scrape or a restart.
  \<^item> \<open>Registry_Heap\<close>: the registry as the code stores it, names that own objects on a heap, which refines
    \<open>Registry\<close> operation by operation; and \<open>render_step\<close>, a renderer that reads the listed
    pointers one by one while other threads call the registry.
  \<^item> \<open>Tls_Session\<close> (utils/net.cpp, http/metrics_server.cpp): reading a request from a connection
    that may have a TLS session. The calls on the session are the parameter \<open>ssl\<close>; the locale
    \<open>byte_source\<close> is what reading a line needs of a connection, interpreted on the plain one; \<open>tls_documented\<close> states
    what OpenSSL documents of \<^verbatim>\<open>SSL_read\<close> and \<^verbatim>\<open>poll\<close>. \<open>Tls_Post\<close>: the body of a POST, which is read
    past the session. \<open>Broken_Pipe\<close>: the handler over a plain connection that the peer resets; the documented behaviour
    of the socket is \<open>link_recv\<close> and \<open>send_over\<close>, and \<open>byte_source\<close> is interpreted on it too. \<open>Endless_Request\<close>: a client whose header lines do not end.
  \<^item> \<open>Http_Client\<close> (utils/net.cpp): the connect loop, the sending and the closing of \<^verbatim>\<open>httpGet\<close> and
    \<^verbatim>\<open>httpPost\<close>, which implement the functions of \<open>Net\<close> over a given link.
  \<^item> \<open>Concurrent_Merges\<close>: two merges that interleave sample by sample, against one after the other.
  \<^item> \<open>Main_Loop\<close> (main/simple-metricd.cpp, core/daemon.cpp): the process as the step relation
    \<open>main_step\<close>: the main thread, the signal handler and its flag, \<^verbatim>\<open>SIGPIPE\<close>, which has no handler,
    the wait, and \<^verbatim>\<open>stop\<close> part by part while the other threads go on. \<open>Staged_Stop\<close>: this refines the \<open>stop\<close> of \<open>Daemon\<close>, which is one step.

  \<^bold>\<open>What the theorems show.\<close> The numbered properties stand at the end of the theory of the component
  they are about, and here for what spans components. From the outside in: scraping a running
  daemon over TCP carries every counter and gauge over, and pushing and scraping over HTTP reach the
  registry and the exposition exactly; a daemon that has scraped another serves the same text, and a
  second restart changes nothing that the first has not; the exposition does not depend on the hash map's order; the
  registry stays well formed through every execution of the daemon, a counter never falls, and only an
  admitted POST changes anything; a restart restores what was saved; no target is scraped twice at
  once and none is forgotten before \<^verbatim>\<open>stop\<close>; merges that run at once leave each series as one
  after the other would; no socket is leaked, no socket and no TLS session is released twice, the HTTP client closes what it opened, and
  listening takes the first usable address; a failed start leaves nothing running, a successful one runs as
  the configured user; the process exits with 0 only after a signal, and then has done what
  \<open>stop\<close> says. Several
  theorems state behaviour that the authors will not have meant, as the code has it: the lost
  wake-up of \<^verbatim>\<open>stop\<close>, which can leave the process waiting for ever after a signal, the metric
  that is read after a concurrent \<^verbatim>\<open>upsert\<close> has freed it, the TLS request that is never answered
  because it came in one record, the pushed body of which the ciphertext is ingested, the client that ends the
  process by resetting its connection before its headers are complete, the one that holds the only serving thread with header lines
  that do not end, the header that
  is accepted without a password, responses accepted though they were cut off, histograms emptied by a restart, ports taken modulo \<open>2 ^ 16\<close>, and TLS required of every
  client of a daemon built with OpenSSL.

  \<^bold>\<open>Bounds and termination.\<close> Every function is total but those of \<open>Tls_Session\<close> that read header lines
  from a connection that need not ever end: \<open>headers_via\<close> is \<open>None\<close> where the code does not return; the
  theorems about it show the value it returns, and that of \<open>Endless_Request\<close> that it does not. The loops over a connection end because each
  turn consumes a byte or a stall of its finite list (\<open>rx_weight\<close>). \<open>target_fields\<close> has fuel: it is
  run with the length of the text, and \<open>target_fields_fuel\<close> shows that more fuel changes nothing. The
  limits of the code are kept: 8192 bytes of a line, 1 MiB of a body. The histogram counts are 64-bit
  words and wrap. \<open>stop_terminates\<close> gives the order in which every execution of the scheduler descends
  once \<^verbatim>\<open>stop\<close> has cleared the flag, whatever the network answers.

  \<^bold>\<open>Not modelled.\<close> What OpenSSL does: a handshake's outcome is an argument, a session is a parameter, and the
  theorems on sessions assume what its documentation says. Certificates and keys are the outcome of loading them.
  The memory model: critical sections are atomic, so the data races of fields read without a lock are
  outside the model; that the objects which \<^verbatim>\<open>list()\<close> points to are freed is modelled in \<open>Registry_Heap\<close>, and
  the server and the snapshot loop of \<open>Daemon\<close> and \<open>Main_Loop\<close> are those executions in which it
  does not happen. Calls that only pass to the system: \<^verbatim>\<open>initializeSockets\<close>, \<^verbatim>\<open>shutdownSockets\<close>, the local
  time of a log line (an argument), the destructors that run after \<^verbatim>\<open>main\<close>. The code for Windows.
  A merge of the scraper interleaves with the other threads sample by sample, two merges also in \<open>Concurrent_Merges\<close>; a request and a snapshot
  of the HTTP server and the snapshot loop are one step of \<open>Daemon\<close> each, and of the calls that
  reach the registry while \<^verbatim>\<open>stop\<close> joins its threads it takes any list, which \<open>Staged_Stop\<close> justifies. \<^verbatim>\<open>start\<close> and
  \<^verbatim>\<open>stop\<close> are called by one thread, as \<^verbatim>\<open>main\<close> does. In the scheduler, a turn of the dispatcher under the mutex and the
  \<^verbatim>\<open>notify_all\<close> after it are one step, and the condition variable does not wake without a notification: a spurious
  wake-up, which the standard allows and does not promise, could end the wait of a lost one. \<^verbatim>\<open>SIGPIPE\<close> is raised
  by \<^verbatim>\<open>send\<close> on plain connections only; what OpenSSL writes to a reset socket is left out, as are exceptions of
  the constructor of \<^verbatim>\<open>std::thread\<close>.
\<close>

section \<open>Federation of two daemons\<close>

text \<open>C1: One daemon scraping another: when the target is a running daemon whose policy and limiter let the
  scraper in, the scrape succeeds and leaves every counter and gauge of that daemon in the scraping
  one's registry, with the same type, help and labels and the value that six significant digits carry,
  however TCP cuts the exchange and whatever the scraping daemon held before. The metrics served must be ones the text
  format can carry (\<open>scrape_safe\<close>: a name of name characters, no closing brace in the labels, no line break in labels and
  help, a value that can be read back), and at most one mebibyte of text.\<close>

theorem federation_over_http:
  assumes "wf_registry r" "list_all scrape_safe (registry_list r)"
    and "target_path t = ''/metrics''" "clean_host (target_host t)" "rx_bytes es_in = get_request (target_host t) ''/metrics''"
    and "acl_permits (srv_acl s) peer ''/metrics'' []" "fst (limiter_allow (srv_limiter s) peer now)"
    and "length (renderPrometheusText r True) \<le> 1024 * 1024"
    and "sent (handleClient s r now peer es_in) = Some (rx_bytes es_out)"
    and "network (target_host t) (target_port t) (get_request (target_host t) ''/metrics'') = Answers es_out"
    and "registry_find r name = Some m" "metric_type m \<noteq> Histogram"
  shows "let out = scrape t (httpGet network (target_host t) (target_port t) (target_path t)) r0
    in succeeded out \<and> (\<exists>m'. registry_find (merged_registry out) name = Some m' \<and>
      metric_type m' = metric_type m \<and> metric_help m' = metric_help m \<and> metric_labels m' = metric_labels m \<and>
      metric_value m' = reread_value (metric_value m))"
proof -
  have get: "httpGet network (target_host t) (target_port t) (target_path t) =
      \<lparr>status = 200, body = renderPrometheusText r True, resp_error = []\<rparr>"
    using metrics_exchange [where network = network and host = "target_host t" and port = "target_port t", OF assms(4-10)]
    by (simp add: assms(3))
  note parse = parse_render [OF assms(1,2)]
  show ?thesis
    using merge_scrape [OF assms(1,2,11,12), of r0]
    by (auto simp: get Let_def scrape_def merge_eq [OF parse])
qed

theorem federation_over_http_witness:
  "let m = CounterObj \<lparr>c_name = ''hits'', c_help = [], c_labels = [], c_value = DFin False 41\<rparr>;
       served = handleClient (MetricsServer_new ''0.0.0.0'' 19100) \<lparr>metrics = [(''hits'', m)]\<rparr> 0 ''10.0.0.1:80''
         [Chunk (get_request ''h'' ''/metrics'')];
       out = scrape (ScrapeTarget_new\<lparr>target_host := ''h''\<rparr>) (httpGet (\<lambda>h p r. Answers [Chunk (the (sent served))]) ''h'' 80 ''/metrics'')
         registry_empty
   in succeeded out \<and> (\<exists>m'. registry_find (merged_registry out) ''hits'' = Some m' \<and> metric_value m' = DFin False 41)"
proof -
  let ?m = "CounterObj \<lparr>c_name = ''hits'', c_help = [], c_labels = [], c_value = DFin False 41\<rparr>"
  let ?r = "\<lparr>metrics = [(''hits'', ?m)]\<rparr>" and ?t = "ScrapeTarget_new\<lparr>target_host := ''h''\<rparr>"
  let ?s = "MetricsServer_new ''0.0.0.0'' 19100" and ?es = "[Chunk (get_request ''h'' ''/metrics'')]"
  let ?served = "handleClient ?s ?r 0 ''10.0.0.1:80'' ?es"
  have wf: "wf_registry ?r" by (simp add: wf_registry_def wf_double_numeral del: wf_double.simps)
  have safe: "list_all scrape_safe (registry_list ?r)"
    using readable_whole [of 41 False]
    by (simp add: registry_list_def scrape_safe_def exposed_value_def isNameChar_def isalnum_def trimmed_def)
  have target: "target_path ?t = ''/metrics''" "clean_host (target_host ?t)"
    by (simp_all add: ScrapeTarget_new_def clean_host_def)
  have permit: "acl_permits (srv_acl ?s) ''10.0.0.1:80'' ''/metrics'' []"
    by (simp add: MetricsServer_new_def AclPolicy_new_def acl_permits_def ipAllowed_def authOk_def)
  have admit: "fst (limiter_allow (srv_limiter ?s) ''10.0.0.1:80'' 0)"
    by (simp add: MetricsServer_new_def RateLimiter_new_def limiter_allow_def)
  have "show_double (DFin False 41) = ''41''" by code_simp
  then have short: "length (renderPrometheusText ?r True) \<le> 1024 * 1024"
    by (simp add: renderPrometheusText_def sorted_metrics_def registry_list_def unlines_def braced_def)
  have "clean_path ''/metrics''" by (simp add: clean_path_def isspace_def)
  then have "read_request ?es = Some \<lparr>req_method = ''GET'', req_path = ''/metrics'', req_authorization = [], req_body = []\<rparr>"
    using target(2) by (intro read_request_get [of "''h''"]) simp_all
  then have sent: "sent ?served \<noteq> None" by (simp add: handleClient_eq case_prod_beta Let_def)
  have find: "registry_find ?r ''hits'' = Some ?m" "metric_type ?m \<noteq> Histogram"
    by (simp_all add: registry_find_def)
  show ?thesis
    using federation_over_http [OF wf safe target _ permit admit short _ _ find, where es_in = ?es and ?r0.0 = registry_empty
        and es_out = "[Chunk (the (sent ?served))]" and network = "\<lambda>h p r. Answers [Chunk (the (sent ?served))]"]
      sent reread_value_whole [of 41 False]
    by (auto simp: Let_def ScrapeTarget_new_def)
qed

end
